(* ===== verification/CoreDB_Prelude.thy ===== *)
theory CoreDB_Prelude
  imports Main "HOL-Library.Word" "HOL-Library.Multiset"
begin

text \<open>
  Shared vocabulary of the CoreDB development: the machine types of the C++ sources, the
  exceptions and undefined behaviour of the operations the sources use as values of a sum type,
  the in-memory byte representation of an integer (the \<^verbatim>\<open>reinterpret_cast\<close>/\<^verbatim>\<open>memcpy\<close> idiom on the
  little-endian targets x86-64 and arm64), and the generic lemmas on lists, maps and words that
  the component theories share.
\<close>

unbundle bit_operations_syntax

section \<open>Machine types\<close>

type_synonym byte = "8 word"
type_synonym u32 = "32 word"
type_synonym u64 = "64 word"
type_synonym i32 = "32 word"
type_synonym i64 = "64 word"

text \<open>A \<^verbatim>\<open>std::string\<close> is a sequence of bytes; a path or a message is an Isabelle string.\<close>

type_synonym cstring = "byte list"

named_theorems word_codec \<open>little-endian encoding and decoding of words\<close>
named_theorems res_simps \<open>evaluation of computations that may throw\<close>

section \<open>Exceptions as values\<close>

text \<open>
  What a call of the sources can do besides returning: throw one of the standard exceptions the
  sources throw or provoke (\<^verbatim>\<open>vector::at\<close>, \<^verbatim>\<open>std::get\<close>), run into undefined behaviour
  (\<^verbatim>\<open>operator[]\<close> out of range, \<^verbatim>\<open>erase(end())\<close>), or never return.
\<close>

datatype cpp_exc =
    LogicError
  | OutOfRange
  | BadVariantAccess
  | RuntimeError
  | UndefinedBehaviour
  | NonTermination

type_synonym 'a res = "cpp_exc + 'a"

definition bind_res :: "'e + 'a \<Rightarrow> ('a \<Rightarrow> 'e + 'b) \<Rightarrow> 'e + 'b" where
  "bind_res m f = (case m of Inl e \<Rightarrow> Inl e | Inr x \<Rightarrow> f x)"

lemma bind_res_simps [simp, res_simps]:
  "bind_res (Inl e) f = Inl e"
  "bind_res (Inr x) f = f x"
  by (simp_all add: bind_res_def)

lemma bind_res_eq_Inr [simp]:
  "bind_res m f = Inr y \<longleftrightarrow> (\<exists>x. m = Inr x \<and> f x = Inr y)"
  by (cases m) auto

lemma bind_res_cong [fundef_cong]:
  "m = m' \<Longrightarrow> (\<And>x. m' = Inr x \<Longrightarrow> f x = f' x) \<Longrightarrow> bind_res m f = bind_res m' f'"
  by (cases m') auto

text \<open>A loop over the elements of a container whose body may throw.\<close>

fun fold_res :: "('a \<Rightarrow> 's \<Rightarrow> 'e + 's) \<Rightarrow> 'a list \<Rightarrow> 's \<Rightarrow> 'e + 's" where
  "fold_res f [] s = Inr s"
| "fold_res f (x # xs) s = bind_res (f x s) (fold_res f xs)"

fun map_res :: "('a \<Rightarrow> 'e + 'b) \<Rightarrow> 'a list \<Rightarrow> 'e + 'b list" where
  "map_res f [] = Inr []"
| "map_res f (x # xs) = bind_res (f x) (\<lambda>y. bind_res (map_res f xs) (\<lambda>ys. Inr (y # ys)))"

lemma map_res_append: "map_res f (xs @ ys) = bind_res (map_res f xs) (\<lambda>us. bind_res (map_res f ys) (\<lambda>vs. Inr (us @ vs)))"
  by (induction xs) (auto simp: bind_res_def split: sum.splits)

lemma fold_res_append [res_simps]:
  "fold_res f (xs @ ys) s = bind_res (fold_res f xs s) (fold_res f ys)"
proof (induction xs arbitrary: s)
  case (Cons x xs)
  then show ?case by (cases "f x s") auto
qed simp

lemma fold_res_total:
  assumes "\<And>x s. x \<in> set xs \<Longrightarrow> f x s = Inr (g x s)"
  shows "fold_res f xs s = Inr (fold g xs s)"
  using assms by (induction xs arbitrary: s) auto

lemma fold_res_invariant:
  assumes "fold_res f xs s = Inr s'" and "P s"
    and "\<And>x s s'. x \<in> set xs \<Longrightarrow> P s \<Longrightarrow> f x s = Inr s' \<Longrightarrow> P s'"
  shows "P s'"
  using assms by (induction xs arbitrary: s) auto

lemma map_res_eq_Inr:
  "map_res f xs = Inr ys \<longleftrightarrow> list_all2 (\<lambda>x y. f x = Inr y) xs ys"
  by (induction xs arbitrary: ys) (auto simp: list_all2_Cons1)

lemma map_res_total:
  "(\<And>x. x \<in> set xs \<Longrightarrow> f x = Inr (g x)) \<Longrightarrow> map_res f xs = Inr (map g xs)"
  by (induction xs) auto

lemma map_res_cong [fundef_cong]:
  "xs = ys \<Longrightarrow> (\<And>x. x \<in> set ys \<Longrightarrow> f x = g x) \<Longrightarrow> map_res f xs = map_res g ys"
  by (induction ys arbitrary: xs) auto

text \<open>\<^verbatim>\<open>vector::at\<close> throws out of range; \<^verbatim>\<open>operator[]\<close> is undefined there.\<close>

definition vec_at :: "'a list \<Rightarrow> nat \<Rightarrow> 'a res" where
  "vec_at xs i = (if i < length xs then Inr (xs ! i) else Inl OutOfRange)"

definition vec_idx :: "'a list \<Rightarrow> nat \<Rightarrow> 'a res" where
  "vec_idx xs i = (if i < length xs then Inr (xs ! i) else Inl UndefinedBehaviour)"

lemma vec_at_in [simp]: "i < length xs \<Longrightarrow> vec_at xs i = Inr (xs ! i)"
  by (simp add: vec_at_def)

lemma vec_idx_in [simp]: "i < length xs \<Longrightarrow> vec_idx xs i = Inr (xs ! i)"
  by (simp add: vec_idx_def)

lemma vec_at_eq_Inr: "vec_at xs i = Inr x \<longleftrightarrow> i < length xs \<and> xs ! i = x"
  by (simp add: vec_at_def)

lemma vec_idx_eq_Inr: "vec_idx xs i = Inr x \<longleftrightarrow> i < length xs \<and> xs ! i = x"
  by (simp add: vec_idx_def)

section \<open>Words as bytes\<close>

definition le_bytes :: "'a::len word \<Rightarrow> byte list" where
  "le_bytes w = map (\<lambda>i. ucast (drop_bit (8 * i) w)) [0..<LENGTH('a) div 8]"

fun of_le_bytes :: "byte list \<Rightarrow> 'a::len word" where
  "of_le_bytes [] = 0"
| "of_le_bytes (b # bs) = ucast b OR push_bit 8 (of_le_bytes bs)"

lemma length_le_bytes [simp]: "length (le_bytes (w::'a::len word)) = LENGTH('a) div 8"
  by (simp add: le_bytes_def)

lemma le_bytes_eq_Nil [simp]: "le_bytes (w::'a::len word) = [] \<longleftrightarrow> LENGTH('a) div 8 = 0"
  by (simp add: le_bytes_def)

lemma bit_of_le_bytes:
  "bit (of_le_bytes bs :: 'a::len word) k \<longleftrightarrow>
     k < LENGTH('a) \<and> k div 8 < length bs \<and> bit (bs ! (k div 8)) (k mod 8)"
proof (induction bs arbitrary: k)
  case Nil
  then show ?case by simp
next
  case (Cons b bs)
  show ?case
  proof (cases "k < 8")
    case True
    then show ?thesis
      by (auto simp: bit_simps)
  next
    case False
    then obtain j where j: "k = j + 8" by (metis le_Suc_ex add.commute not_le)
    have "(j + 8) div 8 = Suc (j div 8)" by simp
    then show ?thesis
      by (auto simp: j bit_simps Cons.IH dest: bit_imp_le_length)
  qed
qed

lemma of_le_bytes_le_bytes [simp, word_codec]:
  assumes "8 dvd LENGTH('a)"
  shows "of_le_bytes (le_bytes (w::'a::len word)) = w"
proof (rule bit_word_eqI)
  fix k assume k: "k < LENGTH('a)"
  from assms k have "k div 8 < LENGTH('a) div 8"
    by (auto simp: dvd_def less_mult_imp_div_less mult.commute)
  with k show "bit (of_le_bytes (le_bytes w) :: 'a word) k \<longleftrightarrow> bit w k"
    by (simp add: bit_of_le_bytes le_bytes_def bit_simps mult.commute [of 8])
qed

lemma le_bytes_inject:
  assumes "8 dvd LENGTH('a)"
  shows "le_bytes (v::'a::len word) = le_bytes w \<longleftrightarrow> v = w"
  using of_le_bytes_le_bytes [OF assms] by metis

text \<open>
  Reading a word off the front of a byte sequence: \<^verbatim>\<open>None\<close> when fewer bytes than its size are
  left, as \<^verbatim>\<open>ReadRaw\<close> of \<^verbatim>\<open>record.cpp\<close> and \<^verbatim>\<open>segment.cpp\<close> report.
\<close>

definition read_word :: "byte list \<Rightarrow> ('a::len word \<times> byte list) option" where
  "read_word bs =
     (let n = LENGTH('a) div 8
      in if length bs < n then None else Some (of_le_bytes (take n bs), drop n bs))"

lemma read_word_le_bytes [simp, word_codec]:
  assumes "8 dvd LENGTH('a)"
  shows "read_word (le_bytes (w::'a::len word) @ rest) = Some (w, rest)"
  by (simp add: read_word_def assms)

lemma read_word_le_bytes_all [simp, word_codec]:
  "8 dvd LENGTH('a) \<Longrightarrow> read_word (le_bytes (w::'a::len word)) = Some (w, [])"
  using read_word_le_bytes [of w "[]"] by simp

lemma read_word_length:
  "read_word bs = Some (w::'a::len word, rest) \<Longrightarrow> length bs = length rest + LENGTH('a) div 8"
  by (auto simp: read_word_def Let_def split: if_splits)

lemma read_word_short:
  "length bs < LENGTH('a) div 8 \<Longrightarrow> (read_word bs :: ('a::len word \<times> _) option) = None"
  by (simp add: read_word_def)

text \<open>A block of bytes: \<^verbatim>\<open>ReadBytes\<close>.\<close>

definition read_bytes :: "nat \<Rightarrow> byte list \<Rightarrow> (byte list \<times> byte list) option" where
  "read_bytes n bs = (if length bs < n then None else Some (take n bs, drop n bs))"

lemma read_bytes_append [simp, word_codec]:
  "length xs = n \<Longrightarrow> read_bytes n (xs @ rest) = Some (xs, rest)"
  by (simp add: read_bytes_def)

lemma read_bytes_SomeD:
  "read_bytes n bs = Some (xs, rest) \<Longrightarrow> bs = xs @ rest \<and> length xs = n"
  by (auto simp: read_bytes_def split: if_splits)

section \<open>Word lemmas\<close>

lemma word_xor_eq_zero_iff: "a XOR b = 0 \<longleftrightarrow> a = (b::'a::len word)"
proof
  assume "a XOR b = 0"
  then have "a XOR (b XOR b) = b" by (simp only: xor.assoc [symmetric] xor.left_neutral)
  then show "a = b" by simp
qed simp

lemma word_xor_cancel_left: "a XOR b = a XOR c \<longleftrightarrow> b = (c::'a::len word)"
proof
  assume "a XOR b = a XOR c"
  then have "a XOR (a XOR b) = a XOR (a XOR c)" by simp
  then show "b = c" by (simp only: xor.assoc [symmetric] xor_self_eq xor.left_neutral)
qed simp

lemma word_xor_cancel_right: "b XOR a = c XOR a \<longleftrightarrow> b = (c::'a::len word)"
  using word_xor_cancel_left [of a b c] by (simp only: xor.commute)

section \<open>Codecs\<close>

text \<open>
  The contract every on-disk encoder and decoder pair of the sources keeps: decoding what was
  encoded gives the value back and leaves the following bytes alone. Sequences of encoded values
  and counted repetitions then decode too.
\<close>

fun dec_many :: "(byte list \<Rightarrow> ('a \<times> byte list) option) \<Rightarrow> nat \<Rightarrow> byte list \<Rightarrow>
    ('a list \<times> byte list) option" where
  "dec_many dec 0 bs = Some ([], bs)"
| "dec_many dec (Suc n) bs =
     (case dec bs of
        None \<Rightarrow> None
      | Some (x, bs') \<Rightarrow>
          (case dec_many dec n bs' of
             None \<Rightarrow> None
           | Some (xs, rest) \<Rightarrow> Some (x # xs, rest)))"

locale codec =
  fixes enc :: "'a \<Rightarrow> byte list"
    and dec :: "byte list \<Rightarrow> ('a \<times> byte list) option"
    and ok :: "'a \<Rightarrow> bool"
  assumes dec_enc: "ok x \<Longrightarrow> dec (enc x @ rest) = Some (x, rest)"
begin

lemma dec_many_enc:
  "list_all ok xs \<Longrightarrow> dec_many dec (length xs) (concat (map enc xs) @ rest) = Some (xs, rest)"
  by (induction xs) (auto simp: dec_enc)

lemma enc_inject:
  assumes "ok x" "ok y" "enc x @ r = enc y @ s"
  shows "x = y \<and> r = s"
proof -
  have "Some (x, r) = dec (enc x @ r)" by (rule dec_enc [OF assms(1), symmetric])
  also have "\<dots> = dec (enc y @ s)" by (rule arg_cong [OF assms(3)])
  also have "\<dots> = Some (y, s)" by (rule dec_enc [OF assms(2)])
  finally show ?thesis by simp
qed

end

text \<open>
  A decoder that reads a stream front to back: more input behind what it consumed changes nothing.
  Such a decoder fails on every proper prefix of an encoded value, which is what a torn write leaves.
\<close>

locale stream_codec = codec +
  assumes dec_more: "dec bs = Some (x, rest) \<Longrightarrow> dec (bs @ t) = Some (x, rest @ t)"
begin

lemma dec_prefix_None:
  assumes "ok x" "enc x = p @ q" "q \<noteq> []"
  shows "dec p = None"
proof (rule ccontr)
  assume "dec p \<noteq> None"
  then obtain y r where "dec p = Some (y, r)" by auto
  from dec_more [OF this, of q] dec_enc [OF assms(1), of "[]"] assms(2,3) show False by simp
qed

lemma dec_many_more:
  "dec_many dec n bs = Some (xs, rest) \<Longrightarrow> dec_many dec n (bs @ t) = Some (xs, rest @ t)"
proof (induction n arbitrary: bs xs)
  case (Suc n)
  from Suc.prems obtain y bs' ys where y: "dec bs = Some (y, bs')" "dec_many dec n bs' = Some (ys, rest)"
    "xs = y # ys" by (auto split: option.splits)
  from dec_more [OF y(1), of t] Suc.IH [OF y(2)] y(3) show ?case by simp
qed simp

end

lemma read_word_more:
  "read_word bs = Some (w::'a::len word, rest) \<Longrightarrow> read_word (bs @ t) = Some (w, rest @ t)"
  by (auto simp: read_word_def Let_def split: if_splits)

lemma read_bytes_more:
  "read_bytes n bs = Some (xs, rest) \<Longrightarrow> read_bytes n (bs @ t) = Some (xs, rest @ t)"
  by (auto simp: read_bytes_def split: if_splits)

interpretation word8_codec: stream_codec "le_bytes :: byte \<Rightarrow> byte list" read_word "\<lambda>_. True"
  by unfold_locales (simp_all add: read_word_more)

interpretation word32_codec: stream_codec "le_bytes :: u32 \<Rightarrow> byte list" read_word "\<lambda>_. True"
  by unfold_locales (simp_all add: read_word_more)

interpretation word64_codec: stream_codec "le_bytes :: u64 \<Rightarrow> byte list" read_word "\<lambda>_. True"
  by unfold_locales (simp_all add: read_word_more)

end
