(* ===== verification/Types.thy ===== *)
theory Types
  imports CoreDB_Prelude "HOL-Library.List_Lexorder"
begin

text \<open>
  \<^verbatim>\<open>include/coredb/storage/types.h\<close> and \<^verbatim>\<open>src/storage/types.cpp\<close>: column types, cell values, the
  three-way comparison that widens every number to \<^verbatim>\<open>double\<close>, and predicate evaluation. A
  \<^verbatim>\<open>double\<close> is its IEEE-754 bit pattern; the conversion from an integer rounds to nearest, ties to
  even, the default rounding mode of the targets. The locale \<open>three_way\<close> is the contract
  of a comparison that segment statistics and pruning rest on.
\<close>

section \<open>Doubles as bit patterns\<close>

type_synonym fp64 = "64 word"

definition fp_is_nan :: "fp64 \<Rightarrow> bool" where
  "fp_is_nan d \<longleftrightarrow> unat (take_bit 63 d) > 0x7FF0000000000000"

text \<open>
  The signed magnitude of a bit pattern. On patterns that are not NaN the order of these integers
  is the order of the represented numbers; both zeros have magnitude 0.
\<close>

definition fp_key :: "fp64 \<Rightarrow> int" where
  "fp_key d = (if bit d 63 then - uint (take_bit 63 d) else uint (take_bit 63 d))"

definition fp_less :: "fp64 \<Rightarrow> fp64 \<Rightarrow> bool" where
  "fp_less a b \<longleftrightarrow> \<not> fp_is_nan a \<and> \<not> fp_is_nan b \<and> fp_key a < fp_key b"

text \<open>Conversion of an integer: position of the leading bit, then round half to even.\<close>

fun ilog2 :: "nat \<Rightarrow> nat" where
  "ilog2 n = (if n < 2 then 0 else Suc (ilog2 (n div 2)))"

declare ilog2.simps [simp del]

definition round_even :: "nat \<Rightarrow> nat \<Rightarrow> nat" where
  "round_even m s =
     (let q = m div 2 ^ s; r = m mod 2 ^ s
      in if 2 * r > 2 ^ s \<or> (2 * r = 2 ^ s \<and> odd q) then q + 1 else q)"

definition fp_magnitude :: "nat \<Rightarrow> nat" where
  "fp_magnitude m =
     (if m = 0 then 0
      else let e = ilog2 m
           in (e + 1022) * 2 ^ 52 + (if e \<le> 52 then m * 2 ^ (52 - e) else round_even m (e - 52)))"

definition fp_of_int :: "int \<Rightarrow> fp64" where
  "fp_of_int i =
     (if i < 0 then push_bit 63 1 OR of_nat (fp_magnitude (nat (- i))) else of_nat (fp_magnitude (nat i)))"

section \<open>The code\<close>

text \<open>
  An enumeration with a fixed underlying type also holds the values that \<^verbatim>\<open>static_cast\<close> makes of a
  byte outside its enumerators; \<open>kUnknown\<close> stands for those.
\<close>

datatype ColumnType = kInt32 | kInt64 | kDouble | kString | kUnknown byte

definition ColumnType_to_byte :: "ColumnType \<Rightarrow> byte" where
  "ColumnType_to_byte t =
     (case t of kInt32 \<Rightarrow> 0 | kInt64 \<Rightarrow> 1 | kDouble \<Rightarrow> 2 | kString \<Rightarrow> 3 | kUnknown b \<Rightarrow> b)"

definition ColumnType_of_byte :: "byte \<Rightarrow> ColumnType" where
  "ColumnType_of_byte b =
     (if b = 0 then kInt32 else if b = 1 then kInt64 else if b = 2 then kDouble
      else if b = 3 then kString else kUnknown b)"

definition ToString_ColumnType :: "ColumnType \<Rightarrow> string" where
  "ToString_ColumnType t =
     (case t of kInt32 \<Rightarrow> ''int32'' | kInt64 \<Rightarrow> ''int64'' | kDouble \<Rightarrow> ''double''
      | kString \<Rightarrow> ''string'' | kUnknown _ \<Rightarrow> ''unknown'')"

record ColumnSchema =
  cs_name :: string
  cs_type :: ColumnType

type_synonym Schema = "ColumnSchema list"

datatype Value = Monostate | VInt32 i32 | VInt64 i64 | VDouble fp64 | VString cstring

type_synonym Row = "Value list"

datatype PredicateOp = kEq | kNe | kLt | kLe | kGt | kGe

definition ToString_PredicateOp :: "PredicateOp \<Rightarrow> string" where
  "ToString_PredicateOp op =
     (case op of kEq \<Rightarrow> ''='' | kNe \<Rightarrow> ''!='' | kLt \<Rightarrow> ''<'' | kLe \<Rightarrow> ''<='' | kGt \<Rightarrow> ''>'' | kGe \<Rightarrow> ''>='')"

fun IsNumeric :: "Value \<Rightarrow> bool" where
  "IsNumeric (VInt32 _) = True"
| "IsNumeric (VInt64 _) = True"
| "IsNumeric (VDouble _) = True"
| "IsNumeric _ = False"

fun AsDouble :: "Value \<Rightarrow> fp64 res" where
  "AsDouble (VInt32 i) = Inr (fp_of_int (sint i))"
| "AsDouble (VInt64 i) = Inr (fp_of_int (sint i))"
| "AsDouble (VDouble d) = Inr d"
| "AsDouble _ = Inl LogicError"

definition is_string :: "Value \<Rightarrow> bool" where
  "is_string v = (case v of VString _ \<Rightarrow> True | _ \<Rightarrow> False)"

definition get_string :: "Value \<Rightarrow> cstring res" where
  "get_string v = (case v of VString s \<Rightarrow> Inr s | _ \<Rightarrow> Inl BadVariantAccess)"

definition CompareValues :: "Value \<Rightarrow> Value \<Rightarrow> int res" where
  "CompareValues lhs rhs =
     (if is_string lhs \<and> is_string rhs then
        bind_res (get_string lhs) (\<lambda>a. bind_res (get_string rhs) (\<lambda>b.
          if a < b then Inr (-1) else if b < a then Inr 1 else Inr 0))
      else if IsNumeric lhs \<and> IsNumeric rhs then
        bind_res (AsDouble lhs) (\<lambda>a. bind_res (AsDouble rhs) (\<lambda>b.
          if fp_less a b then Inr (-1) else if fp_less b a then Inr 1 else Inr 0))
      else Inl LogicError)"

definition EvaluatePredicate :: "Value \<Rightarrow> PredicateOp \<Rightarrow> Value \<Rightarrow> bool res" where
  "EvaluatePredicate column_value op literal =
     (if column_value = Monostate then Inr False
      else bind_res (CompareValues column_value literal) (\<lambda>cmp.
        case op of
          kEq \<Rightarrow> Inr (cmp = 0)
        | kNe \<Rightarrow> Inr (cmp \<noteq> 0)
        | kLt \<Rightarrow> Inr (cmp < 0)
        | kLe \<Rightarrow> Inr (cmp \<le> 0)
        | kGt \<Rightarrow> Inr (cmp > 0)
        | kGe \<Rightarrow> Inr (cmp \<ge> 0)))"

section \<open>The contract of a comparison\<close>

text \<open>
  A comparison is a total preorder on the values of one domain: it never throws there and its sign
  is given by the order. \<open>track_min\<close> and \<open>track_max\<close> are the update the segment builder runs for
  each value.
\<close>

locale three_way =
  fixes cmp :: "'v \<Rightarrow> 'v \<Rightarrow> int res"
    and D :: "'v set"
    and le :: "'v \<Rightarrow> 'v \<Rightarrow> bool"
  assumes le_refl: "x \<in> D \<Longrightarrow> le x x"
    and le_trans: "x \<in> D \<Longrightarrow> y \<in> D \<Longrightarrow> z \<in> D \<Longrightarrow> le x y \<Longrightarrow> le y z \<Longrightarrow> le x z"
    and le_total: "x \<in> D \<Longrightarrow> y \<in> D \<Longrightarrow> le x y \<or> le y x"
    and cmp_le: "x \<in> D \<Longrightarrow> y \<in> D \<Longrightarrow>
      cmp x y = Inr (if \<not> le y x then -1 else if \<not> le x y then 1 else 0)"
begin

definition track :: "'v \<Rightarrow> 'v \<times> 'v \<Rightarrow> ('v \<times> 'v) res" where
  "track v mm =
     bind_res (cmp v (fst mm)) (\<lambda>c. let lo = (if c < 0 then v else fst mm) in
     bind_res (cmp v (snd mm)) (\<lambda>c. Inr (lo, if c > 0 then v else snd mm)))"

lemma cmp_signs:
  assumes "x \<in> D" "y \<in> D" "cmp x y = Inr c"
  shows "c < 0 \<longleftrightarrow> \<not> le y x" and "c \<le> 0 \<longleftrightarrow> le x y" and "c = 0 \<longleftrightarrow> le x y \<and> le y x"
    and "c > 0 \<longleftrightarrow> \<not> le x y" and "c \<ge> 0 \<longleftrightarrow> le y x"
  using assms cmp_le [OF assms(1,2)] le_total [OF assms(1,2)] by (auto split: if_splits)

lemma track_bounds:
  assumes "v \<in> D" "lo \<in> D" "hi \<in> D"
  shows "\<exists>lo' hi'. track v (lo, hi) = Inr (lo', hi') \<and> lo' \<in> {lo, v} \<and> hi' \<in> {hi, v} \<and>
     le lo' lo \<and> le lo' v \<and> le hi hi' \<and> le v hi'"
  using assms le_total [of v lo] le_total [of v hi] le_refl
  by (auto simp: track_def cmp_le)

text \<open>The statistics gathered over a non-empty sequence bound all of its elements.\<close>

lemma track_all:
  assumes "v0 \<in> D" "set vs \<subseteq> D"
  shows "\<exists>lo hi. fold_res track vs (v0, v0) = Inr (lo, hi) \<and> lo \<in> insert v0 (set vs) \<and>
     hi \<in> insert v0 (set vs) \<and> (\<forall>v\<in>insert v0 (set vs). le lo v \<and> le v hi)"
  using assms(2)
proof (induction vs rule: rev_induct)
  case Nil
  then show ?case using assms(1) le_refl by auto
next
  case (snoc v vs)
  then obtain lo hi where IH: "fold_res track vs (v0, v0) = Inr (lo, hi)" "lo \<in> insert v0 (set vs)"
     "hi \<in> insert v0 (set vs)" "\<forall>v\<in>insert v0 (set vs). le lo v \<and> le v hi" by auto
  with snoc.prems assms(1) have D: "v \<in> D" "lo \<in> D" "hi \<in> D" by auto
  from track_bounds [OF this] obtain lo' hi' where t: "track v (lo, hi) = Inr (lo', hi')"
     "lo' \<in> {lo, v}" "hi' \<in> {hi, v}" "le lo' lo" "le lo' v" "le hi hi'" "le v hi'" by blast
  have "lo' \<in> D" "hi' \<in> D" using t D by auto
  then have "le lo' x \<and> le x hi'" if "x \<in> insert v0 (set vs)" for x
    using that IH(4) t(4,6) D snoc.prems assms(1) le_trans [of lo' lo x] le_trans [of x hi hi'] by auto
  with IH t show ?case by (auto simp: fold_res_append)
qed

end

section \<open>Conversion of integers to double\<close>

lemma ilog2_bounds: "0 < n \<Longrightarrow> 2 ^ ilog2 n \<le> n \<and> n < 2 ^ Suc (ilog2 n)"
proof (induction n rule: ilog2.induct)
  case (1 n)
  show ?case
  proof (cases "n < 2")
    case True
    with 1 show ?thesis by (simp add: ilog2.simps [of n])
  next
    case False
    with 1 have "2 ^ ilog2 (n div 2) \<le> n div 2 \<and> n div 2 < 2 ^ Suc (ilog2 (n div 2))" by simp
    then have "2 * 2 ^ ilog2 (n div 2) \<le> n \<and> n < 2 * 2 ^ Suc (ilog2 (n div 2))" by linarith
    with False show ?thesis by (simp add: ilog2.simps [of n])
  qed
qed

lemma ilog2_mono: "0 < m \<Longrightarrow> m \<le> n \<Longrightarrow> ilog2 m \<le> ilog2 n"
proof (rule ccontr)
  assume "0 < m" "m \<le> n" "\<not> ilog2 m \<le> ilog2 n"
  then have "(2::nat) ^ Suc (ilog2 n) \<le> 2 ^ ilog2 m" by (intro power_increasing) auto
  with ilog2_bounds [of m] ilog2_bounds [of n] \<open>0 < m\<close> \<open>m \<le> n\<close> show False by linarith
qed

lemma round_even_mono:
  assumes "m \<le> n"
  shows "round_even m s \<le> round_even n s"
proof (cases "m div 2 ^ s = n div 2 ^ s")
  case True
  moreover have "m mod 2 ^ s \<le> n mod 2 ^ s"
    using assms True by (metis div_mult_mod_eq add_le_cancel_left)
  ultimately show ?thesis by (auto simp: round_even_def Let_def)
next
  case False
  with div_le_mono [OF assms, of "2 ^ s"] show ?thesis by (auto simp: round_even_def Let_def)
qed

lemma round_even_exact: "round_even (k * 2 ^ s) s = k"
  by (simp add: round_even_def)

text \<open>The significand, scaled to the hidden bit: between \<open>2 ^ 52\<close> and \<open>2 ^ 53\<close>.\<close>

definition fp_significand :: "nat \<Rightarrow> nat" where
  "fp_significand m = (if ilog2 m \<le> 52 then m * 2 ^ (52 - ilog2 m) else round_even m (ilog2 m - 52))"

lemma fp_magnitude_alt: "0 < m \<Longrightarrow> fp_magnitude m = (ilog2 m + 1022) * 2 ^ 52 + fp_significand m"
  by (simp add: fp_magnitude_def fp_significand_def Let_def)

lemma fp_significand_bounds:
  assumes "0 < m"
  shows "2 ^ 52 \<le> fp_significand m \<and> fp_significand m \<le> 2 ^ 53"
proof (cases "ilog2 m \<le> 52")
  case True
  have "2 ^ ilog2 m * 2 ^ (52 - ilog2 m) \<le> m * 2 ^ (52 - ilog2 m)"
    "m * 2 ^ (52 - ilog2 m) \<le> 2 ^ Suc (ilog2 m) * 2 ^ (52 - ilog2 m)"
    using ilog2_bounds [OF assms] by (auto intro: mult_right_mono)
  moreover have "(2::nat) ^ ilog2 m * 2 ^ (52 - ilog2 m) = 2 ^ 52"
    "(2::nat) ^ Suc (ilog2 m) * 2 ^ (52 - ilog2 m) = 2 ^ 53"
    using True by (simp_all only: power_add [symmetric]) simp_all
  ultimately have "2 ^ 52 \<le> m * 2 ^ (52 - ilog2 m)" "m * 2 ^ (52 - ilog2 m) \<le> 2 ^ 53" by metis+
  with True show ?thesis by (simp add: fp_significand_def)
next
  case False
  define s where "s = ilog2 m - 52"
  have e: "ilog2 m = 52 + s" using False by (simp add: s_def)
  have lo: "2 ^ 52 \<le> m div 2 ^ s"
    using ilog2_bounds [OF assms] by (simp add: e power_add less_eq_div_iff_mult_less_eq)
  have hi: "m div 2 ^ s < 2 ^ 53"
    using ilog2_bounds [OF assms] by (intro less_mult_imp_div_less) (simp add: e power_add)
  show ?thesis using False lo hi
    by (auto simp: fp_significand_def s_def [symmetric] round_even_def Let_def)
qed

lemma fp_magnitude_mono:
  assumes "m \<le> n"
  shows "fp_magnitude m \<le> fp_magnitude n"
proof (cases "m = 0")
  case False
  then have m: "0 < m" and n: "0 < n" using assms by auto
  show ?thesis
  proof (cases "ilog2 m = ilog2 n")
    case True
    then have "fp_significand m \<le> fp_significand n"
      using assms by (simp add: fp_significand_def round_even_mono)
    then show ?thesis by (simp add: fp_magnitude_alt m n True)
  next
    case False
    with ilog2_mono [OF m assms] have "ilog2 m + 1 \<le> ilog2 n" by simp
    then have "(ilog2 m + 1 + 1022) * 2 ^ 52 \<le> (ilog2 n + 1022) * (2 ^ 52 :: nat)"
      by (intro mult_right_mono) auto
    then show ?thesis
      using fp_significand_bounds [OF m] fp_significand_bounds [OF n]
      by (simp add: fp_magnitude_alt m n)
  qed
qed (simp add: fp_magnitude_def)

lemma fp_magnitude_strict:
  assumes "m < n" "n \<le> 2 ^ 53"
  shows "fp_magnitude m < fp_magnitude n"
proof (cases "m = 0")
  case True
  with assms fp_significand_bounds [of n] show ?thesis
    by (simp add: fp_magnitude_alt) (simp add: fp_magnitude_def)
next
  case False
  then have m: "0 < m" and n: "0 < n" using assms by auto
  have "2 ^ ilog2 m < (2::nat) ^ 53" using ilog2_bounds [OF m] assms by linarith
  then have "ilog2 m < 53" by (rule power_less_imp_less_exp [rotated]) simp
  then have em: "ilog2 m \<le> 52" by simp
  show ?thesis
  proof (cases "ilog2 m = ilog2 n")
    case True
    with em assms(1) show ?thesis by (simp add: fp_magnitude_alt m n fp_significand_def)
  next
    case False
    with ilog2_mono [OF m, of n] assms have "ilog2 m + 1 \<le> ilog2 n" by simp
    then have "(ilog2 m + 1 + 1022) * 2 ^ 52 \<le> (ilog2 n + 1022) * (2 ^ 52 :: nat)"
      by (intro mult_right_mono) auto
    moreover have "fp_significand m < 2 ^ 53"
    proof -
      have "m * 2 ^ (52 - ilog2 m) < 2 ^ Suc (ilog2 m) * 2 ^ (52 - ilog2 m)"
        using ilog2_bounds [OF m] by simp
      also have "\<dots> = 2 ^ 53" using em by (simp only: power_add [symmetric]) simp
      finally show ?thesis using em by (simp add: fp_significand_def)
    qed
    ultimately show ?thesis
      using fp_significand_bounds [OF n] by (simp add: fp_magnitude_alt m n)
  qed
qed

lemma fp_magnitude_bound:
  assumes "m \<le> 2 ^ 63"
  shows "fp_magnitude m < 0x7FF0000000000000"
proof -
  have "ilog2 (2 ^ 63) = 63" by (simp add: ilog2.simps)
  then have "fp_magnitude (2 ^ 63) < 0x7FF0000000000000"
    using fp_significand_bounds [of "2 ^ 63"] by (simp add: fp_magnitude_alt)
  with fp_magnitude_mono [OF assms] show ?thesis by linarith
qed

lemma fp_of_int_key:
  assumes "\<bar>i\<bar> \<le> 2 ^ 63"
  shows "\<not> fp_is_nan (fp_of_int i)"
    and "fp_key (fp_of_int i) = (if i < 0 then - int (fp_magnitude (nat (- i))) else int (fp_magnitude (nat i)))"
proof -
  define k where "k = fp_magnitude (nat \<bar>i\<bar>)"
  have k: "k < 0x7FF0000000000000" using assms by (simp add: k_def fp_magnitude_bound)
  define w where "w = (of_nat k :: u64)"
  have uw: "unat w = k" using k by (simp add: w_def unat_of_nat)
  have "w < 2 ^ 63" using k uw by (simp add: word_less_nat_alt)
  then have tw: "take_bit 63 w = w"
    by (simp add: word_less_nat_alt word_unat_eq_iff unsigned_take_bit_eq take_bit_nat_eq_self)
  then have nb: "\<not> bit w 63" by (metis bit_take_bit_iff less_irrefl)
  have t: "take_bit 63 (push_bit 63 1 OR w) = w" using tw
    by (simp add: take_bit_or)
  have e: "fp_of_int i = (if i < 0 then push_bit 63 1 OR w else w)"
    by (simp add: fp_of_int_def w_def k_def)
  show "\<not> fp_is_nan (fp_of_int i)" using k uw by (auto simp: e fp_is_nan_def t tw)
  have "uint w = int k" using uw by (metis uint_nat)
  then show "fp_key (fp_of_int i) = (if i < 0 then - int (fp_magnitude (nat (- i))) else int (fp_magnitude (nat i)))"
    using nb by (auto simp: e fp_key_def t tw k_def bit_simps)
qed

section \<open>Comparison of values\<close>

lemma sint_bound_32: "\<bar>sint (a::i32)\<bar> \<le> 2 ^ 63"
  using sint_ge [of a] sint_lt [of a] by (simp add: abs_le_iff)

lemma sint_bound_64: "\<bar>sint (a::i64)\<bar> \<le> 2 ^ 63"
  using sint_ge [of a] sint_lt [of a] by (simp add: abs_le_iff)

lemmas fp_of_sint_key [simp] =
  fp_of_int_key [OF sint_bound_32] fp_of_int_key [OF sint_bound_64]

text \<open>The number a numeric value widens to, by its order key; comparable means not NaN.\<close>

definition num_key :: "Value \<Rightarrow> int" where
  "num_key v = (case AsDouble v of Inl _ \<Rightarrow> 0 | Inr d \<Rightarrow> fp_key d)"

definition comparable_num :: "Value \<Rightarrow> bool" where
  "comparable_num v \<longleftrightarrow> (case AsDouble v of Inl _ \<Rightarrow> False | Inr d \<Rightarrow> \<not> fp_is_nan d)"

lemma comparable_num_simps [simp]:
  "comparable_num (VInt32 i)" "comparable_num (VInt64 j)" "comparable_num (VDouble d) \<longleftrightarrow> \<not> fp_is_nan d"
  "\<not> comparable_num Monostate" "\<not> comparable_num (VString s)"
  by (simp_all add: comparable_num_def)

lemma CompareValues_num:
  assumes "comparable_num x" "comparable_num y"
  shows "CompareValues x y =
    Inr (if num_key x < num_key y then -1 else if num_key y < num_key x then 1 else 0)"
  using assms
  by (cases x; cases y) (auto simp: CompareValues_def is_string_def num_key_def comparable_num_def fp_less_def)

interpretation num: three_way CompareValues "{v. comparable_num v}" "\<lambda>x y. num_key x \<le> num_key y"
  by unfold_locales (auto simp: CompareValues_num)

interpretation str: three_way CompareValues "{v. is_string v}"
  "\<lambda>x y. \<forall>a b. get_string x = Inr a \<longrightarrow> get_string y = Inr b \<longrightarrow> a \<le> b"
proof unfold_locales
  fix x y assume "x \<in> {v. is_string v}" "y \<in> {v. is_string v}"
  then obtain a b where xy: "x = VString a" "y = VString b"
    by (auto simp: is_string_def split: Value.splits)
  then show "CompareValues x y = Inr (if \<not> (\<forall>a b. get_string y = Inr a \<longrightarrow> get_string x = Inr b \<longrightarrow> a \<le> b)
      then -1 else if \<not> (\<forall>a b. get_string x = Inr a \<longrightarrow> get_string y = Inr b \<longrightarrow> a \<le> b) then 1 else 0)"
    by (auto simp: CompareValues_def is_string_def get_string_def)
  show "(\<forall>a b. get_string x = Inr a \<longrightarrow> get_string y = Inr b \<longrightarrow> a \<le> b) \<or>
        (\<forall>a b. get_string y = Inr a \<longrightarrow> get_string x = Inr b \<longrightarrow> a \<le> b)"
    by (auto simp: xy get_string_def)
qed (auto simp: is_string_def get_string_def split: Value.splits)

lemma num_key_int:
  "num_key (VInt64 a) = (if sint a < 0 then - int (fp_magnitude (nat (- sint a))) else int (fp_magnitude (nat (sint a))))"
  "num_key (VInt32 b) = (if sint b < 0 then - int (fp_magnitude (nat (- sint b))) else int (fp_magnitude (nat (sint b))))"
  by (simp_all add: num_key_def)

lemma num_key_int_mono:
  assumes "sint a \<le> sint b"
  shows "num_key (VInt64 a) \<le> num_key (VInt64 b)"
  using assms fp_magnitude_mono [of "nat (sint a)" "nat (sint b)"]
    fp_magnitude_mono [of "nat (- sint b)" "nat (- sint a)"]
  by (auto simp: num_key_int)

lemma num_key_int_strict:
  assumes "sint a < sint b" "\<bar>sint a\<bar> \<le> 2 ^ 53" "\<bar>sint b\<bar> \<le> 2 ^ 53"
  shows "num_key (VInt64 a) < num_key (VInt64 b)"
proof -
  consider "0 \<le> sint a" | "sint a < 0" "0 \<le> sint b" | "sint b < 0" using assms(1) by linarith
  then show ?thesis
  proof cases
    case 1
    with assms fp_magnitude_strict [of "nat (sint a)" "nat (sint b)"] show ?thesis
      by (simp add: num_key_int)
  next
    case 2
    have "fp_magnitude 0 < fp_magnitude (nat (- sint a))"
      using 2 assms by (intro fp_magnitude_strict) auto
    with 2 show ?thesis by (simp add: num_key_int)
  next
    case 3
    with assms fp_magnitude_strict [of "nat (- sint b)" "nat (- sint a)"] show ?thesis
      by (simp add: num_key_int)
  qed
qed

lemma num_key_collapse: "num_key (VInt64 9007199254740993) = num_key (VInt64 9007199254740992)"
proof -
  have "fp_magnitude 9007199254740993 = fp_magnitude 9007199254740992"
    by (simp add: fp_magnitude_def ilog2.simps round_even_def)
  then show ?thesis by (simp add: num_key_int)
qed

section \<open>Properties\<close>

text \<open>
  C20: comparing two 64-bit integers never inverts their order, and is exact, the sign of the
  mathematical difference, whenever both have magnitude at most \<open>2 ^ 53\<close>.
\<close>

theorem CompareValues_int64:
  "\<exists>c. CompareValues (VInt64 a) (VInt64 b) = Inr c \<and>
     (sint a \<le> sint b \<longrightarrow> c \<le> 0) \<and> (sint b \<le> sint a \<longrightarrow> 0 \<le> c) \<and>
     (\<bar>sint a\<bar> \<le> 2 ^ 53 \<and> \<bar>sint b\<bar> \<le> 2 ^ 53 \<longrightarrow> c = sgn (sint a - sint b))"
proof (cases "sint a" "sint b" rule: linorder_cases)
  case less
  then show ?thesis using num_key_int_mono [of a b] num_key_int_strict [of a b]
    by (auto simp: CompareValues_num)
next
  case equal
  then show ?thesis using num_key_int_mono [of a b] num_key_int_mono [of b a]
    by (auto simp: CompareValues_num)
next
  case greater
  then show ?thesis using num_key_int_mono [of b a] num_key_int_strict [of b a]
    by (auto simp: CompareValues_num)
qed

theorem CompareValues_int64_witness:
  "CompareValues (VInt64 3) (VInt64 (-5)) = Inr 1"
  using CompareValues_int64 [of 3 "-5"] by auto

text \<open>
  Beyond \<open>2 ^ 53\<close> the widening merges neighbours: two different 64-bit integers compare equal,
  so the equality predicate accepts a value that differs from the literal and the greater-than
  predicate rejects a value that exceeds it.
\<close>

theorem CompareValues_int64_collapse:
  "CompareValues (VInt64 9007199254740993) (VInt64 9007199254740992) = Inr 0 \<and>
   EvaluatePredicate (VInt64 9007199254740993) kEq (VInt64 9007199254740992) = Inr True \<and>
   EvaluatePredicate (VInt64 9007199254740993) kGt (VInt64 9007199254740992) = Inr False"
proof -
  have "CompareValues (VInt64 9007199254740993) (VInt64 9007199254740992) = Inr 0"
    by (simp add: CompareValues_num num_key_collapse)
  then show ?thesis by (simp add: EvaluatePredicate_def)
qed

end
