(* ===== verification/Bitmap.thy ===== *)
theory Bitmap
  imports CoreDB_Prelude
begin

text \<open>
  The validity bitmap of \<^verbatim>\<open>include/coredb/util/bitmap.h\<close>: one bit per row, packed eight to a byte,
  with the unused bits of the last byte cleared by the constructor. The locale \<open>bit_vector\<close> is the
  contract columns rely on; the well-formedness predicate says that the byte vector has exactly the
  size the row count asks for, which every operation keeps.
\<close>

section \<open>The code\<close>

record Bitmap =
  bm_num_rows :: nat
  bm_bytes :: "byte list"

definition LastByteMask :: "nat \<Rightarrow> byte" where
  "LastByteMask num_rows =
     (let used_bits = num_rows mod 8
      in if used_bits = 0 then 0xFF else ucast (push_bit used_bits 1 - 1 :: u32))"

definition ClearTrailingBits :: "Bitmap \<Rightarrow> Bitmap" where
  "ClearTrailingBits bm =
     (if bm_bytes bm = [] then bm
      else bm\<lparr>bm_bytes := butlast (bm_bytes bm) @ [last (bm_bytes bm) AND LastByteMask (bm_num_rows bm)]\<rparr>)"

definition MakeBitmap :: "nat \<Rightarrow> bool \<Rightarrow> Bitmap" where
  "MakeBitmap num_rows initial_value =
     ClearTrailingBits
       \<lparr>bm_num_rows = num_rows,
        bm_bytes = replicate ((num_rows + 7) div 8) (if initial_value then 0xFF else 0x00)\<rparr>"

definition IsValid :: "Bitmap \<Rightarrow> nat \<Rightarrow> bool res" where
  "IsValid bm row =
     bind_res (vec_idx (bm_bytes bm) (row div 8))
       (\<lambda>b. Inr (drop_bit (row mod 8) b AND 1 \<noteq> 0))"

definition SetValid :: "Bitmap \<Rightarrow> nat \<Rightarrow> bool \<Rightarrow> Bitmap res" where
  "SetValid bm row valid =
     bind_res (vec_idx (bm_bytes bm) (row div 8))
       (\<lambda>b. let mask = (ucast (push_bit (row mod 8) 1 :: u32) :: byte);
                b' = (if valid then b OR mask else b AND NOT mask)
            in Inr (bm\<lparr>bm_bytes := (bm_bytes bm)[row div 8 := b']\<rparr>))"

definition AllValid :: "Bitmap \<Rightarrow> bool" where
  "AllValid bm =
     (if \<not> list_all (\<lambda>b. b = 0xFF) (butlast (bm_bytes bm)) then False
      else if bm_bytes bm = [] then True
      else last (bm_bytes bm) AND LastByteMask (bm_num_rows bm) = LastByteMask (bm_num_rows bm))"

definition CountValid :: "Bitmap \<Rightarrow> nat res" where
  "CountValid bm =
     fold_res (\<lambda>row count. bind_res (IsValid bm row) (\<lambda>v. Inr (count + (if v then 1 else 0))))
       [0..<bm_num_rows bm] 0"

definition FromBytes :: "nat \<Rightarrow> byte list \<Rightarrow> Bitmap" where
  "FromBytes num_rows bytes = \<lparr>bm_num_rows = num_rows, bm_bytes = bytes\<rparr>"

section \<open>The contract of a bit vector\<close>

locale bit_vector =
  fixes get :: "'b \<Rightarrow> nat \<Rightarrow> bool res"
    and set1 :: "'b \<Rightarrow> nat \<Rightarrow> bool \<Rightarrow> 'b res"
    and rows :: "'b \<Rightarrow> nat"
    and inv :: "'b \<Rightarrow> bool"
    and abs :: "'b \<Rightarrow> bool list"
  assumes length_abs: "inv b \<Longrightarrow> length (abs b) = rows b"
    and get_abs: "inv b \<Longrightarrow> i < rows b \<Longrightarrow> get b i = Inr (abs b ! i)"
    and set_abs: "inv b \<Longrightarrow> i < rows b \<Longrightarrow>
      \<exists>b'. set1 b i v = Inr b' \<and> inv b' \<and> rows b' = rows b \<and> abs b' = (abs b)[i := v]"
begin

lemma get_set:
  assumes "inv b" "i < rows b" "j < rows b" "set1 b i v = Inr b'"
  shows "get b' j = (if i = j then Inr v else get b j)"
proof -
  from set_abs [OF assms(1,2)] assms(4)
  have b': "inv b'" "rows b' = rows b" "abs b' = (abs b)[i := v]" by (metis sum.inject(2))+
  show ?thesis
    using assms(2,3) b' by (simp add: get_abs [OF b'(1)] get_abs [OF assms(1)] length_abs [OF assms(1)])
qed

text \<open>Setting a list of positions to one value, as a build loop does for the null rows.\<close>

lemma set_many:
  assumes "inv b" "\<forall>i\<in>set is. i < rows b"
  shows "\<exists>b'. fold_res (\<lambda>i s. set1 s i v) is b = Inr b' \<and> inv b' \<and> rows b' = rows b \<and>
     (\<forall>j < rows b. abs b' ! j = (if j \<in> set is then v else abs b ! j))"
  using assms
proof (induction "is" arbitrary: b)
  case (Cons i "is")
  then obtain b1 where b1: "set1 b i v = Inr b1" "inv b1" "rows b1 = rows b" "abs b1 = (abs b)[i := v]"
    using set_abs [of b i v] by auto
  with Cons obtain b' where "fold_res (\<lambda>i s. set1 s i v) is b1 = Inr b'" "inv b'" "rows b' = rows b"
     "\<forall>j < rows b. abs b' ! j = (if j \<in> set is then v else abs b1 ! j)"
    using Cons.IH [of b1] by auto
  with b1 Cons.prems show ?case
    by (auto simp: nth_list_update length_abs)
qed auto

lemma count_abs:
  assumes "inv b" "n \<le> rows b"
  shows "fold_res (\<lambda>i c. bind_res (get b i) (\<lambda>v. Inr (c + (if v then 1 else 0)))) [0..<n] (0::nat)
     = Inr (length (filter (\<lambda>i. abs b ! i) [0..<n]))"
  using assms by (induction n) (auto simp: fold_res_append get_abs)

end

section \<open>The bitmap keeps the contract\<close>

definition wf_bitmap :: "Bitmap \<Rightarrow> bool" where
  "wf_bitmap bm \<longleftrightarrow> length (bm_bytes bm) = (bm_num_rows bm + 7) div 8"

definition bitmap_bits :: "Bitmap \<Rightarrow> bool list" where
  "bitmap_bits bm = map (\<lambda>row. bit (bm_bytes bm ! (row div 8)) (row mod 8)) [0..<bm_num_rows bm]"

lemma row_byte_in: "wf_bitmap bm \<Longrightarrow> row < bm_num_rows bm \<Longrightarrow> row div 8 < length (bm_bytes bm)"
  by (simp add: wf_bitmap_def)

lemma drop_bit_and_1: "drop_bit n b AND 1 \<noteq> 0 \<longleftrightarrow> bit (b::'a::len word) n"
  by (simp add: and_one_eq mod_2_eq_odd even_drop_bit_iff_not_bit)

lemma bit_ucast_exp: "k < 8 \<Longrightarrow> bit (ucast (2 ^ k :: u32) :: byte) j \<longleftrightarrow> j = k"
  by (auto simp: bit_simps)

lemma IsValid_in:
  "wf_bitmap bm \<Longrightarrow> row < bm_num_rows bm \<Longrightarrow> IsValid bm row = Inr (bitmap_bits bm ! row)"
  by (simp add: IsValid_def row_byte_in drop_bit_and_1 bitmap_bits_def)

lemma SetValid_bits:
  assumes "wf_bitmap bm" "row < bm_num_rows bm" "SetValid bm row v = Inr bm'"
  shows "bitmap_bits bm' = (bitmap_bits bm)[row := v]"
proof (rule nth_equalityI)
  from assms show "length (bitmap_bits bm') = length ((bitmap_bits bm)[row := v])"
    by (auto simp: SetValid_def Let_def bitmap_bits_def)
  fix j assume "j < length (bitmap_bits bm')"
  with assms have j: "j < bm_num_rows bm" and n: "bm_num_rows bm' = bm_num_rows bm"
    by (auto simp: SetValid_def Let_def bitmap_bits_def)
  have same: "j = row" if "j div 8 = row div 8" "j mod 8 = row mod 8"
    using that by (metis div_mult_mod_eq)
  show "bitmap_bits bm' ! j = (bitmap_bits bm)[row := v] ! j"
    using assms j n same row_byte_in [OF assms(1,2)]
    by (auto simp: SetValid_def Let_def bitmap_bits_def nth_list_update bit_ucast_exp bit_or_iff bit_and_iff bit_not_iff
        split: if_splits)
qed

interpretation bm: bit_vector IsValid SetValid bm_num_rows wf_bitmap bitmap_bits
proof unfold_locales
  fix b :: Bitmap and i v
  assume wf: "wf_bitmap b"
  show "length (bitmap_bits b) = bm_num_rows b" by (simp add: bitmap_bits_def)
  assume i: "i < bm_num_rows b"
  show "IsValid b i = Inr (bitmap_bits b ! i)" using wf i by (rule IsValid_in)
  obtain b' where "SetValid b i v = Inr b'"
    using row_byte_in [OF wf i] by (auto simp: SetValid_def Let_def)
  moreover from this wf have "wf_bitmap b'" "bm_num_rows b' = bm_num_rows b"
    by (auto simp: SetValid_def Let_def wf_bitmap_def)
  ultimately show "\<exists>b'. SetValid b i v = Inr b' \<and> wf_bitmap b' \<and> bm_num_rows b' = bm_num_rows b \<and>
      bitmap_bits b' = (bitmap_bits b)[i := v]"
    using SetValid_bits [OF wf i] by blast
qed

section \<open>Construction, counting and the all-valid test\<close>

lemma bit_0xFF: "bit (0xFF :: int) k \<longleftrightarrow> k < 8"
proof -
  have "bit (mask 8 :: int) k \<longleftrightarrow> k < 8" by (auto simp: bit_mask_iff)
  then show ?thesis by (simp add: mask_eq_exp_minus_1)
qed

lemma byte_0xFF_iff: "b = (0xFF :: byte) \<longleftrightarrow> (\<forall>k<8. bit b k)"
  by (auto simp: bit_eq_iff bit_0xFF dest: bit_imp_le_length)

lemma bit_LastByteMask:
  "bit (LastByteMask n) k \<longleftrightarrow> k < 8 \<and> (n mod 8 = 0 \<or> k < n mod 8)"
proof (cases "n mod 8 = 0")
  case True
  then show ?thesis by (simp add: LastByteMask_def bit_0xFF)
next
  case False
  have "push_bit (n mod 8) (1::u32) - 1 = mask (n mod 8)"
    by (simp add: push_bit_eq_mult mask_eq_exp_minus_1)
  moreover have "n mod 8 < 8" by simp
  ultimately show ?thesis using False by (auto simp: LastByteMask_def Let_def bit_simps)
qed

lemma wf_MakeBitmap [simp]: "wf_bitmap (MakeBitmap n v)"
  by (auto simp: MakeBitmap_def ClearTrailingBits_def wf_bitmap_def)

lemma rows_MakeBitmap [simp]: "bm_num_rows (MakeBitmap n v) = n"
  by (auto simp: MakeBitmap_def ClearTrailingBits_def)

lemma last_byte_rows:
  assumes "(row::nat) div 8 = (n + 7) div 8 - 1"
  shows "row < n \<longleftrightarrow> 0 < n \<and> (n mod 8 = 0 \<or> row mod 8 < n mod 8)"
proof (cases "n mod 8 = 0")
  case True
  then have "(n + 7) div 8 = n div 8" by (auto elim!: dvdE simp: mod_eq_0_iff_dvd)
  with True assms show ?thesis by (cases "n = 0") (simp, linarith)
next
  case False
  then have "\<exists>q r. n = 8 * q + r \<and> 0 < r \<and> r < 8"
    by (intro exI [of _ "n div 8"] exI [of _ "n mod 8"]) auto
  then obtain q r where n: "n = 8 * q + r" and r: "0 < r" "r < 8" by blast
  have "(n + 7) div 8 = n div 8 + 1"
  proof -
    have "n div 8 = q" using r by (simp add: n)
    moreover have "(8 * q + r + 7) div 8 = q + 1" using r by (intro div_nat_eqI) auto
    ultimately show ?thesis by (simp add: n)
  qed
  with assms have "row div 8 = n div 8" by simp
  with False show ?thesis
    using div_mult_mod_eq [of row 8] div_mult_mod_eq [of n 8] by linarith
qed

text \<open>A property of all rows, read byte by byte: full bytes first, then the used bits of the last.\<close>

lemma rows_by_bytes:
  assumes "0 < (n::nat)"
  shows "(\<forall>row<n. P (row div 8) (row mod 8)) \<longleftrightarrow>
     (\<forall>i<(n + 7) div 8 - 1. \<forall>k<8. P i k) \<and>
     (\<forall>k<8. n mod 8 = 0 \<or> k < n mod 8 \<longrightarrow> P ((n + 7) div 8 - 1) k)" (is "?L \<longleftrightarrow> ?A \<and> ?B")
proof
  assume L: ?L
  have A: "P i k" if "i < (n + 7) div 8 - 1" "k < 8" for i k
    using that L [rule_format, of "8 * i + k"] by (simp add: div_mult2_eq)
  have B: "P ((n + 7) div 8 - 1) k" if "k < 8" "n mod 8 = 0 \<or> k < n mod 8" for k
    using that L [rule_format, of "8 * ((n + 7) div 8 - 1) + k"]
      last_byte_rows [of "8 * ((n + 7) div 8 - 1) + k" n] assms by simp
  from A B show "?A \<and> ?B" by blast
next
  assume AB: "?A \<and> ?B"
  show ?L
  proof (intro allI impI)
    fix row assume row: "row < n"
    show "P (row div 8) (row mod 8)"
    proof (cases "row div 8 < (n + 7) div 8 - 1")
      case False
      with row have last: "row div 8 = (n + 7) div 8 - 1" by simp
      moreover have "n mod 8 = 0 \<or> row mod 8 < n mod 8"
        using row by (simp add: last_byte_rows [OF last])
      ultimately show ?thesis using AB by auto
    qed (use AB in simp)
  qed
qed

lemma bitmap_bits_MakeBitmap: "bitmap_bits (MakeBitmap n v) = replicate n v"
proof (rule nth_equalityI)
  show "length (bitmap_bits (MakeBitmap n v)) = length (replicate n v)"
    by (simp add: bitmap_bits_def)
  fix row assume "row < length (bitmap_bits (MakeBitmap n v))"
  then have row: "row < n" by (simp add: bitmap_bits_def)
  define m where "m = (n + 7) div 8"
  have m: "row div 8 < m" "m \<noteq> 0" using row unfolding m_def by simp_all
  have "row div 8 = m - 1 \<Longrightarrow> n mod 8 = 0 \<or> row mod 8 < n mod 8"
    using last_byte_rows [of row n] row by (simp add: m_def)
  then show "bitmap_bits (MakeBitmap n v) ! row = replicate n v ! row"
    using row m
    by (auto simp: bitmap_bits_def MakeBitmap_def ClearTrailingBits_def m_def [symmetric] nth_append
        nth_butlast bit_simps bit_LastByteMask bit_0xFF less_diff_conv)
qed

lemma CountValid_bits: "wf_bitmap bm \<Longrightarrow> CountValid bm = Inr (count_list (bitmap_bits bm) True)"
proof -
  assume wf: "wf_bitmap bm"
  have "length (filter (\<lambda>i. bitmap_bits bm ! i) [0..<bm_num_rows bm]) = count_list (bitmap_bits bm) True"
    by (auto simp: bitmap_bits_def count_list_eq_length_filter filter_map intro!: arg_cong [where f = length] filter_cong)
  with bm.count_abs [OF wf order.refl] show ?thesis by (simp add: CountValid_def)
qed

lemma FromBytes_raw: "FromBytes (bm_num_rows bm) (bm_bytes bm) = bm"
  by (simp add: FromBytes_def)

text \<open>
  C18: the constructor followed by any number of updates: reading back a row gives the last value
  written to it, or the initial value when it was never written, and no update is rejected.
\<close>

theorem Bitmap_read_after_writes:
  assumes "\<forall>(i, v)\<in>set ws. i < n" and "row < n"
  shows "bind_res (fold_res (\<lambda>(i, v) b. SetValid b i v) ws (MakeBitmap n init)) (\<lambda>b. IsValid b row)
       = Inr (fold (\<lambda>(i, v) old. if i = row then v else old) ws init)"
proof -
  have "\<exists>b'. fold_res (\<lambda>(i, v) b. SetValid b i v) ws b = Inr b' \<and>
      IsValid b' row = Inr (fold (\<lambda>(i, v) old. if i = row then v else old) ws (bitmap_bits b ! row))"
    if "wf_bitmap b" "bm_num_rows b = n" for b
    using assms(1) that
  proof (induction ws arbitrary: b)
    case Nil
    then show ?case using assms(2) by (simp add: IsValid_in)
  next
    case (Cons w ws)
    obtain i v where w: "w = (i, v)" by (cases w)
    from Cons.prems w obtain b1 where b1: "SetValid b i v = Inr b1" "wf_bitmap b1"
      "bm_num_rows b1 = n" "bitmap_bits b1 = (bitmap_bits b)[i := v]"
      using bm.set_abs [of b i v] by auto
    with Cons.IH [of b1] Cons.prems w assms(2) show ?case
      by (auto simp: nth_list_update bm.length_abs)
  qed
  from this [of "MakeBitmap n init"] assms(2) show ?thesis
    by (auto simp: bitmap_bits_MakeBitmap)
qed

theorem Bitmap_read_after_writes_witness:
  "bind_res (fold_res (\<lambda>(i, v) b. SetValid b i v) [(9, False), (3, False), (9, True)] (MakeBitmap 11 True))
     (\<lambda>b. IsValid b 9) = Inr True"
  by (subst Bitmap_read_after_writes) simp_all

text \<open>
  C19: \<^verbatim>\<open>AllValid\<close>, which tests whole bytes and masks the last one, answers exactly whether every
  row of a well-formed bitmap is valid; stray bits beyond the last row, which a loaded file may
  carry, do not affect the answer.
\<close>

theorem AllValid_iff:
  assumes "wf_bitmap bm"
  shows "AllValid bm \<longleftrightarrow> (\<forall>row < bm_num_rows bm. IsValid bm row = Inr True)"
proof (cases "bm_bytes bm = []")
  case True
  with assms have "bm_num_rows bm = 0" by (auto simp: wf_bitmap_def)
  with True show ?thesis by (simp add: AllValid_def)
next
  case False
  define n m where "n = bm_num_rows bm" and "m = (n + 7) div 8"
  have len: "length (bm_bytes bm) = m" using assms by (simp add: wf_bitmap_def n_def m_def)
  with False have "m \<noteq> 0" by auto
  then have m: "0 < m" "0 < n" by (auto simp: m_def intro: gr0I)
  let ?bit = "\<lambda>i k. bit (bm_bytes bm ! i) k"
  have inner: "list_all (\<lambda>b. b = 0xFF) (butlast (bm_bytes bm)) \<longleftrightarrow> (\<forall>i<m - 1. \<forall>k<8. ?bit i k)"
    by (auto simp: list_all_length nth_butlast len byte_0xFF_iff)
  have outer: "last (bm_bytes bm) AND LastByteMask n = LastByteMask n \<longleftrightarrow>
      (\<forall>k<8. n mod 8 = 0 \<or> k < n mod 8 \<longrightarrow> ?bit (m - 1) k)"
    using False by (auto simp: bit_eq_iff bit_and_iff bit_LastByteMask last_conv_nth len)
  have "(\<forall>row<n. ?bit (row div 8) (row mod 8)) \<longleftrightarrow>
      (\<forall>i<m - 1. \<forall>k<8. ?bit i k) \<and> (\<forall>k<8. n mod 8 = 0 \<or> k < n mod 8 \<longrightarrow> ?bit (m - 1) k)"
    by (rule rows_by_bytes [OF m(2), folded m_def])
  with inner outer False assms show ?thesis
    by (simp add: AllValid_def n_def [symmetric] IsValid_in bitmap_bits_def)
qed

theorem AllValid_iff_witness:
  "AllValid (FromBytes 3 [0xFF]) \<and> IsValid (FromBytes 3 [0xFF]) 2 = Inr True"
proof -
  have wf: "wf_bitmap (FromBytes 3 [0xFF])" by (simp add: wf_bitmap_def FromBytes_def)
  have "AllValid (FromBytes 3 [0xFF])"
    by (simp add: AllValid_def FromBytes_def LastByteMask_def)
  then show ?thesis using AllValid_iff [OF wf] by (simp add: FromBytes_def)
qed

end
