(* ===== verification/Dictionary.thy ===== *)
theory Dictionary
  imports CoreDB_Prelude
begin

text \<open>
  The string dictionary of \<^verbatim>\<open>include/coredb/storage/dictionary.h\<close>: values in first-seen order and the
  hash map from a value to its 32-bit code. The two members are kept consistent by every operation
  as long as fewer than \<open>2 ^ 32\<close> values are interned; the locale \<open>interner\<close> is what string columns
  rely on.
\<close>

section \<open>The code\<close>

record Dictionary =
  dict_values :: "cstring list"
  dict_code_of :: "cstring \<Rightarrow> u32 option"

definition empty_dict :: Dictionary where
  "empty_dict = \<lparr>dict_values = [], dict_code_of = Map.empty\<rparr>"

definition InternOrGet :: "Dictionary \<Rightarrow> cstring \<Rightarrow> u32 \<times> Dictionary" where
  "InternOrGet d s =
     (case dict_code_of d s of
        Some code \<Rightarrow> (code, d)
      | None \<Rightarrow>
          let code = of_nat (length (dict_values d))
          in (code, \<lparr>dict_values = dict_values d @ [s], dict_code_of = (dict_code_of d)(s \<mapsto> code)\<rparr>))"

definition TryGetCode :: "Dictionary \<Rightarrow> cstring \<Rightarrow> u32 option" where
  "TryGetCode d s = dict_code_of d s"

definition ValueOf :: "Dictionary \<Rightarrow> u32 \<Rightarrow> cstring res" where
  "ValueOf d code = vec_at (dict_values d) (unat code)"

text \<open>\<^verbatim>\<open>emplace\<close> keeps the entry that is already there.\<close>

definition emplace :: "('k \<Rightarrow> 'v option) \<Rightarrow> 'k \<Rightarrow> 'v \<Rightarrow> ('k \<Rightarrow> 'v option)" where
  "emplace m k v = (case m k of None \<Rightarrow> m(k \<mapsto> v) | Some _ \<Rightarrow> m)"

text \<open>The counter of the loop of \<open>FromValues\<close> is 32 bits wide and wraps, the size it is compared with is not.\<close>

partial_function (option) emplace_loop :: "cstring list \<Rightarrow> u32 \<Rightarrow> (cstring \<Rightarrow> u32 option) \<Rightarrow> (cstring \<Rightarrow> u32 option) option" where
  "emplace_loop vs code m =
     (if unat code < length vs then emplace_loop vs (code + 1) (emplace m (vs ! unat code) code) else Some m)"

definition FromValues :: "cstring list \<Rightarrow> Dictionary res" where
  "FromValues vs =
     (case emplace_loop vs 0 Map.empty of
        None \<Rightarrow> Inl NonTermination
      | Some m \<Rightarrow> Inr \<lparr>dict_values = vs, dict_code_of = m\<rparr>)"

section \<open>The contract of an interner\<close>

text \<open>Interning the strings of a column one after the other, as the segment builder does.\<close>

fun intern_all :: "('d \<Rightarrow> 's \<Rightarrow> 'c \<times> 'd) \<Rightarrow> 's list \<Rightarrow> 'd \<Rightarrow> 'c list \<times> 'd" where
  "intern_all f [] d = ([], d)"
| "intern_all f (s # ss) d =
     (let (c, d1) = f d s; (cs, d2) = intern_all f ss d1 in (c # cs, d2))"

locale interner =
  fixes intern :: "'d \<Rightarrow> 's \<Rightarrow> 'c \<times> 'd"
    and lookup :: "'d \<Rightarrow> 'c \<Rightarrow> 's res"
    and size :: "'d \<Rightarrow> nat"
    and cap :: nat
    and inv :: "'d \<Rightarrow> bool"
  assumes intern_inv: "inv d \<Longrightarrow> size d < cap \<Longrightarrow> intern d s = (c, d') \<Longrightarrow> inv d'"
    and intern_lookup: "inv d \<Longrightarrow> size d < cap \<Longrightarrow> intern d s = (c, d') \<Longrightarrow> lookup d' c = Inr s"
    and intern_keeps: "inv d \<Longrightarrow> size d < cap \<Longrightarrow> intern d s = (c, d') \<Longrightarrow>
      lookup d c0 = Inr s0 \<Longrightarrow> lookup d' c0 = Inr s0"
    and intern_size: "inv d \<Longrightarrow> intern d s = (c, d') \<Longrightarrow> size d' \<le> Suc (size d)"
begin

text \<open>Interning a sequence: the codes handed out decode, in the final state, to the sequence.\<close>

lemma intern_all_keeps:
  "inv d \<Longrightarrow> size d + length ss \<le> cap \<Longrightarrow> intern_all intern ss d = (cs, d') \<Longrightarrow>
   lookup d c0 = Inr s0 \<Longrightarrow> inv d' \<and> lookup d' c0 = Inr s0"
proof (induction ss arbitrary: d cs)
  case (Cons s ss)
  obtain c d1 where i: "intern d s = (c, d1)" by fastforce
  with Cons.prems obtain cs' where "intern_all intern ss d1 = (cs', d')"
    by (auto simp: Let_def split: prod.splits)
  moreover have "inv d1" "size d1 + length ss \<le> cap" "lookup d1 c0 = Inr s0"
    using Cons.prems i intern_inv [of d s c d1] intern_size [of d s c d1] intern_keeps [of d s c d1 c0 s0]
    by auto
  ultimately show ?case by (intro Cons.IH)
qed auto

lemma intern_all_lookup:
  "inv d \<Longrightarrow> size d + length ss \<le> cap \<Longrightarrow> intern_all intern ss d = (cs, d') \<Longrightarrow>
   inv d' \<and> list_all2 (\<lambda>c s. lookup d' c = Inr s) cs ss"
proof (induction ss arbitrary: d cs)
  case (Cons s ss)
  obtain c d1 where i: "intern d s = (c, d1)" by fastforce
  with Cons.prems obtain cs' where r: "intern_all intern ss d1 = (cs', d')" "cs = c # cs'"
    by (auto simp: Let_def split: prod.splits)
  have d1: "inv d1" "size d1 + length ss \<le> cap" "lookup d1 c = Inr s"
    using Cons.prems i intern_inv [of d s c d1] intern_size [of d s c d1] intern_lookup [of d s c d1]
    by auto
  with Cons.IH [OF d1(1,2) r(1)] intern_all_keeps [OF d1(1,2) r(1) d1(3)] r(2) show ?case by simp
qed auto

end

section \<open>The dictionary keeps the contract\<close>

definition wf_dict :: "Dictionary \<Rightarrow> bool" where
  "wf_dict d \<longleftrightarrow> distinct (dict_values d) \<and> length (dict_values d) \<le> 2 ^ 32 \<and>
     dict_code_of d = (\<lambda>s. map_option of_nat (find (\<lambda>i. dict_values d ! i = s) [0..<length (dict_values d)]))"

lemma find_Some_upt:
  "find P [0..<n] = Some i \<longleftrightarrow> i < n \<and> P i \<and> (\<forall>j<i. \<not> P j)"
  by (auto simp: find_Some_iff)

lemma find_append: "find P (xs @ ys) = (case find P xs of None \<Rightarrow> find P ys | Some x \<Rightarrow> Some x)"
  by (induction xs) auto

lemma wf_dict_code:
  assumes "wf_dict d" "dict_code_of d s = Some c"
  shows "unat c < length (dict_values d)" "dict_values d ! unat c = s"
proof -
  from assms obtain i where i: "i < length (dict_values d)" "dict_values d ! i = s" "c = of_nat i"
    by (auto simp: wf_dict_def find_Some_upt)
  moreover have "i < 2 ^ 32" using i assms(1) by (simp add: wf_dict_def)
  ultimately show "unat c < length (dict_values d)" "dict_values d ! unat c = s"
    by (simp_all add: unat_of_nat)
qed

lemma wf_empty_dict [simp]: "wf_dict empty_dict"
  by (simp add: wf_dict_def empty_dict_def fun_eq_iff)

lemma wf_dict_None: "wf_dict d \<Longrightarrow> dict_code_of d s = None \<longleftrightarrow> s \<notin> set (dict_values d)"
  by (auto simp: wf_dict_def find_None_iff in_set_conv_nth)

lemma wf_InternOrGet:
  assumes "wf_dict d" "length (dict_values d) < 2 ^ 32" "InternOrGet d s = (c, d')"
  shows "wf_dict d'"
proof (cases "dict_code_of d s")
  case None
  define n where "n = length (dict_values d)"
  from None assms have d': "d' = \<lparr>dict_values = dict_values d @ [s], dict_code_of = (dict_code_of d)(s \<mapsto> of_nat n)\<rparr>"
    by (auto simp: InternOrGet_def Let_def n_def)
  have new: "s \<notin> set (dict_values d)" using None wf_dict_None [OF assms(1)] by simp
  have "find (\<lambda>i. (dict_values d @ [s]) ! i = t) [0..<n] = find (\<lambda>i. dict_values d ! i = t) [0..<n]" for t
    by (rule find_cong) (auto simp: n_def nth_append)
  moreover have "find (\<lambda>i. dict_values d ! i = s) [0..<n] = None"
    using new by (auto simp: find_None_iff in_set_conv_nth n_def)
  moreover have "(dict_values d @ [s]) ! n = s" by (simp add: n_def)
  ultimately have "find (\<lambda>i. (dict_values d @ [s]) ! i = t) [0..<Suc n] =
      (if t = s then Some n else find (\<lambda>i. dict_values d ! i = t) [0..<n])" for t
    by (simp add: find_append split: option.split)
  then show ?thesis
    using assms(1,2) new by (auto simp: d' wf_dict_def n_def fun_eq_iff)
qed (use assms in \<open>simp add: InternOrGet_def\<close>)

interpretation dict: interner InternOrGet ValueOf "\<lambda>d. length (dict_values d)" "2 ^ 32" wf_dict
proof unfold_locales
  fix d s c d' and c0 :: u32 and s0
  assume wf: "wf_dict d" and i: "InternOrGet d s = (c, d')"
  show "length (dict_values d') \<le> Suc (length (dict_values d))"
    using i by (auto simp: InternOrGet_def Let_def split: option.splits)
  assume n: "length (dict_values d) < 2 ^ 32"
  show "wf_dict d'" using wf n i by (rule wf_InternOrGet)
  show "ValueOf d' c = Inr s"
  proof (cases "dict_code_of d s")
    case None
    with i n show ?thesis by (auto simp: InternOrGet_def Let_def ValueOf_def unat_of_nat)
  next
    case (Some c')
    with i wf_dict_code [OF wf Some] show ?thesis by (simp add: InternOrGet_def ValueOf_def)
  qed
  assume "ValueOf d c0 = Inr s0"
  with i show "ValueOf d' c0 = Inr s0"
    by (auto simp: InternOrGet_def Let_def ValueOf_def vec_at_eq_Inr nth_append split: option.splits)
qed

lemma intern_all_size: "intern_all InternOrGet ss d = (cs, d') \<Longrightarrow> length (dict_values d') \<le> length (dict_values d) + length ss"
proof (induction ss arbitrary: d cs)
  case (Cons s ss)
  obtain c d1 where i: "InternOrGet d s = (c, d1)" by fastforce
  with Cons.prems obtain cs' where "intern_all InternOrGet ss d1 = (cs', d')" by (auto simp: Let_def split: prod.splits)
  from Cons.IH [OF this] i show ?case by (auto simp: InternOrGet_def Let_def split: option.splits)
qed simp

section \<open>Rebuilding from a value list\<close>

text \<open>The dictionary with given values: a value has the code of its first occurrence.\<close>

definition dict_of :: "cstring list \<Rightarrow> Dictionary" where
  "dict_of vs = \<lparr>dict_values = vs, dict_code_of = fold (\<lambda>code m. emplace m (vs ! code) (of_nat code)) [0..<length vs] Map.empty\<rparr>"

lemma dict_of_code:
  "dict_code_of (dict_of vs) s = map_option of_nat (find (\<lambda>i. vs ! i = s) [0..<length vs])"
proof -
  have "fold (\<lambda>code m. emplace m (vs ! code) (of_nat code)) is m s =
      (case m s of Some c \<Rightarrow> Some c | None \<Rightarrow> map_option of_nat (find (\<lambda>i. vs ! i = s) is))" for "is" and m :: "cstring \<Rightarrow> u32 option"
  proof (induction "is" arbitrary: m)
    case (Cons i "is")
    show ?case by (cases "m s"; cases "m (vs ! i)") (auto simp: Cons.IH emplace_def [of m])
  qed (auto split: option.splits)
  from this [of "[0..<length vs]" Map.empty] show ?thesis by (simp add: dict_of_def)
qed

lemma wf_dict_of: "distinct vs \<Longrightarrow> length vs \<le> 2 ^ 32 \<Longrightarrow> wf_dict (dict_of vs)"
  by (simp add: wf_dict_def dict_of_code [abs_def] fun_eq_iff) (simp add: dict_of_def)

lemma dict_of_values: "wf_dict d \<Longrightarrow> dict_of (dict_values d) = d"
  by (rule Dictionary.equality) (auto simp: dict_of_code fun_eq_iff wf_dict_def, simp add: dict_of_def)

text \<open>The loop returns exactly when its counter can reach the number of values.\<close>

lemma emplace_loop_returns:
  assumes "length vs < 2 ^ 32" "k \<le> length vs"
  shows "emplace_loop vs (of_nat k) m = Some (fold (\<lambda>code m. emplace m (vs ! code) (of_nat code)) [k..<length vs] m)"
  using assms(2)
proof (induction "length vs - k" arbitrary: k m)
  case 0
  then have "unat (of_nat k :: u32) = length vs" using assms(1) by (simp add: unat_of_nat)
  with 0 show ?case by (subst emplace_loop.simps) simp
next
  case (Suc n)
  then have k: "k < length vs" by simp
  then have u: "unat (of_nat k :: u32) = k" using assms(1) by (simp add: unat_of_nat)
  have "emplace_loop vs (of_nat k) m = emplace_loop vs (of_nat (Suc k)) (emplace m (vs ! k) (of_nat k))"
    by (subst emplace_loop.simps) (simp add: u k add.commute)
  also have "\<dots> = Some (fold (\<lambda>code m. emplace m (vs ! code) (of_nat code)) [Suc k..<length vs] (emplace m (vs ! k) (of_nat k)))"
    using Suc by (intro Suc.hyps(1)) simp_all
  finally show ?case by (simp add: upt_conv_Cons k)
qed

lemma emplace_loop_diverges: "emplace_loop vs code m = Some r \<Longrightarrow> length vs < 2 ^ 32"
proof (erule emplace_loop.raw_induct [rotated])
  fix f :: "cstring list \<Rightarrow> u32 \<Rightarrow> (cstring \<Rightarrow> u32 option) \<Rightarrow> (cstring \<Rightarrow> u32 option) option" and vs :: "cstring list" and code m r
  assume IH: "\<And>vs code m r. f vs code m = Some r \<Longrightarrow> length vs < 2 ^ 32"
    and body: "(if unat code < length vs then f vs (code + 1) (emplace m (vs ! unat code) code) else Some m) = Some r"
  show "length vs < 2 ^ 32"
  proof (cases "unat code < length vs")
    case True
    with body IH show ?thesis by simp
  next
    case False
    moreover have "unat code < 2 ^ 32" using unsigned_less [of code] by simp
    ultimately show ?thesis by simp
  qed
qed

lemma FromValues_eq: "FromValues vs = (if length vs < 2 ^ 32 then Inr (dict_of vs) else Inl NonTermination)"
  using emplace_loop_returns [of vs 0 Map.empty] emplace_loop_diverges [of vs 0 Map.empty]
  by (cases "emplace_loop vs 0 Map.empty") (auto simp: FromValues_def dict_of_def)

text \<open>
  C21: interning any sequence of fewer than \<open>2 ^ 32\<close> strings into an empty dictionary hands out codes
  that decode, in the resulting dictionary, to exactly that sequence, and rebuilding a dictionary from
  its value list, as a segment load does, returns and gives the same dictionary. From \<open>2 ^ 32\<close> values on the
  loop that rebuilds it does not terminate, because its 32-bit counter wraps.
\<close>

theorem Dictionary_round_trip:
  assumes "length ss < 2 ^ 32" and "intern_all InternOrGet ss empty_dict = (codes, d)"
  shows "map_res (ValueOf d) codes = Inr ss \<and> FromValues (dict_values d) = Inr d \<and>
    (\<forall>vs. FromValues vs = Inl NonTermination \<longleftrightarrow> 2 ^ 32 \<le> length vs)"
proof -
  have n: "length (dict_values empty_dict) + length ss \<le> 2 ^ 32" using assms(1) by (simp add: empty_dict_def)
  have "wf_dict d \<and> list_all2 (\<lambda>c s. ValueOf d c = Inr s) codes ss"
    using dict.intern_all_lookup [OF wf_empty_dict n assms(2)] .
  moreover have "length (dict_values d) \<le> length (dict_values empty_dict) + length ss"
    using intern_all_size [OF assms(2)] .
  ultimately show ?thesis using assms(1) by (auto simp: map_res_eq_Inr FromValues_eq dict_of_values empty_dict_def)
qed

theorem Dictionary_round_trip_witness:
  "\<exists>codes d. intern_all InternOrGet [[1], [2], [1]] empty_dict = (codes, d) \<and>
     map_res (ValueOf d) codes = Inr [[1], [2], [1]] \<and> FromValues (dict_values d) = Inr d \<and>
     FromValues (replicate (2 ^ 32) []) = Inl NonTermination"
proof -
  obtain codes d where "intern_all InternOrGet [[1], [2], [1]] empty_dict = (codes, d)" by fastforce
  with Dictionary_round_trip [OF _ this] show ?thesis by auto
qed

end
