(* ===== verification/Crc32c.thy ===== *)
theory Crc32c
  imports CoreDB_Prelude
begin

text \<open>
  CRC-32C of \<^verbatim>\<open>src/util/crc32c.cpp\<close>: the 256-entry table, the incremental checksum, and what the
  storage and log layers rely on: extending over a concatenation is extending twice, the table
  computes the bit-serial remainder, and two inputs that differ in one window of at most four
  bytes never have the same checksum. The contract is the locale \<open>checksum\<close>.
\<close>

section \<open>The code\<close>

definition kPoly :: u32 where
  "kPoly = 0x82F63B78"

text \<open>One round of the inner loop of \<^verbatim>\<open>BuildTable\<close>.\<close>

definition crc_bit :: "u32 \<Rightarrow> u32" where
  "crc_bit crc = (if crc AND 1 \<noteq> 0 then drop_bit 1 crc XOR kPoly else drop_bit 1 crc)"

definition BuildTable :: "u32 list" where
  "BuildTable = map (\<lambda>i. (crc_bit ^^ 8) (of_nat i)) [0..<256]"

definition crc_update :: "u32 \<Rightarrow> byte \<Rightarrow> u32" where
  "crc_update crc b = BuildTable ! unat ((crc XOR ucast b) AND 0xFF) XOR drop_bit 8 crc"

definition Crc32cExtend :: "u32 \<Rightarrow> byte list \<Rightarrow> u32" where
  "Crc32cExtend partial_crc data = NOT (foldl crc_update (NOT partial_crc) data)"

definition Crc32c :: "byte list \<Rightarrow> u32" where
  "Crc32c data = Crc32cExtend 0 data"

section \<open>The contract of a checksum\<close>

text \<open>
  What the log and the segment files use: the checksum of a concatenation can be computed piece by
  piece, and a damaged window of at most \<open>w\<close> bytes changes it.
\<close>

locale checksum =
  fixes extend :: "u32 \<Rightarrow> byte list \<Rightarrow> u32"
    and w :: nat
  assumes extend_Nil: "extend c [] = c"
    and extend_append: "extend c (xs @ ys) = extend (extend c xs) ys"
    and extend_inj: "extend c xs = extend d xs \<Longrightarrow> c = d"
    and extend_window: "length xs = length ys \<Longrightarrow> length xs \<le> w \<Longrightarrow>
      extend c xs = extend c ys \<Longrightarrow> xs = ys"
begin

lemma extend_concat: "extend c (concat xss) = foldl extend c xss"
  by (induction xss arbitrary: c) (simp_all add: extend_Nil extend_append)

lemma damage_detected:
  assumes "length xs = length ys" "length xs \<le> w" "xs \<noteq> ys"
  shows "extend c (pre @ xs @ suf) \<noteq> extend c (pre @ ys @ suf)"
  using assms extend_inj extend_window by (fastforce simp: extend_append)

lemma byte_damage_detected:
  assumes "0 < w" "i < length bs" "b \<noteq> bs ! i"
  shows "extend c (bs[i := b]) \<noteq> extend c bs"
proof -
  have "extend c (take i bs @ [b] @ drop (Suc i) bs) \<noteq>
        extend c (take i bs @ [bs ! i] @ drop (Suc i) bs)"
    using assms by (intro damage_detected) auto
  moreover have "take i bs @ [b] @ drop (Suc i) bs = bs[i := b]"
    using assms(2) by (simp add: upd_conv_take_nth_drop)
  moreover have "take i bs @ [bs ! i] @ drop (Suc i) bs = bs"
    using assms(2) by (simp add: id_take_nth_drop [symmetric])
  ultimately show ?thesis by metis
qed

end

section \<open>The bit-serial remainder\<close>

lemma crc_bit_alt: "crc_bit a = drop_bit 1 a XOR (if bit a 0 then kPoly else 0)"
  by (simp add: crc_bit_def and_one_eq mod_2_eq_odd bit_0)

lemma crc_bit_xor: "crc_bit (a XOR b) = crc_bit a XOR crc_bit b"
  by (rule bit_word_eqI) (auto simp: crc_bit_alt even_xor_iff bit_0 bit_simps)

lemma crc_bits_xor: "(crc_bit ^^ n) (a XOR b) = (crc_bit ^^ n) a XOR (crc_bit ^^ n) b"
  by (induction n) (simp_all add: crc_bit_xor)

lemma crc_bits_low_zero:
  "(\<And>k. k < n \<Longrightarrow> \<not> bit x k) \<Longrightarrow> (crc_bit ^^ n) x = drop_bit n x"
proof (induction n)
  case (Suc n)
  then have "(crc_bit ^^ n) x = drop_bit n x" and "\<not> bit x n" by auto
  then show ?case by (simp add: crc_bit_alt [of "drop_bit n x"] bit_simps)
qed simp

lemma crc_bits_push: "(crc_bit ^^ 8) (push_bit 8 x) = take_bit 24 x"
proof -
  have "(crc_bit ^^ 8) (push_bit 8 x) = drop_bit 8 (push_bit 8 x)"
    by (rule crc_bits_low_zero) (simp add: bit_simps)
  also have "\<dots> = take_bit 24 x"
    by (rule bit_word_eqI) (auto simp: bit_simps)
  finally show ?thesis .
qed

lemma crc_table_nth: "i < 256 \<Longrightarrow> BuildTable ! i = (crc_bit ^^ 8) (of_nat i)"
  by (simp add: BuildTable_def)

lemma crc_update_bits: "crc_update c b = (crc_bit ^^ 8) (c XOR ucast b)"
proof -
  define x where "x = c XOR (ucast b :: u32)"
  have FF: "(0xFF :: u32) = mask 8" by (simp add: mask_eq_exp_minus_1)
  have lo: "unat (take_bit 8 x) < 256"
    using take_bit_nat_less_exp [of 8 "unat x"] by (simp add: unsigned_take_bit_eq)
  have "x = take_bit 8 x XOR push_bit 8 (drop_bit 8 x)"
    by (rule bit_word_eqI) (auto simp: bit_simps)
  then have "(crc_bit ^^ 8) x = (crc_bit ^^ 8) (take_bit 8 x) XOR (crc_bit ^^ 8) (push_bit 8 (drop_bit 8 x))"
    by (metis crc_bits_xor)
  also have "(crc_bit ^^ 8) (take_bit 8 x) = BuildTable ! unat (take_bit 8 x)"
    using lo by (simp add: crc_table_nth)
  also have "(crc_bit ^^ 8) (push_bit 8 (drop_bit 8 x)) = drop_bit 8 c"
    unfolding crc_bits_push x_def by (rule bit_word_eqI) (auto simp: bit_simps dest: bit_imp_le_length)
  finally show ?thesis
    by (simp add: crc_update_def x_def FF take_bit_eq_mask del: funpow.simps)
qed

lemma crc_bit_0: "crc_bit 0 = 0"
  by (simp add: crc_bit_def)

lemma crc_bit_eq_0: "crc_bit x = 0 \<Longrightarrow> x = 0"
proof -
  assume 0: "crc_bit x = 0"
  have "\<not> bit x 0"
  proof
    assume "bit x 0"
    with 0 have "drop_bit 1 x = kPoly" by (simp add: crc_bit_alt word_xor_eq_zero_iff)
    then have "bit (drop_bit 1 x) 31 = bit kPoly 31" by simp
    then show False by (auto simp: bit_simps kPoly_def dest: bit_imp_le_length)
  qed
  with 0 have d: "drop_bit 1 x = 0" by (simp add: crc_bit_alt)
  show "x = 0"
  proof (rule bit_word_eqI)
    fix n
    have "bit (drop_bit 1 x) (n - 1) = bit (0::u32) (n - 1)" by (simp only: d)
    with \<open>\<not> bit x 0\<close> show "bit x n = bit 0 n" by (cases n) (auto simp: bit_simps)
  qed
qed

lemma crc_bits_inj: "(crc_bit ^^ n) x = (crc_bit ^^ n) y \<Longrightarrow> x = y"
proof -
  have z: "(crc_bit ^^ n) z = 0 \<Longrightarrow> z = 0" for z n
    by (induction n arbitrary: z) (auto dest: crc_bit_eq_0)
  assume "(crc_bit ^^ n) x = (crc_bit ^^ n) y"
  then have "(crc_bit ^^ n) (x XOR y) = 0" by (simp add: crc_bits_xor)
  then have "x XOR y = 0" by (rule z)
  then show "x = y" by (simp add: word_xor_eq_zero_iff)
qed

text \<open>
  Folding at most four bytes into the register is one shift of the register combined with the
  little-endian word those bytes form: the reason a window of 32 bits is always detected.
\<close>

lemma crc_window:
  "length bs \<le> 4 \<Longrightarrow> foldl crc_update c bs = (crc_bit ^^ (8 * length bs)) (c XOR of_le_bytes bs)"
proof (induction bs arbitrary: c)
  case Nil
  then show ?case by simp
next
  case (Cons b bs)
  define y where "y = (of_le_bytes bs :: u32)"
  have short: "take_bit 24 y = y"
    using Cons.prems by (intro bit_word_eqI) (auto simp: y_def bit_simps bit_of_le_bytes)
  have e: "of_le_bytes (b # bs) = ucast b XOR push_bit 8 y"
    by (rule bit_word_eqI) (auto simp: y_def bit_simps dest: bit_imp_le_length)
  have "foldl crc_update c (b # bs) = (crc_bit ^^ (8 * length bs)) (crc_update c b XOR y)"
    using Cons by (simp add: y_def)
  also have "crc_update c b XOR y = (crc_bit ^^ 8) ((c XOR ucast b) XOR push_bit 8 y)"
    by (simp only: crc_bits_xor crc_update_bits crc_bits_push short)
  also have "(crc_bit ^^ (8 * length bs)) \<dots> = (crc_bit ^^ (8 * length (b # bs))) (c XOR of_le_bytes (b # bs))"
    unfolding e by (simp only: funpow_add [THEN fun_cong, unfolded o_apply, symmetric] xor.assoc) (simp add: add.commute)
  finally show ?case .
qed

lemma of_le_bytes_inj_u32:
  assumes "length xs = length ys" "length xs \<le> 4" "(of_le_bytes xs :: u32) = of_le_bytes ys"
  shows "xs = ys"
proof (rule nth_equalityI [OF assms(1)])
  fix i assume i: "i < length xs"
  show "xs ! i = ys ! i"
  proof (rule bit_word_eqI)
    fix k assume k: "k < LENGTH(8)"
    then have "8 * i + k < 32" using i assms(2) by simp
    with i k assms(1) have "bit (of_le_bytes xs :: u32) (8 * i + k) = bit (xs ! i) k"
      and "bit (of_le_bytes ys :: u32) (8 * i + k) = bit (ys ! i) k"
      by (simp_all add: bit_of_le_bytes)
    with assms(3) show "bit (xs ! i) k = bit (ys ! i) k" by simp
  qed
qed

lemma crc_fold_inj: "foldl crc_update c bs = foldl crc_update d bs \<Longrightarrow> c = d"
proof (induction bs arbitrary: c d)
  case (Cons b bs)
  then have "crc_update c b = crc_update d b" by simp
  then have "c XOR ucast b = d XOR (ucast b :: u32)"
    unfolding crc_update_bits by (rule crc_bits_inj)
  then show ?case by (simp add: word_xor_cancel_right)
qed simp

interpretation crc32c: checksum Crc32cExtend 4
proof unfold_locales
  fix c d :: u32 and xs ys :: "byte list"
  show "Crc32cExtend c [] = c" by (simp add: Crc32cExtend_def)
  show "Crc32cExtend c (xs @ ys) = Crc32cExtend (Crc32cExtend c xs) ys"
    by (simp add: Crc32cExtend_def)
  show "c = d" if "Crc32cExtend c xs = Crc32cExtend d xs"
    using that crc_fold_inj by (fastforce simp: Crc32cExtend_def)
  show "xs = ys" if "length xs = length ys" "length xs \<le> 4" "Crc32cExtend c xs = Crc32cExtend c ys"
  proof -
    have "(crc_bit ^^ (8 * length xs)) (NOT c XOR of_le_bytes xs) =
          (crc_bit ^^ (8 * length xs)) (NOT c XOR of_le_bytes ys)"
      using that by (simp add: Crc32cExtend_def crc_window)
    then have "NOT c XOR of_le_bytes xs = NOT c XOR (of_le_bytes ys :: u32)"
      by (rule crc_bits_inj)
    then have "(of_le_bytes xs :: u32) = of_le_bytes ys"
      by (simp add: word_xor_cancel_left)
    with that(1,2) show ?thesis by (rule of_le_bytes_inj_u32)
  qed
qed

section \<open>Properties\<close>

text \<open>
  The bit-serial reference: the remainder register shifted one bit at a time, with no table.
\<close>

definition crc_serial :: "u32 \<Rightarrow> byte list \<Rightarrow> u32" where
  "crc_serial c data = NOT (foldl (\<lambda>crc b. (crc_bit ^^ 8) (crc XOR ucast b)) (NOT c) data)"

text \<open>
  C16: the table-driven incremental checksum computes the bit-serial CRC-32C remainder, for every
  starting value and every input.
\<close>

theorem Crc32cExtend_serial: "Crc32cExtend c data = crc_serial c data"
  by (simp add: Crc32cExtend_def crc_serial_def crc_update_bits [abs_def])

text \<open>
  Checksums compose: \<^verbatim>\<open>Crc32c\<close> of a concatenation is \<^verbatim>\<open>Crc32cExtend\<close> of the first part's
  checksum over the second, which is how a column checksum is built from bitmap, data and dictionary.
\<close>

theorem Crc32c_append: "Crc32c (xs @ ys) = Crc32cExtend (Crc32c xs) ys"
  by (simp add: Crc32c_def crc32c.extend_append)

text \<open>
  C17: damage confined to a window of at most four bytes always changes the checksum: every burst
  of up to 32 bits that starts on a byte boundary is detected, wherever it lies in the input.
\<close>

theorem Crc32c_detects_burst:
  assumes "length xs = length ys" and "length xs \<le> 4" and "xs \<noteq> ys"
  shows "Crc32c (pre @ xs @ suf) \<noteq> Crc32c (pre @ ys @ suf)"
  unfolding Crc32c_def by (rule crc32c.damage_detected [OF assms])

theorem Crc32c_detects_burst_witness:
  "Crc32c ([1] @ [2, 3] @ [4]) \<noteq> Crc32c ([1] @ [2, 7] @ [4])"
  by (rule Crc32c_detects_burst) simp_all

text \<open>
  The published check value of CRC-32C, for the nine ASCII digits \<^verbatim>\<open>123456789\<close>.
\<close>

lemma crc_bits_8:
  "(crc_bit ^^ 8) x = crc_bit (crc_bit (crc_bit (crc_bit (crc_bit (crc_bit (crc_bit (crc_bit x)))))))"
  by (simp add: numeral_eq_Suc)

lemma Crc32c_check_value:
  "Crc32c [0x31, 0x32, 0x33, 0x34, 0x35, 0x36, 0x37, 0x38, 0x39] = 0xE3069283"
  by (simp add: Crc32c_def Crc32cExtend_def crc_update_bits crc_bits_8 crc_bit_def kPoly_def)

end
