(* ===== verification/Segment.thy ===== *)
theory Segment
  imports Types Bitmap Dictionary Crc32c
begin

text \<open>
  Immutable columnar segments: \<^verbatim>\<open>include/coredb/storage/segment.h\<close> and the in-memory half of
  \<^verbatim>\<open>src/storage/segment.cpp\<close> (\<^verbatim>\<open>Build\<close>, \<^verbatim>\<open>ValueAt\<close>, \<^verbatim>\<open>CanSkip\<close>, \<^verbatim>\<open>VerifyIntegrity\<close> and the column checksum).
  A segment built from well-typed rows gives every cell back, passes its integrity check, and is
  pruned only when no row can match.
\<close>

section \<open>The code\<close>

record Column =
  col_type :: ColumnType
  col_validity :: Bitmap
  col_min :: Value
  col_max :: Value
  col_checksum :: u32
  col_int32 :: "i32 list"
  col_int64 :: "i64 list"
  col_double :: "fp64 list"
  col_codes :: "u32 list"
  col_dict :: Dictionary

definition default_Column :: Column where
  "default_Column =
     \<lparr>col_type = kInt32, col_validity = \<lparr>bm_num_rows = 0, bm_bytes = []\<rparr>, col_min = Monostate,
      col_max = Monostate, col_checksum = 0, col_int32 = [], col_int64 = [], col_double = [],
      col_codes = [], col_dict = empty_dict\<rparr>"

definition col_num_rows :: "Column \<Rightarrow> nat" where
  "col_num_rows col = bm_num_rows (col_validity col)"

record Segment =
  seg_id :: u64
  seg_num_rows :: nat
  seg_schema :: Schema
  seg_columns :: "Column list"

definition seg_column :: "Segment \<Rightarrow> nat \<Rightarrow> Column res" where
  "seg_column seg i = vec_at (seg_columns seg) i"

definition ElementWidth :: "ColumnType \<Rightarrow> nat" where
  "ElementWidth t =
     (case t of kInt32 \<Rightarrow> 4 | kInt64 \<Rightarrow> 8 | kDouble \<Rightarrow> 8 | kString \<Rightarrow> 4 | kUnknown _ \<Rightarrow> 0)"

text \<open>The bytes the data pointer of a column designates.\<close>

definition DataPointer :: "Column \<Rightarrow> byte list" where
  "DataPointer col =
     (case col_type col of
        kInt32 \<Rightarrow> concat (map le_bytes (col_int32 col))
      | kInt64 \<Rightarrow> concat (map le_bytes (col_int64 col))
      | kDouble \<Rightarrow> concat (map le_bytes (col_double col))
      | kString \<Rightarrow> concat (map le_bytes (col_codes col))
      | kUnknown _ \<Rightarrow> [])"

text \<open>Reading a block through a raw pointer: undefined beyond the array it points to.\<close>

definition read_block :: "byte list \<Rightarrow> nat \<Rightarrow> byte list res" where
  "read_block p n = (if n \<le> length p then Inr (take n p) else Inl UndefinedBehaviour)"

definition ComputeColumnChecksum :: "Column \<Rightarrow> u32 res" where
  "ComputeColumnChecksum col =
     (let crc = Crc32cExtend 0 (bm_bytes (col_validity col)) in
      bind_res (read_block (DataPointer col) (col_num_rows col * ElementWidth (col_type col))) (\<lambda>data.
        let crc = Crc32cExtend crc data in
        Inr (if col_type col = kString then foldl Crc32cExtend crc (dict_values (col_dict col)) else crc)))"

definition ValueAt :: "Column \<Rightarrow> nat \<Rightarrow> Value res" where
  "ValueAt col row =
     bind_res (IsValid (col_validity col) row) (\<lambda>valid.
       if \<not> valid then Inr Monostate
       else case col_type col of
          kInt32 \<Rightarrow> bind_res (vec_idx (col_int32 col) row) (\<lambda>x. Inr (VInt32 x))
        | kInt64 \<Rightarrow> bind_res (vec_idx (col_int64 col) row) (\<lambda>x. Inr (VInt64 x))
        | kDouble \<Rightarrow> bind_res (vec_idx (col_double col) row) (\<lambda>x. Inr (VDouble x))
        | kString \<Rightarrow> bind_res (vec_idx (col_codes col) row) (\<lambda>c.
            bind_res (ValueOf (col_dict col) c) (\<lambda>s. Inr (VString s)))
        | kUnknown _ \<Rightarrow> Inr Monostate)"

text \<open>
  \<^verbatim>\<open>VerifyIntegrity\<close>: the first column whose recomputed checksum differs, with the recorded and the
  recomputed value (the numbers of the error message), or nothing when all agree.
\<close>

fun verify_columns :: "nat \<Rightarrow> Column list \<Rightarrow> (nat \<times> u32 \<times> u32) option res" where
  "verify_columns c [] = Inr None"
| "verify_columns c (col # cols) =
     bind_res (ComputeColumnChecksum col) (\<lambda>recomputed.
       if recomputed \<noteq> col_checksum col then Inr (Some (c, col_checksum col, recomputed))
       else verify_columns (Suc c) cols)"

definition VerifyIntegrity :: "Segment \<Rightarrow> (nat \<times> u32 \<times> u32) option res" where
  "VerifyIntegrity seg = verify_columns 0 (seg_columns seg)"

definition CanSkip :: "Segment \<Rightarrow> nat \<Rightarrow> PredicateOp \<Rightarrow> Value \<Rightarrow> bool res" where
  "CanSkip seg col_idx op literal =
     bind_res (seg_column seg col_idx) (\<lambda>col.
       if col_min col = Monostate \<or> col_max col = Monostate then Inr False
       else
         bind_res (CompareValues literal (col_min col)) (\<lambda>cmp_min.
         bind_res (CompareValues literal (col_max col)) (\<lambda>cmp_max.
           case op of
             kEq \<Rightarrow> Inr (cmp_min < 0 \<or> cmp_max > 0)
           | kGt \<Rightarrow> Inr (cmp_max \<ge> 0)
           | kGe \<Rightarrow> Inr (cmp_max > 0)
           | kLt \<Rightarrow> Inr (cmp_min \<le> 0)
           | kLe \<Rightarrow> Inr (cmp_min < 0)
           | kNe \<Rightarrow> Inr False)))"

text \<open>The typed arrays of a fresh column: value-initialised, one element per row.\<close>

definition resize_data :: "ColumnType \<Rightarrow> nat \<Rightarrow> Column \<Rightarrow> Column" where
  "resize_data t n col =
     (case t of
        kInt32 \<Rightarrow> col\<lparr>col_int32 := replicate n 0\<rparr>
      | kInt64 \<Rightarrow> col\<lparr>col_int64 := replicate n 0\<rparr>
      | kDouble \<Rightarrow> col\<lparr>col_double := replicate n 0\<rparr>
      | kString \<Rightarrow> col\<lparr>col_codes := replicate n 0\<rparr>
      | kUnknown _ \<Rightarrow> col)"

text \<open>The inner switch of \<^verbatim>\<open>Build\<close>: store one non-null cell and return the stored value.\<close>

definition store_cell :: "nat \<Rightarrow> Value \<Rightarrow> Column \<Rightarrow> (Value \<times> Column) res" where
  "store_cell r v col =
     (case col_type col of
        kInt32 \<Rightarrow> (case v of VInt32 x \<Rightarrow> Inr (VInt32 x, col\<lparr>col_int32 := (col_int32 col)[r := x]\<rparr>)
                   | _ \<Rightarrow> Inl BadVariantAccess)
      | kInt64 \<Rightarrow> (case v of VInt64 x \<Rightarrow> Inr (VInt64 x, col\<lparr>col_int64 := (col_int64 col)[r := x]\<rparr>)
                   | _ \<Rightarrow> Inl BadVariantAccess)
      | kDouble \<Rightarrow> (case v of VDouble x \<Rightarrow> Inr (VDouble x, col\<lparr>col_double := (col_double col)[r := x]\<rparr>)
                   | _ \<Rightarrow> Inl BadVariantAccess)
      | kString \<Rightarrow> (case v of
            VString s \<Rightarrow>
              (let (code, d) = InternOrGet (col_dict col) s
               in Inr (VString s, col\<lparr>col_codes := (col_codes col)[r := code], col_dict := d\<rparr>))
          | _ \<Rightarrow> Inl BadVariantAccess)
      | kUnknown _ \<Rightarrow> Inr (Monostate, col))"

definition update_bounds :: "Value \<Rightarrow> Column \<times> bool \<Rightarrow> (Column \<times> bool) res" where
  "update_bounds v s =
     (let (col, have_bounds) = s in
      if \<not> have_bounds then Inr (col\<lparr>col_min := v, col_max := v\<rparr>, True)
      else
        bind_res (CompareValues v (col_min col)) (\<lambda>c.
          let col = (if c < 0 then col\<lparr>col_min := v\<rparr> else col) in
          bind_res (CompareValues v (col_max col)) (\<lambda>c.
            Inr (if c > 0 then col\<lparr>col_max := v\<rparr> else col, True))))"

definition build_cell :: "nat \<Rightarrow> Row list \<Rightarrow> nat \<Rightarrow> Column \<times> bool \<Rightarrow> (Column \<times> bool) res" where
  "build_cell c rows r s =
     (let (col, have_bounds) = s in
      bind_res (vec_at (rows ! r) c) (\<lambda>v.
        if v = Monostate then
          bind_res (SetValid (col_validity col) r False) (\<lambda>bm. Inr (col\<lparr>col_validity := bm\<rparr>, have_bounds))
        else
          bind_res (store_cell r v col) (\<lambda>(stored, col). update_bounds stored (col, have_bounds))))"

definition build_column :: "ColumnSchema \<Rightarrow> nat \<Rightarrow> Row list \<Rightarrow> Column res" where
  "build_column cs c rows =
     (let col = default_Column\<lparr>col_type := cs_type cs, col_validity := MakeBitmap (length rows) True\<rparr>;
          col = resize_data (cs_type cs) (length rows) col
      in bind_res (fold_res (build_cell c rows) [0..<length rows] (col, False)) (\<lambda>(col, _).
         bind_res (ComputeColumnChecksum col) (\<lambda>crc. Inr (col\<lparr>col_checksum := crc\<rparr>))))"

definition Build :: "u64 \<Rightarrow> Schema \<Rightarrow> Row list \<Rightarrow> Segment res" where
  "Build segment_id schema rows =
     bind_res (map_res (\<lambda>c. build_column (schema ! c) c rows) [0..<length schema]) (\<lambda>cols.
       Inr \<lparr>seg_id = segment_id, seg_num_rows = length rows, seg_schema = schema, seg_columns = cols\<rparr>)"

section \<open>Typing of rows\<close>

definition value_has_type :: "ColumnType \<Rightarrow> Value \<Rightarrow> bool" where
  "value_has_type t v =
     (case v of Monostate \<Rightarrow> True | VInt32 _ \<Rightarrow> t = kInt32 | VInt64 _ \<Rightarrow> t = kInt64
      | VDouble _ \<Rightarrow> t = kDouble | VString _ \<Rightarrow> t = kString)"

definition row_has_schema :: "Schema \<Rightarrow> Row \<Rightarrow> bool" where
  "row_has_schema schema row \<longleftrightarrow> list_all2 (\<lambda>cs v. value_has_type (cs_type cs) v) schema row"

definition known_type :: "ColumnType \<Rightarrow> bool" where
  "known_type t \<longleftrightarrow> (case t of kUnknown _ \<Rightarrow> False | _ \<Rightarrow> True)"

section \<open>The build loop\<close>

definition shape_ok :: "nat \<Rightarrow> Column \<Rightarrow> bool" where
  "shape_ok n col \<longleftrightarrow>
     length (col_int32 col) = (if col_type col = kInt32 then n else 0) \<and>
     length (col_int64 col) = (if col_type col = kInt64 then n else 0) \<and>
     length (col_double col) = (if col_type col = kDouble then n else 0) \<and>
     length (col_codes col) = (if col_type col = kString then n else 0) \<and>
     (col_type col \<noteq> kString \<longrightarrow> col_dict col = empty_dict) \<and> wf_dict (col_dict col) \<and>
     wf_bitmap (col_validity col) \<and> col_num_rows col = n \<and> known_type (col_type col)"

definition cell_stored :: "Column \<Rightarrow> nat \<Rightarrow> Value \<Rightarrow> bool" where
  "cell_stored col r v =
     (case v of
        Monostate \<Rightarrow> False
      | VInt32 x \<Rightarrow> col_type col = kInt32 \<and> r < length (col_int32 col) \<and> col_int32 col ! r = x
      | VInt64 x \<Rightarrow> col_type col = kInt64 \<and> r < length (col_int64 col) \<and> col_int64 col ! r = x
      | VDouble x \<Rightarrow> col_type col = kDouble \<and> r < length (col_double col) \<and> col_double col ! r = x
      | VString s \<Rightarrow> col_type col = kString \<and> r < length (col_codes col) \<and>
          ValueOf (col_dict col) (col_codes col ! r) = Inr s)"

lemma ValueAt_stored:
  assumes "wf_bitmap (col_validity col)" "r < col_num_rows col"
  shows "\<not> bitmap_bits (col_validity col) ! r \<Longrightarrow> ValueAt col r = Inr Monostate"
    and "bitmap_bits (col_validity col) ! r \<Longrightarrow> cell_stored col r v \<Longrightarrow> ValueAt col r = Inr v"
  using assms
  by (auto simp: ValueAt_def col_num_rows_def IsValid_in cell_stored_def split: Value.splits)

lemma store_cell_int:
  assumes "shape_ok n col" "r < n" "value_has_type (col_type col) v" "v \<noteq> Monostate" "\<not> is_string v"
  shows "\<exists>col'. store_cell r v col = Inr (v, col') \<and> cell_stored col' r v \<and> shape_ok n col' \<and>
     (\<forall>r' v'. r' \<noteq> r \<longrightarrow> cell_stored col r' v' \<longrightarrow> cell_stored col' r' v') \<and>
     col_type col' = col_type col \<and> col_validity col' = col_validity col \<and>
     col_min col' = col_min col \<and> col_max col' = col_max col \<and> col_dict col' = col_dict col"
  using assms
  by (cases v) (auto simp: value_has_type_def store_cell_def shape_ok_def cell_stored_def is_string_def
      col_num_rows_def split: Value.splits)

lemma store_cell_string:
  assumes "shape_ok n col" "r < n" "col_type col = kString" "length (dict_values (col_dict col)) < 2 ^ 32"
  shows "\<exists>col'. store_cell r (VString s) col = Inr (VString s, col') \<and> cell_stored col' r (VString s) \<and>
     shape_ok n col' \<and>
     (\<forall>r' v'. r' \<noteq> r \<longrightarrow> cell_stored col r' v' \<longrightarrow> cell_stored col' r' v') \<and>
     col_type col' = col_type col \<and> col_validity col' = col_validity col \<and>
     col_min col' = col_min col \<and> col_max col' = col_max col \<and>
     length (dict_values (col_dict col')) \<le> Suc (length (dict_values (col_dict col)))"
proof -
  obtain c d where i: "InternOrGet (col_dict col) s = (c, d)" by fastforce
  have wf: "wf_dict (col_dict col)" using assms(1) by (simp add: shape_ok_def)
  note facts = dict.intern_inv [OF wf assms(4) i] dict.intern_lookup [OF wf assms(4) i]
    dict.intern_size [OF wf i] dict.intern_keeps [OF wf assms(4) i]
  show ?thesis using assms i facts
    by (auto simp: store_cell_def shape_ok_def cell_stored_def col_num_rows_def split: Value.splits)
qed

text \<open>
  The statistics: \<open>nn\<close> are the non-null values seen so far. The recorded bounds are two of them, and
  they bound all of them in every total order the comparison implements on a domain that holds them.
\<close>

definition bounds_ok :: "Value list \<Rightarrow> Value \<Rightarrow> Value \<Rightarrow> bool" where
  "bounds_ok nn lo hi \<longleftrightarrow>
     (if nn = [] then lo = Monostate \<and> hi = Monostate
      else lo \<in> set nn \<and> hi \<in> set nn \<and>
        (\<forall>D le. three_way CompareValues D le \<and> set nn \<subseteq> D \<longrightarrow> (\<forall>v\<in>set nn. le lo v \<and> le v hi)))"

lemma bounds_okD:
  assumes "bounds_ok nn lo hi" "v \<in> set nn" "three_way CompareValues D le" "set nn \<subseteq> D"
  shows "lo \<in> set nn" "hi \<in> set nn" "le lo v" "le v hi"
proof -
  have nn: "nn \<noteq> []" using assms(2) by auto
  have b: "lo \<in> set nn \<and> hi \<in> set nn \<and>
     (\<forall>D le. three_way CompareValues D le \<and> set nn \<subseteq> D \<longrightarrow> (\<forall>v\<in>set nn. le lo v \<and> le v hi))"
    using assms(1) unfolding bounds_ok_def if_not_P [OF nn] .
  then show "lo \<in> set nn" "hi \<in> set nn" by blast+
  from b [THEN conjunct2, THEN conjunct2, rule_format, OF conjI [OF assms(3,4)] assms(2)]
  show "le lo v" "le v hi" by blast+
qed

lemma CompareValues_typed:
  assumes "value_has_type t v" "v \<noteq> Monostate" "value_has_type t w" "w \<noteq> Monostate"
  shows "\<exists>c. CompareValues v w = Inr c"
  using assms
  by (cases v; cases w) (auto simp: value_has_type_def CompareValues_def is_string_def get_string_def)

lemma update_bounds_ok:
  assumes "\<forall>x\<in>set (v # nn). value_has_type t x \<and> x \<noteq> Monostate"
    and "bounds_ok nn (col_min col) (col_max col)"
  shows "\<exists>lo hi. update_bounds v (col, nn \<noteq> []) = Inr (col\<lparr>col_min := lo, col_max := hi\<rparr>, True) \<and>
     bounds_ok (nn @ [v]) lo hi"
proof (cases "nn = []")
  case True
  then show ?thesis
    by (auto simp: update_bounds_def bounds_ok_def dest: three_way.le_refl)
next
  case False
  let ?lo = "col_min col" and ?hi = "col_max col"
  from assms(2) False have in_nn: "?lo \<in> set nn" "?hi \<in> set nn" by (simp_all add: bounds_ok_def)
  obtain c1 c2 where c: "CompareValues v ?lo = Inr c1" "CompareValues v ?hi = Inr c2"
    using assms(1) in_nn CompareValues_typed [of t v ?lo] CompareValues_typed [of t v ?hi] by auto
  define lo hi where "lo = (if c1 < 0 then v else ?lo)" and "hi = (if c2 > 0 then v else ?hi)"
  have upd: "update_bounds v (col, nn \<noteq> []) = Inr (col\<lparr>col_min := lo, col_max := hi\<rparr>, True)"
    using False c by (auto simp: update_bounds_def Let_def lo_def hi_def)
  have main: "le lo x \<and> le x hi"
    if tw: "three_way CompareValues D le" and sub: "set (v # nn) \<subseteq> D" and x: "x \<in> set (v # nn)" for D le x
  proof -
    have D: "v \<in> D" "?lo \<in> D" "?hi \<in> D" using in_nn sub by auto
    have old: "\<forall>x\<in>set nn. le ?lo x \<and> le x ?hi"
      using bounds_okD [OF assms(2) _ tw] sub by auto
    note signs = three_way.cmp_signs [OF tw D(1,2) c(1)] three_way.cmp_signs [OF tw D(1,3) c(2)]
    have new: "le lo v \<and> le v hi" "le lo ?lo \<and> le ?hi hi"
      using signs three_way.le_total [OF tw D(1,2)] three_way.le_total [OF tw D(1,3)]
        three_way.le_refl [OF tw] D by (auto simp: lo_def hi_def)
    have "x \<in> D" "lo \<in> D" "hi \<in> D" using x sub D by (auto simp: lo_def hi_def)
    with old x new D show ?thesis
      using three_way.le_trans [OF tw, of lo ?lo x] three_way.le_trans [OF tw, of x ?hi hi] by auto
  qed
  have "lo \<in> set (v # nn)" "hi \<in> set (v # nn)" using in_nn by (auto simp: lo_def hi_def)
  with main have "bounds_ok (nn @ [v]) lo hi" by (auto simp: bounds_ok_def)
  with upd show ?thesis by blast
qed

text \<open>What holds of a column under construction after its first \<open>k\<close> rows.\<close>

definition build_inv :: "Value list \<Rightarrow> nat \<Rightarrow> Column \<times> bool \<Rightarrow> bool" where
  "build_inv vals k s \<longleftrightarrow>
     (let (col, have_bounds) = s; nn = filter (\<lambda>v. v \<noteq> Monostate) (take k vals) in
      shape_ok (length vals) col \<and> length (dict_values (col_dict col)) \<le> k \<and>
      (\<forall>r<length vals. bitmap_bits (col_validity col) ! r \<longleftrightarrow> (r < k \<longrightarrow> vals ! r \<noteq> Monostate)) \<and>
      (\<forall>r<k. vals ! r \<noteq> Monostate \<longrightarrow> cell_stored col r (vals ! r)) \<and>
      have_bounds = (nn \<noteq> []) \<and> bounds_ok nn (col_min col) (col_max col))"

lemma cell_stored_bounds [simp]:
  "cell_stored (col\<lparr>col_min := lo, col_max := hi\<rparr>) r v = cell_stored col r v"
  "cell_stored (col\<lparr>col_validity := bm\<rparr>) r v = cell_stored col r v"
  "cell_stored (col\<lparr>col_checksum := crc\<rparr>) r v = cell_stored col r v"
  by (auto simp: cell_stored_def split: Value.splits)

lemma shape_ok_upd [simp]:
  "shape_ok n (col\<lparr>col_min := lo, col_max := hi\<rparr>) = shape_ok n col"
  "shape_ok n (col\<lparr>col_checksum := crc\<rparr>) = shape_ok n col"
  by (auto simp: shape_ok_def col_num_rows_def)

lemma store_cell_ok:
  assumes "shape_ok n col" "r < n" "value_has_type (col_type col) v" "v \<noteq> Monostate"
    and "length (dict_values (col_dict col)) < 2 ^ 32"
  shows "\<exists>col'. store_cell r v col = Inr (v, col') \<and> cell_stored col' r v \<and> shape_ok n col' \<and>
     (\<forall>r' v'. r' \<noteq> r \<longrightarrow> cell_stored col r' v' \<longrightarrow> cell_stored col' r' v') \<and>
     col_type col' = col_type col \<and> col_validity col' = col_validity col \<and>
     col_min col' = col_min col \<and> col_max col' = col_max col \<and>
     length (dict_values (col_dict col')) \<le> Suc (length (dict_values (col_dict col)))"
proof (cases "is_string v")
  case True
  then obtain s where v: "v = VString s" by (auto simp: is_string_def split: Value.splits)
  with assms(3) have "col_type col = kString" by (simp add: value_has_type_def)
  from store_cell_string [OF assms(1,2) this assms(5), of s] show ?thesis unfolding v .
next
  case False
  from store_cell_int [OF assms(1-4) False] show ?thesis by (metis le_SucI order.refl)
qed

lemma build_cell_step:
  assumes inv: "build_inv vals k (col, hb)" and k: "k < length rows" "length rows \<le> 2 ^ 32"
    and vals: "vals = map (\<lambda>row. row ! c) rows" and width: "\<forall>row\<in>set rows. c < length row"
    and typed: "\<forall>v\<in>set vals. value_has_type (col_type col) v"
  shows "\<exists>col' hb'. build_cell c rows k (col, hb) = Inr (col', hb') \<and> build_inv vals (Suc k) (col', hb') \<and>
     col_type col' = col_type col"
proof -
  have at: "vec_at (rows ! k) c = Inr (vals ! k)" using k(1) width vals by simp
  have kl: "k < length vals" using k(1) vals by simp
  have tk: "take (Suc k) vals = take k vals @ [vals ! k]" using kl by (rule take_Suc_conv_app_nth)
  define nn where "nn = filter (\<lambda>v. v \<noteq> Monostate) (take k vals)"
  note I = inv [unfolded build_inv_def Let_def prod.case, folded nn_def]
  show ?thesis
  proof (cases "vals ! k = Monostate")
    case True
    have bm: "wf_bitmap (col_validity col)" "k < bm_num_rows (col_validity col)"
      using I kl by (auto simp: shape_ok_def col_num_rows_def)
    obtain bm' where bm': "SetValid (col_validity col) k False = Inr bm'" "wf_bitmap bm'"
      "bm_num_rows bm' = bm_num_rows (col_validity col)"
      "bitmap_bits bm' = (bitmap_bits (col_validity col))[k := False]"
      using bm.set_abs [OF bm] by blast
    let ?col = "col\<lparr>col_validity := bm'\<rparr>"
    have "shape_ok (length vals) ?col" using I bm' by (auto simp: shape_ok_def col_num_rows_def)
    moreover have "bitmap_bits bm' ! r \<longleftrightarrow> (r < Suc k \<longrightarrow> vals ! r \<noteq> Monostate)" if "r < length vals" for r
      using that I bm' True bm.length_abs [OF bm(1)]
      by (auto simp: nth_list_update less_Suc_eq shape_ok_def col_num_rows_def)
    ultimately have "build_inv vals (Suc k) (?col, hb)"
      using I True by (auto simp: build_inv_def Let_def tk nn_def [symmetric] less_Suc_eq)
    then show ?thesis using at True bm'(1) by (auto simp: build_cell_def)
  next
    case False
    have "vals ! k \<in> set vals" using kl by simp
    then obtain col1 where c1: "store_cell k (vals ! k) col = Inr (vals ! k, col1)"
      "cell_stored col1 k (vals ! k)" "shape_ok (length vals) col1"
      "\<forall>r' v'. r' \<noteq> k \<longrightarrow> cell_stored col r' v' \<longrightarrow> cell_stored col1 r' v'"
      "col_type col1 = col_type col" "col_validity col1 = col_validity col"
      "col_min col1 = col_min col" "col_max col1 = col_max col"
      "length (dict_values (col_dict col1)) \<le> Suc (length (dict_values (col_dict col)))"
      using store_cell_ok [of "length vals" col k "vals ! k"] I kl False typed k(2) vals by auto
    have "\<forall>x\<in>set (vals ! k # nn). value_has_type (col_type col) x \<and> x \<noteq> Monostate"
      using False typed kl by (auto simp: nn_def dest: in_set_takeD)
    then obtain lo hi where u: "update_bounds (vals ! k) (col1, nn \<noteq> []) =
        Inr (col1\<lparr>col_min := lo, col_max := hi\<rparr>, True)" "bounds_ok (nn @ [vals ! k]) lo hi"
      using update_bounds_ok [of "vals ! k" nn "col_type col" col1] I c1 by auto
    have "build_inv vals (Suc k) (col1\<lparr>col_min := lo, col_max := hi\<rparr>, True)"
      using I c1 u(2) False by (auto simp: build_inv_def Let_def tk nn_def [symmetric] less_Suc_eq)
    then show ?thesis using at False c1 u I by (auto simp: build_cell_def)
  qed
qed

lemma build_loop:
  assumes rows: "length rows \<le> 2 ^ 32" "\<forall>row\<in>set rows. c < length row"
    and vals: "vals = map (\<lambda>row. row ! c) rows" "\<forall>v\<in>set vals. value_has_type t v"
    and init: "build_inv vals 0 (col0, False)" "col_type col0 = t"
    and k: "k \<le> length rows"
  shows "\<exists>col hb. fold_res (build_cell c rows) [0..<k] (col0, False) = Inr (col, hb) \<and>
     build_inv vals k (col, hb) \<and> col_type col = t"
  using k
proof (induction k)
  case (Suc k)
  then obtain col hb where IH: "fold_res (build_cell c rows) [0..<k] (col0, False) = Inr (col, hb)"
    "build_inv vals k (col, hb)" "col_type col = t" by auto
  from build_cell_step [OF IH(2) _ rows(1) vals(1) rows(2)] Suc.prems vals(2) IH(3)
  obtain col' hb' where "build_cell c rows k (col, hb) = Inr (col', hb')" "build_inv vals (Suc k) (col', hb')"
    "col_type col' = t" by auto
  with IH(1) show ?case by (auto simp: fold_res_append)
qed (use init in auto)

section \<open>Checksums of well-shaped columns\<close>

lemma length_concat_le_bytes:
  "length (concat (map (le_bytes :: 'a::len word \<Rightarrow> byte list) xs)) = length xs * (LENGTH('a) div 8)"
  by (induction xs) simp_all

lemma length_DataPointer: "shape_ok n col \<Longrightarrow> length (DataPointer col) = n * ElementWidth (col_type col)"
  by (auto simp: shape_ok_def DataPointer_def ElementWidth_def length_concat_le_bytes known_type_def
      split: ColumnType.splits)

definition checksum_input :: "Column \<Rightarrow> byte list" where
  "checksum_input col =
     bm_bytes (col_validity col) @ DataPointer col @
     (if col_type col = kString then concat (dict_values (col_dict col)) else [])"

lemma checksum_input_upd [simp]:
  "checksum_input (col\<lparr>col_checksum := crc\<rparr>) = checksum_input col"
  "checksum_input (col\<lparr>col_min := lo, col_max := hi\<rparr>) = checksum_input col"
  by (cases "col_type col"; simp add: checksum_input_def DataPointer_def)+

lemma ComputeColumnChecksum_input:
  assumes "shape_ok n col"
  shows "ComputeColumnChecksum col = Inr (Crc32c (checksum_input col))"
proof -
  have "col_num_rows col = n" using assms by (simp add: shape_ok_def)
  with length_DataPointer [OF assms] show ?thesis
    by (simp add: ComputeColumnChecksum_def read_block_def Let_def checksum_input_def Crc32c_def
        crc32c.extend_append crc32c.extend_Nil crc32c.extend_concat)
qed

section \<open>Well-formed columns and segments\<close>

definition wf_column :: "nat \<Rightarrow> Column \<Rightarrow> bool" where
  "wf_column n col \<longleftrightarrow> shape_ok n col \<and> ComputeColumnChecksum col = Inr (col_checksum col) \<and>
     (col_min col = Monostate \<longleftrightarrow> col_max col = Monostate) \<and>
     value_has_type (col_type col) (col_min col) \<and> value_has_type (col_type col) (col_max col)"

definition wf_segment :: "Segment \<Rightarrow> bool" where
  "wf_segment seg \<longleftrightarrow>
     list_all2 (\<lambda>cs col. wf_column (seg_num_rows seg) col \<and> col_type col = cs_type cs)
       (seg_schema seg) (seg_columns seg)"

text \<open>The values of a column, and what its statistics promise about them.\<close>

definition column_holds :: "Column \<Rightarrow> Value list \<Rightarrow> bool" where
  "column_holds col vals \<longleftrightarrow>
     col_num_rows col = length vals \<and> (\<forall>r<length vals. ValueAt col r = Inr (vals ! r)) \<and>
     bounds_ok (filter (\<lambda>v. v \<noteq> Monostate) vals) (col_min col) (col_max col)"

lemma ValueAt_checksum [simp]: "ValueAt (col\<lparr>col_checksum := crc\<rparr>) r = ValueAt col r"
  by (cases "IsValid (col_validity col) r") (auto simp: ValueAt_def split: ColumnType.splits)

lemma build_inv_init:
  assumes "known_type (cs_type cs)" "length vals = n"
  shows "build_inv vals 0
    (resize_data (cs_type cs) n (default_Column\<lparr>col_type := cs_type cs, col_validity := MakeBitmap n True\<rparr>), False)"
  using assms
  by (auto simp: build_inv_def Let_def resize_data_def default_Column_def shape_ok_def col_num_rows_def
      known_type_def bounds_ok_def bitmap_bits_MakeBitmap split: ColumnType.splits)
    (simp_all add: empty_dict_def)

lemma build_inv_holds:
  assumes "build_inv vals (length vals) (col, hb)"
  shows "column_holds col vals"
proof -
  note I = assms [unfolded build_inv_def Let_def prod.case]
  have "ValueAt col r = Inr (vals ! r)" if "r < length vals" for r
    using that I ValueAt_stored [of col r] by (cases "vals ! r = Monostate") (auto simp: shape_ok_def)
  with I show ?thesis by (auto simp: column_holds_def shape_ok_def)
qed

lemma build_column_ok:
  assumes "known_type (cs_type cs)" "length rows \<le> 2 ^ 32"
    and "\<forall>row\<in>set rows. c < length row \<and> value_has_type (cs_type cs) (row ! c)"
  shows "\<exists>col. build_column cs c rows = Inr col \<and> col_type col = cs_type cs \<and> wf_column (length rows) col \<and>
     column_holds col (map (\<lambda>row. row ! c) rows)"
proof -
  let ?t = "cs_type cs" and ?vals = "map (\<lambda>row. row ! c) rows"
  let ?col0 = "resize_data ?t (length rows) (default_Column\<lparr>col_type := ?t, col_validity := MakeBitmap (length rows) True\<rparr>)"
  have t0: "col_type ?col0 = ?t" by (simp add: resize_data_def split: ColumnType.splits)
  have "build_inv ?vals 0 (?col0, False)" using assms(1) by (intro build_inv_init) auto
  with build_loop [OF assms(2) _ refl _ this t0, of "length rows"] assms(3)
  obtain col hb where l: "fold_res (build_cell c rows) [0..<length rows] (?col0, False) = Inr (col, hb)"
    "build_inv ?vals (length ?vals) (col, hb)" "col_type col = ?t" by auto
  note I = l(2) [unfolded build_inv_def Let_def prod.case]
  have crc: "ComputeColumnChecksum col = Inr (Crc32c (checksum_input col))"
    using I ComputeColumnChecksum_input by auto
  let ?col = "col\<lparr>col_checksum := Crc32c (checksum_input col)\<rparr>"
  have "ComputeColumnChecksum ?col = Inr (col_checksum ?col)"
    using I ComputeColumnChecksum_input [of "length ?vals" ?col] by simp
  moreover have "value_has_type ?t (col_min col) \<and> value_has_type ?t (col_max col) \<and>
      (col_min col = Monostate \<longleftrightarrow> col_max col = Monostate)"
    using I assms(3) by (auto simp: bounds_ok_def value_has_type_def split: if_splits)
  ultimately have "wf_column (length rows) ?col" using I l(3) by (simp add: wf_column_def)
  moreover have "column_holds ?col ?vals"
    using build_inv_holds [OF l(2)] by (simp add: column_holds_def col_num_rows_def)
  ultimately show ?thesis using l crc by (simp add: build_column_def Let_def)
qed

text \<open>The dictionary of a built column holds strings of the rows, no more of them than rows.\<close>

definition dict_from :: "Value list \<Rightarrow> nat \<Rightarrow> Column \<Rightarrow> bool" where
  "dict_from vals k col \<longleftrightarrow>
     length (dict_values (col_dict col)) \<le> k \<and> (\<forall>s\<in>set (dict_values (col_dict col)). VString s \<in> set (take k vals))"

lemma InternOrGet_values:
  "InternOrGet d s = (c, d') \<Longrightarrow> dict_values d' = dict_values d \<or> dict_values d' = dict_values d @ [s]"
  by (auto simp: InternOrGet_def Let_def split: option.splits)

lemma dict_from_Suc:
  assumes "dict_from vals k col" "k < length vals"
    and "col_dict col' = col_dict col \<or> (\<exists>s c. vals ! k = VString s \<and> InternOrGet (col_dict col) s = (c, col_dict col'))"
  shows "dict_from vals (Suc k) col'"
  using assms by (auto simp: dict_from_def take_Suc_conv_app_nth dest!: InternOrGet_values)

lemma build_cell_dict:
  assumes "build_cell c rows k (col, hb) = Inr (col', hb')" "vals = map (\<lambda>row. row ! c) rows" "k < length rows"
  shows "col_dict col' = col_dict col \<or> (\<exists>s i. vals ! k = VString s \<and> InternOrGet (col_dict col) s = (i, col_dict col'))"
proof -
  obtain v where v: "vec_at (rows ! k) c = Inr v" using assms(1) by (cases "vec_at (rows ! k) c") (auto simp: build_cell_def)
  then have vk: "vals ! k = v" using assms(2,3) by (simp add: vec_at_def split: if_splits)
  show ?thesis
  proof (cases "v = Monostate")
    case True
    then show ?thesis using assms(1) v by (cases "SetValid (col_validity col) k False") (auto simp: build_cell_def)
  next
    case False
    obtain w col1 where s: "store_cell k v col = Inr (w, col1)" "update_bounds w (col1, hb) = Inr (col', hb')"
      using assms(1) v False by (cases "store_cell k v col") (auto simp: build_cell_def)
    have "col_dict col' = col_dict col1"
      using s(2) by (cases "CompareValues w (col_min col1)"; cases "CompareValues w (col_max col1)")
        (auto simp: update_bounds_def Let_def split: if_splits)
    moreover have "col_dict col1 = col_dict col \<or> (\<exists>s i. v = VString s \<and> InternOrGet (col_dict col) s = (i, col_dict col1))"
      using s(1) by (auto simp: store_cell_def split: ColumnType.splits Value.splits prod.splits)
    ultimately show ?thesis using vk by simp
  qed
qed

lemma build_column_dict:
  assumes "build_column cs c rows = Inr col"
  shows "dict_from (map (\<lambda>row. row ! c) rows) (length rows) col"
proof -
  let ?vals = "map (\<lambda>row. row ! c) rows"
  define col0 where "col0 = resize_data (cs_type cs) (length rows)
    (default_Column\<lparr>col_type := cs_type cs, col_validity := MakeBitmap (length rows) True\<rparr>)"
  have step: "dict_from ?vals k col1" if "fold_res (build_cell c rows) [0..<k] (col0, False) = Inr (col1, hb)" "k \<le> length rows" for k col1 hb
    using that
  proof (induction k arbitrary: col1 hb)
    case 0
    then show ?case by (auto simp: dict_from_def col0_def resize_data_def default_Column_def empty_dict_def split: ColumnType.splits)
  next
    case (Suc k)
    then obtain col2 hb2 where c: "fold_res (build_cell c rows) [0..<k] (col0, False) = Inr (col2, hb2)"
      "build_cell c rows k (col2, hb2) = Inr (col1, hb)"
      by (cases "fold_res (build_cell c rows) [0..<k] (col0, False)") (auto simp: fold_res_append)
    with Suc.IH [OF c(1)] Suc.prems(2) build_cell_dict [OF c(2) refl] show ?case by (intro dict_from_Suc [of _ k col2]) auto
  qed
  obtain col1 hb where "fold_res (build_cell c rows) [0..<length rows] (col0, False) = Inr (col1, hb)" "col_dict col = col_dict col1"
    using assms by (cases "fold_res (build_cell c rows) [0..<length rows] (col0, False)")
      (auto simp: build_column_def Let_def col0_def [symmetric])
  then show ?thesis using step [of "length rows" col1 hb] by (simp add: dict_from_def)
qed

lemma bounds_ok_in: "bounds_ok nn lo hi \<Longrightarrow> v = lo \<or> v = hi \<Longrightarrow> v \<in> set nn \<or> v = Monostate"
  by (auto simp: bounds_ok_def split: if_splits)

definition segment_holds :: "Segment \<Rightarrow> Row list \<Rightarrow> bool" where
  "segment_holds seg rows \<longleftrightarrow> seg_num_rows seg = length rows \<and>
     (\<forall>c<length (seg_columns seg). column_holds (seg_columns seg ! c) (map (\<lambda>row. row ! c) rows))"

lemma Build_ok:
  assumes "\<forall>cs\<in>set schema. known_type (cs_type cs)" "length rows \<le> 2 ^ 32"
    and "\<forall>row\<in>set rows. row_has_schema schema row"
  shows "\<exists>seg. Build sid schema rows = Inr seg \<and> wf_segment seg \<and> segment_holds seg rows \<and>
     seg_id seg = sid \<and> seg_schema seg = schema \<and> length (seg_columns seg) = length schema"
proof -
  let ?ok = "\<lambda>c col. build_column (schema ! c) c rows = Inr col \<and> col_type col = cs_type (schema ! c) \<and>
     wf_column (length rows) col \<and> column_holds col (map (\<lambda>row. row ! c) rows)"
  have "\<exists>col. ?ok c col" if "c < length schema" for c
    using that assms by (intro build_column_ok) (auto simp: row_has_schema_def list_all2_conv_all_nth)
  then obtain f where f: "\<And>c. c < length schema \<Longrightarrow> ?ok c (f c)" by metis
  then have "map_res (\<lambda>c. build_column (schema ! c) c rows) [0..<length schema] = Inr (map f [0..<length schema])"
    by (intro map_res_total) auto
  with f show ?thesis
    by (auto simp: Build_def wf_segment_def segment_holds_def list_all2_conv_all_nth)
qed

section \<open>Pruning\<close>

text \<open>A comparison order and a literal of its domain: an outside literal excludes every value.\<close>

lemma CanSkip_three_way:
  assumes tw: "three_way CompareValues D le"
    and col: "c < length (seg_columns seg)" "column_holds (seg_columns seg ! c) vals"
    and D: "set (filter (\<lambda>v. v \<noteq> Monostate) vals) \<subseteq> D" "literal \<in> D"
    and skip: "CanSkip seg c op literal = Inr True" and r: "r < length vals"
  shows "EvaluatePredicate (vals ! r) op literal = Inr False"
proof (cases "vals ! r = Monostate")
  case True
  then show ?thesis by (simp add: EvaluatePredicate_def)
next
  case False
  let ?col = "seg_columns seg ! c" and ?nn = "filter (\<lambda>v. v \<noteq> Monostate) vals"
  let ?v = "vals ! r" and ?lo = "col_min ?col" and ?hi = "col_max ?col"
  have v: "?v \<in> set ?nn" using False r by simp
  have "bounds_ok ?nn ?lo ?hi" using col(2) by (simp add: column_holds_def)
  note b = bounds_okD [OF this v tw D(1)]
  have in_D: "?v \<in> D" "?lo \<in> D" "?hi \<in> D" using D(1) b v by auto
  from skip col(1) have "?lo \<noteq> Monostate" "?hi \<noteq> Monostate" by (auto simp: CanSkip_def seg_column_def)
  then obtain c1 c2 where c: "CompareValues literal ?lo = Inr c1" "CompareValues literal ?hi = Inr c2"
    and res: "(case op of kEq \<Rightarrow> c1 < 0 \<or> c2 > 0 | kGt \<Rightarrow> c2 \<ge> 0 | kGe \<Rightarrow> c2 > 0 | kLt \<Rightarrow> c1 \<le> 0
      | kLe \<Rightarrow> c1 < 0 | kNe \<Rightarrow> False)"
    using skip col(1) by (cases op) (auto simp: CanSkip_def seg_column_def)
  obtain c3 where c3: "CompareValues ?v literal = Inr c3"
    using three_way.cmp_le [OF tw in_D(1) D(2)] by simp
  note signs = three_way.cmp_signs [OF tw D(2) in_D(2) c(1)] three_way.cmp_signs [OF tw D(2) in_D(3) c(2)]
    three_way.cmp_signs [OF tw in_D(1) D(2) c3]
  have "le literal ?lo \<Longrightarrow> le literal ?v" "le ?hi literal \<Longrightarrow> le ?v literal"
    "le ?v literal \<Longrightarrow> le ?lo literal" "le literal ?v \<Longrightarrow> le literal ?hi"
    using three_way.le_trans [OF tw] in_D D(2) b(3,4) by meson+
  with res signs c3 False show ?thesis
    by (cases op) (auto simp: EvaluatePredicate_def)
qed

section \<open>Properties\<close>

text \<open>
  C22: a segment built from rows that match the schema is well formed, carries the requested
  identifier, and gives every cell of every row back, nulls included.
\<close>

theorem Build_ValueAt:
  assumes "\<forall>cs\<in>set schema. known_type (cs_type cs)" and "length rows \<le> 2 ^ 32"
    and "\<forall>row\<in>set rows. row_has_schema schema row"
  shows "\<exists>seg. Build sid schema rows = Inr seg \<and> seg_id seg = sid \<and> seg_num_rows seg = length rows \<and>
     wf_segment seg \<and>
     (\<forall>r<length rows. \<forall>c<length schema.
        bind_res (seg_column seg c) (\<lambda>col. ValueAt col r) = Inr (rows ! r ! c))"
  using Build_ok [OF assms, of sid]
  by (auto simp: segment_holds_def column_holds_def seg_column_def)

theorem Build_ValueAt_witness:
  "\<exists>seg. Build 7 [\<lparr>cs_name = ''k'', cs_type = kInt64\<rparr>, \<lparr>cs_name = ''s'', cs_type = kString\<rparr>]
       [[VInt64 5, VString [97]], [Monostate, VString [97]]] = Inr seg \<and>
     bind_res (seg_column seg 1) (\<lambda>col. ValueAt col 1) = Inr (VString [97])"
proof -
  let ?schema = "[\<lparr>cs_name = ''k'', cs_type = kInt64\<rparr>, \<lparr>cs_name = ''s'', cs_type = kString\<rparr>]"
  let ?rows = "[[VInt64 5, VString [97]], [Monostate, VString [97]]]"
  have "\<forall>cs\<in>set ?schema. known_type (cs_type cs)" "length ?rows \<le> 2 ^ 32"
    "\<forall>row\<in>set ?rows. row_has_schema ?schema row"
    by (simp_all add: known_type_def row_has_schema_def value_has_type_def)
  from Build_ValueAt [OF this, of 7] obtain seg where seg: "Build 7 ?schema ?rows = Inr seg"
    "\<forall>r<length ?rows. \<forall>c<length ?schema. bind_res (seg_column seg c) (\<lambda>col. ValueAt col r) = Inr (?rows ! r ! c)"
    by blast
  from seg(2) [rule_format, of 1 1] seg(1) show ?thesis by auto
qed

text \<open>
  C23: \<^verbatim>\<open>VerifyIntegrity\<close> accepts every well-formed segment, and it accepts a segment whose typed
  arrays have the shape of the schema only if each column's recorded checksum is the CRC-32C of its
  bitmap, data block and dictionary strings.
\<close>

theorem VerifyIntegrity_iff:
  assumes "\<forall>col\<in>set (seg_columns seg). shape_ok (seg_num_rows seg) col"
  shows "VerifyIntegrity seg = Inr None \<longleftrightarrow>
    (\<forall>col\<in>set (seg_columns seg). col_checksum col = Crc32c (checksum_input col))"
proof -
  have "verify_columns c cols = Inr None \<longleftrightarrow> (\<forall>col\<in>set cols. col_checksum col = Crc32c (checksum_input col))"
    if "\<forall>col\<in>set cols. shape_ok (seg_num_rows seg) col" for c cols
    using that by (induction cols arbitrary: c) (auto simp: ComputeColumnChecksum_input)
  with assms show ?thesis by (simp add: VerifyIntegrity_def)
qed

theorem VerifyIntegrity_iff_witness:
  "VerifyIntegrity \<lparr>seg_id = 1, seg_num_rows = 0, seg_schema = [],
     seg_columns = [default_Column\<lparr>col_checksum := 5\<rparr>]\<rparr> \<noteq> Inr None"
proof -
  let ?seg = "\<lparr>seg_id = 1, seg_num_rows = 0, seg_schema = [], seg_columns = [default_Column\<lparr>col_checksum := 5\<rparr>]\<rparr>"
  have h: "\<forall>col\<in>set (seg_columns ?seg). shape_ok (seg_num_rows ?seg) col"
    by (simp add: shape_ok_def default_Column_def wf_bitmap_def col_num_rows_def known_type_def)
  show ?thesis unfolding VerifyIntegrity_iff [OF h]
    by (simp add: checksum_input_def default_Column_def DataPointer_def Crc32c_def crc32c.extend_Nil)
qed

text \<open>
  C24: pruning of a segment that \<^verbatim>\<open>Build\<close> made is conservative: when the rows match the schema, the column's
  cells are null or numeric without NaN, the literal is numeric and not NaN, and \<^verbatim>\<open>CanSkip\<close> answers yes, then
  \<^verbatim>\<open>EvaluatePredicate\<close> rejects every row of the segment. (A loaded segment may have other bounds: the
  checksum does not cover them.)
\<close>

theorem CanSkip_numeric_sound:
  assumes "\<forall>cs\<in>set schema. known_type (cs_type cs)" and "length rows \<le> 2 ^ 32"
    and "\<forall>row\<in>set rows. row_has_schema schema row" and "Build sid schema rows = Inr seg" and "c < length schema"
    and "\<forall>row\<in>set rows. row ! c = Monostate \<or> comparable_num (row ! c)" and "comparable_num literal"
    and "CanSkip seg c op literal = Inr True" and "r < length rows"
  shows "bind_res (ValueAt (seg_columns seg ! c) r) (\<lambda>v. EvaluatePredicate v op literal) = Inr False"
proof -
  let ?vals = "map (\<lambda>row. row ! c) rows"
  from Build_ok [OF assms(1-3), of sid] assms(4,5) have c: "c < length (seg_columns seg)"
    and holds: "column_holds (seg_columns seg ! c) ?vals" by (auto simp: segment_holds_def)
  have "EvaluatePredicate (?vals ! r) op literal = Inr False"
    using assms(6-9) by (intro CanSkip_three_way [OF num.three_way_axioms c holds]) auto
  with holds assms(9) show ?thesis by (simp add: column_holds_def)
qed

theorem CanSkip_numeric_sound_witness:
  "\<exists>seg. Build 1 [\<lparr>cs_name = ''k'', cs_type = kInt64\<rparr>] [[VInt64 5], [VInt64 3]] = Inr seg \<and>
     CanSkip seg 0 kGt (VInt64 9) = Inr True \<and>
     bind_res (ValueAt (seg_columns seg ! 0) 1) (\<lambda>v. EvaluatePredicate v kGt (VInt64 9)) = Inr False"
proof -
  let ?schema = "[\<lparr>cs_name = ''k'', cs_type = kInt64\<rparr>]" and ?rows = "[[VInt64 5], [VInt64 3]]"
  obtain seg where seg: "Build 1 ?schema ?rows = Inr seg" "segment_holds seg ?rows" "length (seg_columns seg) = 1"
    using Build_ok [of ?schema ?rows 1]
    by (auto simp: known_type_def row_has_schema_def value_has_type_def)
  then have holds: "column_holds (seg_columns seg ! 0) [VInt64 5, VInt64 3]" by (simp add: segment_holds_def)
  then have "col_max (seg_columns seg ! 0) \<in> {VInt64 5, VInt64 3}" "col_min (seg_columns seg ! 0) \<in> {VInt64 5, VInt64 3}"
    by (simp_all add: column_holds_def bounds_ok_def)
  then have skip: "CanSkip seg 0 kGt (VInt64 9) = Inr True"
    using seg(3) num_key_int_strict [of 5 9] num_key_int_strict [of 3 9]
    by (auto simp: CanSkip_def seg_column_def CompareValues_num)
  have "bind_res (ValueAt (seg_columns seg ! 0) 1) (\<lambda>v. EvaluatePredicate v kGt (VInt64 9)) = Inr False"
    by (rule CanSkip_numeric_sound [OF _ _ _ seg(1) _ _ _ skip])
      (simp_all add: known_type_def row_has_schema_def value_has_type_def)
  with seg(1) skip show ?thesis by blast
qed

text \<open>
  The checksum covers less than the column: it does not depend on the recorded minimum and
  maximum, nor on where one dictionary string ends and the next begins, so a change of either
  passes the integrity check.
\<close>

theorem checksum_blind_spots:
  assumes "shape_ok n col" and "shape_ok n col'" and "col_type col' = col_type col"
    and "bm_bytes (col_validity col') = bm_bytes (col_validity col)" and "DataPointer col' = DataPointer col"
    and "concat (dict_values (col_dict col')) = concat (dict_values (col_dict col))"
  shows "ComputeColumnChecksum col' = ComputeColumnChecksum col"
  using assms by (simp add: ComputeColumnChecksum_input [of n] checksum_input_def)

theorem checksum_blind_spots_witness:
  "ComputeColumnChecksum (default_Column\<lparr>col_type := kString, col_dict := dict_of [[1, 2], [3]]\<rparr>) =
   ComputeColumnChecksum (default_Column\<lparr>col_type := kString, col_dict := dict_of [[1], [2, 3]]\<rparr>)"
proof (rule checksum_blind_spots [of 0])
  show "shape_ok 0 (default_Column\<lparr>col_type := kString, col_dict := dict_of [[1], [2, 3]]\<rparr>)"
    "shape_ok 0 (default_Column\<lparr>col_type := kString, col_dict := dict_of [[1, 2], [3]]\<rparr>)"
    by (simp_all add: shape_ok_def default_Column_def wf_bitmap_def col_num_rows_def known_type_def wf_dict_of)
qed (simp_all add: default_Column_def DataPointer_def dict_of_def)

end
