(* ===== verification/FileIO.thy ===== *)
theory FileIO
  imports CoreDB_Prelude
begin

text \<open>
  Files as the C++ stream and stdio calls of the sources see them: a directory tree is a map from
  paths to byte sequences, every open-for-writing has an outcome chosen by the environment, and
  reading consumes a byte sequence front to back. The reader combinators below are the sequence of
  \<^verbatim>\<open>if (!Read...) return error\<close> statements of the loading code.
\<close>

type_synonym path = string
type_synonym files = "path \<Rightarrow> byte list option"

text \<open>
  What the operating system does with a file that is created, written and closed: the open fails, all
  bytes arrive, or only a prefix does. In the last case the flag tells whether the stream noticed
  before its state was tested (buffered bytes that fail to reach the disk when the stream object is
  destroyed are not noticed).
\<close>

datatype write_outcome = OpenFails | Written | Short nat bool

type_synonym io_env = "path \<Rightarrow> write_outcome"

datatype write_status = CannotOpen | WriteError | WriteOk

definition write_file :: "io_env \<Rightarrow> path \<Rightarrow> byte list \<Rightarrow> files \<Rightarrow> files \<times> write_status" where
  "write_file env p bs fs =
     (case env p of
        OpenFails \<Rightarrow> (fs, CannotOpen)
      | Written \<Rightarrow> (fs(p \<mapsto> bs), WriteOk)
      | Short n noticed \<Rightarrow> (fs(p \<mapsto> take n bs), if noticed then WriteError else WriteOk))"

lemma write_file_other: "fst (write_file env p bs fs) q = fs q" if "q \<noteq> p"
  using that by (simp add: write_file_def split: write_outcome.splits)

lemma write_file_Written [simp]: "env p = Written \<Longrightarrow> write_file env p bs fs = (fs(p \<mapsto> bs), WriteOk)"
  by (simp add: write_file_def)

section \<open>Readers\<close>

text \<open>A load either throws (an exception or undefined behaviour) or rejects the file with an error.\<close>

datatype 'e failure = Throws cpp_exc | Rejects 'e

type_synonym ('e, 'a) reader = "byte list \<Rightarrow> 'e failure + ('a \<times> byte list)"

definition bindR :: "('e, 'a) reader \<Rightarrow> ('a \<Rightarrow> ('e, 'b) reader) \<Rightarrow> ('e, 'b) reader" where
  "bindR r f bs = bind_res (r bs) (\<lambda>(x, bs'). f x bs')"

definition returnR :: "'a \<Rightarrow> ('e, 'a) reader" where
  "returnR x bs = Inr (x, bs)"

definition readR :: "'e \<Rightarrow> (byte list \<Rightarrow> ('a \<times> byte list) option) \<Rightarrow> ('e, 'a) reader" where
  "readR err dec bs = (case dec bs of None \<Rightarrow> Inl (Rejects err) | Some (x, bs') \<Rightarrow> Inr (x, bs'))"

definition rejectR :: "bool \<Rightarrow> 'e \<Rightarrow> ('e, unit) reader" where
  "rejectR bad err bs = (if bad then Inl (Rejects err) else Inr ((), bs))"

definition liftR :: "'a res \<Rightarrow> ('e, 'a) reader" where
  "liftR m bs = (case m of Inl e \<Rightarrow> Inl (Throws e) | Inr x \<Rightarrow> Inr (x, bs))"

lemma reader_simps [simp]:
  "bindR r f bs = bind_res (r bs) (\<lambda>(x, bs'). f x bs')"
  "returnR x bs = Inr (x, bs)"
  "dec bs = Some (y, bs') \<Longrightarrow> readR err dec bs = Inr (y, bs')"
  "dec bs = None \<Longrightarrow> readR err dec bs = Inl (Rejects err)"
  "rejectR False err' bs = Inr ((), bs)"
  "rejectR True err' bs = Inl (Rejects err')"
  "liftR (Inr z) bs = Inr (z, bs)"
  by (simp_all add: bindR_def returnR_def readR_def rejectR_def liftR_def)

lemma reader_accepts:
  "readR err dec bs = Inr (x, r) \<longleftrightarrow> dec bs = Some (x, r)"
  "rejectR bad err bs = Inr (u, r) \<longleftrightarrow> \<not> bad \<and> r = bs"
  "liftR m bs = Inr (y, r) \<longleftrightarrow> m = Inr y \<and> r = bs"
  by (auto simp: readR_def rejectR_def liftR_def split: option.splits sum.splits)

text \<open>
  A reader is stable when input behind the part it read does not matter: whatever it decides before
  reaching the end of its input, other than that the input is too short, it decides on every longer
  input too.
\<close>

definition stable :: "('e, 'a) reader \<Rightarrow> bool" where
  "stable r \<longleftrightarrow> (\<forall>bs t. (\<forall>x rest. r bs = Inr (x, rest) \<longrightarrow> r (bs @ t) = Inr (x, rest @ t)) \<and>
     (\<forall>e. r bs = Inl (Throws e) \<longrightarrow> r (bs @ t) = Inl (Throws e)))"

named_theorems stable_intros \<open>stability of the readers, one rule per combinator\<close>

lemma stable_bindR [stable_intros]:
  assumes "stable r" "\<And>x. stable (f x)"
  shows "stable (bindR r f)"
  unfolding stable_def
proof (intro allI conjI impI)
  fix bs t x rest assume "bindR r f bs = Inr (x, rest)"
  then obtain y bs' where "r bs = Inr (y, bs')" "f y bs' = Inr (x, rest)" by auto
  then show "bindR r f (bs @ t) = Inr (x, rest @ t)" using assms by (simp add: stable_def)
next
  fix bs t e assume "bindR r f bs = Inl (Throws e)"
  then consider "r bs = Inl (Throws e)" | y bs' where "r bs = Inr (y, bs')" "f y bs' = Inl (Throws e)"
    by (cases "r bs") auto
  then show "bindR r f (bs @ t) = Inl (Throws e)" using assms by cases (simp_all add: stable_def)
qed

lemma stable_returnR [stable_intros]: "stable (returnR x)"
  by (simp add: stable_def)

lemma stable_readR [stable_intros]:
  "(\<And>bs x rest t. dec bs = Some (x, rest) \<Longrightarrow> dec (bs @ t) = Some (x, rest @ t)) \<Longrightarrow> stable (readR err dec)"
  by (auto simp: stable_def readR_def split: option.splits)

lemma stable_rejectR [stable_intros]: "stable (rejectR b err)"
  by (auto simp: stable_def rejectR_def)

lemma stable_liftR [stable_intros]: "stable (liftR m)"
  by (auto simp: stable_def liftR_def split: sum.splits)

lemma stable_if [stable_intros]: "stable r \<Longrightarrow> stable s \<Longrightarrow> stable (if b then r else s)"
  by simp

text \<open>A stable reader that accepts all of its input rejects every shorter one.\<close>

lemma stable_truncated:
  assumes "stable r" "r (p @ q) = Inr (x, [])" "q \<noteq> []"
  shows "\<exists>e. r p = Inl (Rejects e)"
proof (cases "r p")
  case (Inl f)
  with assms show ?thesis by (cases f) (auto simp: stable_def)
next
  case (Inr y)
  with assms show ?thesis by (cases y) (auto simp: stable_def)
qed

section \<open>Strings and arrays on disk\<close>

text \<open>A length-prefixed string: the length is cast to 32 bits and that many bytes follow.\<close>

definition WriteString :: "cstring \<Rightarrow> byte list" where
  "WriteString s = (let len = (of_nat (length s) :: u32) in le_bytes len @ take (unat len) s)"

definition ReadString :: "byte list \<Rightarrow> (cstring \<times> byte list) option" where
  "ReadString bs =
     (case read_word bs of
        None \<Rightarrow> None
      | Some (len :: u32, bs') \<Rightarrow> read_bytes (unat len) bs')"

lemma ReadString_WriteString:
  assumes "length s < 2 ^ 32"
  shows "ReadString (WriteString s @ rest) = Some (s, rest)"
proof -
  have "unat (of_nat (length s) :: u32) = length s" using assms by (simp add: unat_of_nat)
  then show ?thesis by (simp add: ReadString_def WriteString_def Let_def)
qed

lemma ReadString_more:
  "ReadString bs = Some (s, rest) \<Longrightarrow> ReadString (bs @ t) = Some (s, rest @ t)"
  by (auto simp: ReadString_def read_word_more read_bytes_more split: option.splits prod.splits
      dest: read_word_more [of bs, where t = t])

interpretation string_codec: stream_codec WriteString ReadString "\<lambda>s. length s < 2 ^ 32"
  by unfold_locales (simp_all add: ReadString_WriteString ReadString_more)

text \<open>A block of bytes read into an array of words.\<close>

primrec words_of :: "nat \<Rightarrow> byte list \<Rightarrow> 'a::len word list" where
  "words_of 0 bs = []"
| "words_of (Suc n) bs =
     of_le_bytes (take (LENGTH('a) div 8) bs) # words_of n (drop (LENGTH('a) div 8) bs)"

lemma words_of_concat [simp]:
  assumes "8 dvd LENGTH('a)" "length (xs::'a::len word list) = n"
  shows "words_of n (concat (map le_bytes xs)) = xs"
  using assms(2) by (induction xs arbitrary: n) (auto simp: assms(1))

lemma length_words_of [simp]: "length (words_of n bs) = n"
  by (induction n arbitrary: bs) simp_all

lemma concat_words_of:
  assumes "8 dvd LENGTH('a)" "length bs = n * (LENGTH('a) div 8)"
  shows "concat (map le_bytes (words_of n bs :: 'a::len word list)) = bs"
proof -
  have one: "le_bytes (of_le_bytes cs :: 'a word) = cs" if "length cs = LENGTH('a) div 8" for cs
  proof (rule nth_equalityI)
    fix i assume "i < length (le_bytes (of_le_bytes cs :: 'a word))"
    then have i: "i < LENGTH('a) div 8" by simp
    have "bit (ucast (drop_bit (8 * i) (of_le_bytes cs :: 'a word)) :: byte) k \<longleftrightarrow> bit (cs ! i) k" if "k < 8" for k
    proof -
      from i assms(1) that have "8 * i + k < LENGTH('a)" by (auto simp: dvd_def)
      with i that \<open>length cs = _\<close> show ?thesis by (auto simp: bit_simps bit_of_le_bytes)
    qed
    with i show "le_bytes (of_le_bytes cs :: 'a word) ! i = cs ! i"
      by (intro bit_word_eqI) (simp add: le_bytes_def)
  qed (use that in simp)
  from assms(2) show ?thesis
  proof (induction n arbitrary: bs)
    case (Suc n)
    then show ?case by (simp add: one)
  qed simp
qed

end
