(* ===== verification/SegmentFile.thy ===== *)
theory SegmentFile
  imports Segment FileIO
begin

text \<open>
  The on-disk half of \<^verbatim>\<open>src/storage/segment.cpp\<close>: \<^verbatim>\<open>SaveToFile\<close> and \<^verbatim>\<open>LoadFromFile\<close>. A saved segment
  loads back unchanged, every proper prefix of a saved file is rejected, and whatever \<^verbatim>\<open>LoadFromFile\<close>
  accepts passes \<^verbatim>\<open>VerifyIntegrity\<close>.
\<close>

section \<open>The code\<close>

definition kMagic :: "byte list" where
  "kMagic = [0x43, 0x44, 0x42, 0x53, 0x45, 0x47, 0x31, 0]"

definition WriteTypedValue :: "ColumnType \<Rightarrow> Value \<Rightarrow> byte list res" where
  "WriteTypedValue t v =
     (case t of
        kInt32 \<Rightarrow> (case v of VInt32 x \<Rightarrow> Inr (le_bytes x) | _ \<Rightarrow> Inl BadVariantAccess)
      | kInt64 \<Rightarrow> (case v of VInt64 x \<Rightarrow> Inr (le_bytes x) | _ \<Rightarrow> Inl BadVariantAccess)
      | kDouble \<Rightarrow> (case v of VDouble x \<Rightarrow> Inr (le_bytes x) | _ \<Rightarrow> Inl BadVariantAccess)
      | kString \<Rightarrow> (case v of VString s \<Rightarrow> Inr (WriteString s) | _ \<Rightarrow> Inl BadVariantAccess)
      | kUnknown _ \<Rightarrow> Inr [])"

definition ReadTypedValue :: "ColumnType \<Rightarrow> byte list \<Rightarrow> (Value \<times> byte list) option" where
  "ReadTypedValue t bs =
     (case t of
        kInt32 \<Rightarrow> map_option (map_prod VInt32 id) (read_word bs)
      | kInt64 \<Rightarrow> map_option (map_prod VInt64 id) (read_word bs)
      | kDouble \<Rightarrow> map_option (map_prod VDouble id) (read_word bs)
      | kString \<Rightarrow> map_option (map_prod VString id) (ReadString bs)
      | kUnknown _ \<Rightarrow> None)"

text \<open>
  The bytes \<^verbatim>\<open>SaveToFile\<close> writes for one column of a segment with \<open>n\<close> rows. The null count is a
  64-bit subtraction cut to 32 bits.
\<close>

definition min_max_bytes :: "Column \<Rightarrow> byte list res" where
  "min_max_bytes col =
     (if col_min col \<noteq> Monostate then
        bind_res (WriteTypedValue (col_type col) (col_min col)) (\<lambda>lo.
        bind_res (WriteTypedValue (col_type col) (col_max col)) (\<lambda>hi.
          Inr (le_bytes (1 :: byte) @ lo @ hi)))
      else Inr (le_bytes (0 :: byte)))"

definition dictionary_bytes :: "Column \<Rightarrow> byte list" where
  "dictionary_bytes col =
     (if col_type col = kString then
        le_bytes (of_nat (length (dict_values (col_dict col))) :: u32) @
        concat (map WriteString (dict_values (col_dict col)))
      else [])"

definition column_bytes :: "nat \<Rightarrow> Column \<Rightarrow> byte list res" where
  "column_bytes n col =
     bind_res (CountValid (col_validity col)) (\<lambda>valid.
     bind_res (min_max_bytes col) (\<lambda>min_max.
     bind_res (read_block (DataPointer col) (n * ElementWidth (col_type col))) (\<lambda>data.
       Inr (le_bytes (ColumnType_to_byte (col_type col)) @
            le_bytes (ucast (of_nat n - of_nat valid :: u64) :: u32) @
            bm_bytes (col_validity col) @ min_max @ le_bytes (col_checksum col) @ data @
            dictionary_bytes col))))"

definition segment_bytes :: "Segment \<Rightarrow> byte list res" where
  "segment_bytes seg =
     bind_res (map_res (column_bytes (seg_num_rows seg)) (seg_columns seg)) (\<lambda>cols.
       Inr (kMagic @ le_bytes (of_nat (length (seg_columns seg)) :: u32) @ le_bytes (seg_id seg) @
            le_bytes (of_nat (seg_num_rows seg) :: u32) @ concat cols))"

text \<open>
  \<^verbatim>\<open>SaveToFile\<close>: the files afterwards and whether it returned true (\<^verbatim>\<open>WriteOk\<close>) or which error message
  it set. A throw leaves a file nobody reads, so the files are not given in that case.
\<close>

definition SaveToFile :: "io_env \<Rightarrow> Segment \<Rightarrow> path \<Rightarrow> files \<Rightarrow> (files \<times> write_status) res" where
  "SaveToFile env seg p fs =
     (if env p = OpenFails then Inr (fs, CannotOpen)
      else bind_res (segment_bytes seg) (\<lambda>bs. Inr (write_file env p bs fs)))"

text \<open>The error messages of \<^verbatim>\<open>LoadFromFile\<close> with the numbers they print.\<close>

datatype LoadError =
    OpenFailed
  | BadMagic
  | TruncatedHeader
  | ColumnCountMismatch u32 nat
  | TruncatedColumnHeader nat
  | TypeMismatch nat ColumnType ColumnType
  | TruncatedNullCount nat
  | TruncatedBitmap nat
  | NullCountMismatch nat
  | TruncatedMinMaxFlag nat
  | TruncatedMinMax nat
  | TruncatedChecksum nat
  | TruncatedData nat
  | TruncatedDictSize nat
  | TruncatedDictEntry nat
  | ChecksumMismatch nat u32 u32

text \<open>The data block of \<open>n\<close> elements lands in the array its column type selects.\<close>

definition fill_data :: "ColumnType \<Rightarrow> nat \<Rightarrow> byte list \<Rightarrow> Column \<Rightarrow> Column" where
  "fill_data t n data col =
     (case t of
        kInt32 \<Rightarrow> col\<lparr>col_int32 := words_of n data\<rparr>
      | kInt64 \<Rightarrow> col\<lparr>col_int64 := words_of n data\<rparr>
      | kDouble \<Rightarrow> col\<lparr>col_double := words_of n data\<rparr>
      | kString \<Rightarrow> col\<lparr>col_codes := words_of n data\<rparr>
      | kUnknown _ \<Rightarrow> col)"

definition load_validity :: "nat \<Rightarrow> u32 \<Rightarrow> (LoadError, Bitmap) reader" where
  "load_validity c num_rows =
     bindR (readR (TruncatedNullCount c) read_word) (\<lambda>null_count :: u32.
     bindR (readR (TruncatedBitmap c) (read_bytes (unat (num_rows + 7) div 8))) (\<lambda>bitmap_bytes.
       let validity = FromBytes (unat num_rows) bitmap_bytes in
       bindR (liftR (CountValid validity)) (\<lambda>valid.
       bindR (rejectR (ucast num_rows - of_nat valid \<noteq> (ucast null_count :: u64)) (NullCountMismatch c)) (\<lambda>_.
         returnR validity))))"

definition load_min_max :: "nat \<Rightarrow> ColumnType \<Rightarrow> (LoadError, Value \<times> Value) reader" where
  "load_min_max c t =
     bindR (readR (TruncatedMinMaxFlag c) read_word) (\<lambda>has_min_max_byte :: byte.
       if has_min_max_byte \<noteq> 0 then
         bindR (readR (TruncatedMinMax c) (ReadTypedValue t)) (\<lambda>lo.
         bindR (readR (TruncatedMinMax c) (ReadTypedValue t)) (\<lambda>hi. returnR (lo, hi)))
       else returnR (Monostate, Monostate))"

definition load_dictionary :: "nat \<Rightarrow> ColumnType \<Rightarrow> (LoadError, Dictionary) reader" where
  "load_dictionary c t =
     (if t = kString then
        bindR (readR (TruncatedDictSize c) read_word) (\<lambda>dict_size :: u32.
        bindR (readR (TruncatedDictEntry c) (dec_many ReadString (unat dict_size))) (\<lambda>vs.
          liftR (FromValues vs)))
      else returnR empty_dict)"

definition load_column :: "nat \<Rightarrow> ColumnSchema \<Rightarrow> u32 \<Rightarrow> (LoadError, Column) reader" where
  "load_column c cs num_rows =
     bindR (readR (TruncatedColumnHeader c) read_word) (\<lambda>type_byte :: byte.
     let t = ColumnType_of_byte type_byte in
     bindR (rejectR (t \<noteq> cs_type cs) (TypeMismatch c t (cs_type cs))) (\<lambda>_.
     bindR (load_validity c num_rows) (\<lambda>validity.
     bindR (load_min_max c t) (\<lambda>(lo, hi).
     bindR (readR (TruncatedChecksum c) read_word) (\<lambda>stored_checksum :: u32.
     bindR (readR (TruncatedData c) (read_bytes (unat num_rows * ElementWidth t))) (\<lambda>data.
     bindR (load_dictionary c t) (\<lambda>dict.
       let col = fill_data t (unat num_rows) data
             (default_Column\<lparr>col_type := t, col_validity := validity, col_min := lo, col_max := hi, col_dict := dict\<rparr>) in
       bindR (liftR (ComputeColumnChecksum col)) (\<lambda>recomputed.
       bindR (rejectR (recomputed \<noteq> stored_checksum) (ChecksumMismatch c stored_checksum recomputed)) (\<lambda>_.
         returnR (col\<lparr>col_checksum := stored_checksum\<rparr>))))))))))"

fun load_columns :: "nat \<Rightarrow> Schema \<Rightarrow> u32 \<Rightarrow> (LoadError, Column list) reader" where
  "load_columns c [] num_rows = returnR []"
| "load_columns c (cs # schema) num_rows =
     bindR (load_column c cs num_rows) (\<lambda>col.
     bindR (load_columns (Suc c) schema num_rows) (\<lambda>cols. returnR (col # cols)))"

definition load_segment :: "Schema \<Rightarrow> (LoadError, Segment) reader" where
  "load_segment schema =
     bindR (readR BadMagic (read_bytes (length kMagic))) (\<lambda>magic.
     bindR (rejectR (magic \<noteq> kMagic) BadMagic) (\<lambda>_.
     bindR (readR TruncatedHeader read_word) (\<lambda>num_columns :: u32.
     bindR (readR TruncatedHeader read_word) (\<lambda>segment_id :: u64.
     bindR (readR TruncatedHeader read_word) (\<lambda>num_rows :: u32.
     bindR (rejectR (unat num_columns \<noteq> length schema) (ColumnCountMismatch num_columns (length schema))) (\<lambda>_.
     bindR (load_columns 0 schema num_rows) (\<lambda>cols.
       returnR \<lparr>seg_id = segment_id, seg_num_rows = unat num_rows, seg_schema = schema, seg_columns = cols\<rparr>)))))))"

definition LoadFromFile :: "files \<Rightarrow> path \<Rightarrow> Schema \<Rightarrow> LoadError failure + Segment" where
  "LoadFromFile fs p schema =
     (case fs p of
        None \<Rightarrow> Inl (Rejects OpenFailed)
      | Some bs \<Rightarrow> bind_res (load_segment schema bs) (\<lambda>(seg, _). Inr seg))"

section \<open>Typed values\<close>

definition storable :: "ColumnType \<Rightarrow> Value \<Rightarrow> bool" where
  "storable t v \<longleftrightarrow> value_has_type t v \<and> v \<noteq> Monostate \<and> (\<forall>s. v = VString s \<longrightarrow> length s < 2 ^ 32)"

definition typed_bytes :: "ColumnType \<Rightarrow> Value \<Rightarrow> byte list" where
  "typed_bytes t v = (case WriteTypedValue t v of Inr bs \<Rightarrow> bs | Inl _ \<Rightarrow> [])"

lemma WriteTypedValue_storable: "storable t v \<Longrightarrow> WriteTypedValue t v = Inr (typed_bytes t v)"
  by (cases v) (auto simp: storable_def typed_bytes_def WriteTypedValue_def value_has_type_def)

lemma ReadTypedValue_enc: "storable t v \<Longrightarrow> ReadTypedValue t (typed_bytes t v @ rest) = Some (v, rest)"
  by (cases v) (auto simp: storable_def typed_bytes_def WriteTypedValue_def ReadTypedValue_def value_has_type_def
      ReadString_WriteString)

lemma ReadTypedValue_more:
  assumes "ReadTypedValue t bs = Some (v, rest)"
  shows "ReadTypedValue t (bs @ u) = Some (v, rest @ u)"
  using assms
  by (cases t) (auto simp: ReadTypedValue_def read_word_more ReadString_more)

interpretation typed_value: stream_codec "typed_bytes t" "ReadTypedValue t" "storable t"
  by unfold_locales (simp_all add: ReadTypedValue_enc ReadTypedValue_more)

section \<open>Stability of the loader\<close>

lemmas stable_reads [stable_intros] =
  stable_readR [OF read_word_more] stable_readR [OF read_bytes_more] stable_readR [OF ReadTypedValue_more]
  stable_readR [OF string_codec.dec_many_more]

lemma stable_load_validity [stable_intros]: "stable (load_validity c n)"
  unfolding load_validity_def Let_def by (intro stable_intros)

lemma stable_load_min_max [stable_intros]: "stable (load_min_max c t)"
  unfolding load_min_max_def by (intro stable_intros)

lemma stable_load_dictionary [stable_intros]: "stable (load_dictionary c t)"
  unfolding load_dictionary_def by (intro stable_intros)

lemma stable_load_column [stable_intros]: "stable (load_column c cs n)"
  unfolding load_column_def Let_def by (intro stable_intros; clarsimp; intro stable_intros)

lemma stable_load_columns [stable_intros]: "stable (load_columns c schema n)"
  by (induction schema arbitrary: c) (auto intro: stable_intros simp del: reader_simps)

lemma stable_load_segment: "stable (load_segment schema)"
  unfolding load_segment_def by (intro stable_intros)

section \<open>Loading what was saved\<close>

text \<open>The sizes the 32-bit fields of the format can hold; \<open>n + 7\<close> because the loader rounds up at that width.\<close>

definition fits_file :: "nat \<Rightarrow> Column \<Rightarrow> bool" where
  "fits_file n col \<longleftrightarrow> n + 7 < 2 ^ 32 \<and> length (dict_values (col_dict col)) < 2 ^ 32 \<and>
     (\<forall>s\<in>set (dict_values (col_dict col)). length s < 2 ^ 32) \<and>
     (\<forall>s. col_min col = VString s \<or> col_max col = VString s \<longrightarrow> length s < 2 ^ 32)"

lemma null_count_word:
  assumes "valid \<le> n" "n < 2 ^ 32"
  shows "ucast (ucast (of_nat n - of_nat valid :: u64) :: u32) = (of_nat n - of_nat valid :: u64)"
proof -
  have eq: "of_nat n - of_nat valid = (of_nat (n - valid) :: u64)" using assms(1) by simp
  have k: "n - valid < 2 ^ 32" using assms by simp
  have "(ucast (of_nat (n - valid) :: u64) :: u32) = of_nat (n - valid)"
    using k by (simp add: word_eq_iff_unsigned unsigned_ucast_eq unsigned_of_nat take_bit_nat_eq_self)
  moreover have "(ucast (of_nat (n - valid) :: u32) :: u64) = of_nat (n - valid)"
    using k by (simp add: word_eq_iff_unsigned unsigned_ucast_eq unsigned_of_nat take_bit_nat_eq_self)
  ultimately show ?thesis unfolding eq by metis
qed

lemma load_validity_bytes:
  assumes "wf_bitmap bm" "bm_num_rows bm = n" "n + 7 < 2 ^ 32" "CountValid bm = Inr valid"
  shows "load_validity c (of_nat n) (le_bytes (ucast (of_nat n - of_nat valid :: u64) :: u32) @ bm_bytes bm @ rest) =
    Inr (bm, rest)"
proof -
  have n: "unat (of_nat n :: u32) = n" using assms(3) by (simp add: unat_of_nat)
  have "unat (of_nat n + 7 :: u32) = n + 7"
    using assms(3) unat_of_nat [of "n + 7", where 'a = 32] by simp
  with assms(1,2) have len: "length (bm_bytes bm) = unat (of_nat n + 7 :: u32) div 8" by (simp add: wf_bitmap_def)
  have "valid \<le> n"
    using assms(1,2,4) count_le_length [of "bitmap_bits bm" True] bm.length_abs [OF assms(1)]
    by (simp add: CountValid_bits)
  then have nc: "ucast (ucast (of_nat n - of_nat valid :: u64) :: u32) = (of_nat n - of_nat valid :: u64)"
    using assms(3) by (intro null_count_word) auto
  have un: "ucast (of_nat n :: u32) = (of_nat n :: u64)"
    using assms(3) by (simp add: word_eq_iff_unsigned unsigned_ucast_eq unsigned_of_nat take_bit_nat_eq_self)
  show ?thesis
    using FromBytes_raw [of bm] assms(2,4)
    by (simp add: load_validity_def Let_def len n nc un)
qed

lemma load_min_max_bytes:
  assumes "col_min col = Monostate \<longleftrightarrow> col_max col = Monostate"
    and "value_has_type (col_type col) (col_min col)" "value_has_type (col_type col) (col_max col)"
    and "fits_file n col"
  shows "\<exists>bs. min_max_bytes col = Inr bs \<and>
    (\<forall>rest. load_min_max c (col_type col) (bs @ rest) = Inr ((col_min col, col_max col), rest))"
proof (cases "col_min col = Monostate")
  case True
  then show ?thesis using assms(1) by (auto simp: min_max_bytes_def load_min_max_def)
next
  case False
  with assms have "storable (col_type col) (col_min col)" "storable (col_type col) (col_max col)"
    by (auto simp: storable_def fits_file_def)
  then show ?thesis using False
    by (auto simp: min_max_bytes_def load_min_max_def WriteTypedValue_storable ReadTypedValue_enc)
qed

lemma load_dictionary_bytes:
  assumes "wf_dict (col_dict col)" "col_type col \<noteq> kString \<longrightarrow> col_dict col = empty_dict" "fits_file n col"
  shows "load_dictionary c (col_type col) (dictionary_bytes col @ rest) = Inr (col_dict col, rest)"
proof -
  have fits: "length (dict_values (col_dict col)) < 2 ^ 32" using assms(3) by (simp add: fits_file_def)
  have "unat (of_nat (length (dict_values (col_dict col))) :: u32) = length (dict_values (col_dict col))"
    using assms(3) by (simp add: unat_of_nat fits_file_def)
  moreover have "list_all (\<lambda>s. length s < 2 ^ 32) (dict_values (col_dict col))"
    using assms(3) by (simp add: fits_file_def list_all_iff)
  ultimately show ?thesis
    using assms(1,2) fits by (simp add: load_dictionary_def dictionary_bytes_def string_codec.dec_many_enc FromValues_eq dict_of_values)
qed

lemma fill_data_DataPointer:
  assumes "shape_ok n col"
  shows "fill_data (col_type col) n (DataPointer col)
      (default_Column\<lparr>col_type := col_type col, col_validity := col_validity col, col_min := col_min col,
         col_max := col_max col, col_dict := col_dict col\<rparr>)\<lparr>col_checksum := col_checksum col\<rparr> = col"
  using assms by (cases col; cases "col_type col")
    (auto simp: fill_data_def default_Column_def DataPointer_def shape_ok_def known_type_def)

lemma ComputeColumnChecksum_upd:
  "ComputeColumnChecksum (col\<lparr>col_checksum := crc\<rparr>) = ComputeColumnChecksum col"
  by (cases "col_type col") (simp_all add: ComputeColumnChecksum_def DataPointer_def col_num_rows_def)

lemma ColumnType_byte: "known_type t \<Longrightarrow> ColumnType_of_byte (ColumnType_to_byte t) = t"
  by (cases t) (auto simp: known_type_def ColumnType_of_byte_def ColumnType_to_byte_def)

definition readable :: "nat \<Rightarrow> Column \<Rightarrow> bool" where
  "readable n col \<longleftrightarrow> shape_ok n col \<and> fits_file n col \<and> (col_min col = Monostate \<longleftrightarrow> col_max col = Monostate) \<and>
     value_has_type (col_type col) (col_min col) \<and> value_has_type (col_type col) (col_max col)"

text \<open>
  The bytes of a readable column are parsed to its end; then the recorded checksum decides.
\<close>

lemma load_column_bytes:
  assumes col: "readable n col" and t: "col_type col = cs_type cs"
  shows "\<exists>bs. column_bytes n col = Inr bs \<and> (\<forall>c rest. load_column c cs (of_nat n) (bs @ rest) =
    (if col_checksum col = Crc32c (checksum_input col) then Inr (col, rest)
     else Inl (Rejects (ChecksumMismatch c (col_checksum col) (Crc32c (checksum_input col))))))"
proof -
  have shape: "shape_ok n col" and fit: "fits_file n col" using col by (simp_all add: readable_def)
  have bm: "wf_bitmap (col_validity col)" "bm_num_rows (col_validity col) = n" and known: "known_type (col_type col)"
    and dict: "wf_dict (col_dict col)" "col_type col \<noteq> kString \<longrightarrow> col_dict col = empty_dict"
    using shape by (simp_all add: shape_ok_def col_num_rows_def)
  have n: "n + 7 < 2 ^ 32" "unat (of_nat n :: u32) = n" using fit by (simp_all add: fits_file_def unat_of_nat)
  obtain valid where v: "CountValid (col_validity col) = Inr valid" using CountValid_bits [OF bm(1)] by blast
  obtain mm where mm: "min_max_bytes col = Inr mm"
    "\<And>c rest. load_min_max c (col_type col) (mm @ rest) = Inr ((col_min col, col_max col), rest)"
    using load_min_max_bytes [of col n] col by (metis readable_def sum.inject(2))
  have len: "length (DataPointer col) = n * ElementWidth (col_type col)" by (rule length_DataPointer [OF shape])
  let ?col = "fill_data (col_type col) n (DataPointer col)
      (default_Column\<lparr>col_type := col_type col, col_validity := col_validity col, col_min := col_min col,
         col_max := col_max col, col_dict := col_dict col\<rparr>)"
  have col: "?col\<lparr>col_checksum := col_checksum col\<rparr> = col" by (rule fill_data_DataPointer [OF shape])
  then have crc': "ComputeColumnChecksum ?col = Inr (Crc32c (checksum_input col))"
    using ComputeColumnChecksum_upd [of "col_checksum col" ?col] ComputeColumnChecksum_input [OF shape] by simp
  have load: "load_column c cs (of_nat n) (le_bytes (ColumnType_to_byte (col_type col)) @
      le_bytes (ucast (of_nat n - of_nat valid :: u64) :: u32) @ bm_bytes (col_validity col) @ mm @
      le_bytes (col_checksum col) @ DataPointer col @ dictionary_bytes col @ rest) =
      (if col_checksum col = Crc32c (checksum_input col) then Inr (col, rest)
       else Inl (Rejects (ChecksumMismatch c (col_checksum col) (Crc32c (checksum_input col)))))" for c rest
    using load_validity_bytes [OF bm n(1) v] load_dictionary_bytes [OF dict fit] crc' col
    by (auto simp: load_column_def Let_def ColumnType_byte [OF known] mm(2) len n(2) t [symmetric])
  show ?thesis using v mm(1) len load by (simp add: column_bytes_def read_block_def)
qed

text \<open>What loading a file makes of the verdict of \<^verbatim>\<open>VerifyIntegrity\<close> on the segment it holds.\<close>

fun load_verdict :: "(nat \<times> u32 \<times> u32) option res \<Rightarrow> 'a \<Rightarrow> LoadError failure + 'a" where
  "load_verdict (Inl e) x = Inl (Throws e)"
| "load_verdict (Inr None) x = Inr x"
| "load_verdict (Inr (Some (c, expected, got))) x = Inl (Rejects (ChecksumMismatch c expected got))"

lemma load_columns_bytes:
  assumes "list_all2 (\<lambda>cs col. readable n col \<and> col_type col = cs_type cs) schema cols"
  shows "\<exists>bss. map_res (column_bytes n) cols = Inr bss \<and>
    (\<forall>c rest. load_columns c schema (of_nat n) (concat bss @ rest) = load_verdict (verify_columns c cols) (cols, rest))"
  using assms
proof (induction rule: list_all2_induct)
  case (Cons cs schema col cols)
  then obtain bss where bss: "map_res (column_bytes n) cols = Inr bss"
    "\<And>c rest. load_columns c schema (of_nat n) (concat bss @ rest) = load_verdict (verify_columns c cols) (cols, rest)"
    by blast
  from Cons(1) load_column_bytes [of n col cs] obtain bs where bs: "column_bytes n col = Inr bs"
    "\<And>c rest. load_column c cs (of_nat n) (bs @ rest) = (if col_checksum col = Crc32c (checksum_input col) then Inr (col, rest)
      else Inl (Rejects (ChecksumMismatch c (col_checksum col) (Crc32c (checksum_input col)))))"
    by auto
  have crc: "ComputeColumnChecksum col = Inr (Crc32c (checksum_input col))"
    using Cons(1) ComputeColumnChecksum_input by (auto simp: readable_def)
  have push: "bind_res (load_verdict v (cols, rest)) (\<lambda>(cols, bs). Inr (col # cols, bs)) = load_verdict v (col # cols, rest)"
    for v and rest :: "byte list" by (cases "(v, (cols, rest))" rule: load_verdict.cases) auto
  have "load_columns c (cs # schema) (of_nat n) (concat (bs # bss) @ rest) =
      load_verdict (verify_columns c (col # cols)) (col # cols, rest)" for c rest
    using bs(2) bss(2) push by (simp add: crc)
  with bs(1) bss(1) show ?case by auto
qed simp

definition loadable :: "Segment \<Rightarrow> bool" where
  "loadable seg \<longleftrightarrow> length (seg_columns seg) < 2 ^ 32 \<and> seg_num_rows seg < 2 ^ 32 \<and>
     list_all2 (\<lambda>cs col. readable (seg_num_rows seg) col \<and> col_type col = cs_type cs) (seg_schema seg) (seg_columns seg)"

lemma load_segment_bytes:
  assumes "loadable seg"
  shows "\<exists>bs. segment_bytes seg = Inr bs \<and>
    (\<forall>rest. load_segment (seg_schema seg) (bs @ rest) = load_verdict (VerifyIntegrity seg) (seg, rest))"
proof -
  let ?n = "seg_num_rows seg"
  note cols = assms [unfolded loadable_def, THEN conjunct2, THEN conjunct2]
  from load_columns_bytes [OF cols] obtain bss where bss: "map_res (column_bytes ?n) (seg_columns seg) = Inr bss"
    "\<And>rest. load_columns 0 (seg_schema seg) (of_nat ?n) (concat bss @ rest) =
      load_verdict (VerifyIntegrity seg) (seg_columns seg, rest)"
    by (auto simp: VerifyIntegrity_def)
  have push: "bind_res (load_verdict v (seg_columns seg, rest))
      (\<lambda>(cols, bs). Inr (\<lparr>seg_id = seg_id seg, seg_num_rows = ?n, seg_schema = seg_schema seg, seg_columns = cols\<rparr>, bs)) =
      load_verdict v (seg, rest)" for v and rest :: "byte list"
    by (cases "(v, (seg, rest))" rule: load_verdict.cases) auto
  have "length (seg_schema seg) = length (seg_columns seg)" using cols by (rule list_all2_lengthD)
  moreover have "unat (of_nat (length (seg_columns seg)) :: u32) = length (seg_columns seg)" "unat (of_nat ?n :: u32) = ?n"
    using assms by (simp_all add: loadable_def unat_of_nat)
  ultimately show ?thesis using bss push by (simp add: segment_bytes_def load_segment_def)
qed

lemma VerifyIntegrity_ok:
  assumes "\<forall>col\<in>set (seg_columns seg). ComputeColumnChecksum col = Inr (col_checksum col)"
  shows "VerifyIntegrity seg = Inr None"
proof -
  have "verify_columns c cols = Inr None" if "\<forall>col\<in>set cols. ComputeColumnChecksum col = Inr (col_checksum col)" for c cols
    using that by (induction cols arbitrary: c) auto
  with assms show ?thesis by (simp add: VerifyIntegrity_def)
qed

lemma verify_columns_first:
  assumes "\<forall>col\<in>set pre. ComputeColumnChecksum col = Inr (col_checksum col)"
    and "ComputeColumnChecksum col = Inr crc" "crc \<noteq> col_checksum col"
  shows "verify_columns c (pre @ col # suf) = Inr (Some (c + length pre, col_checksum col, crc))"
  using assms by (induction pre arbitrary: c) auto

text \<open>A well-formed segment whose sizes the 32-bit fields hold.\<close>

definition savable :: "Segment \<Rightarrow> bool" where
  "savable seg \<longleftrightarrow> wf_segment seg \<and> length (seg_columns seg) < 2 ^ 32 \<and> seg_num_rows seg < 2 ^ 32 \<and>
     (\<forall>col\<in>set (seg_columns seg). fits_file (seg_num_rows seg) col)"

lemma savable_checksums:
  "savable seg \<Longrightarrow> \<forall>col\<in>set (seg_columns seg). ComputeColumnChecksum col = Inr (col_checksum col)"
  by (auto simp: savable_def wf_segment_def wf_column_def list_all2_conv_all_nth in_set_conv_nth)

lemma savable_loadable: "savable seg \<Longrightarrow> loadable seg"
  by (auto simp: savable_def loadable_def wf_segment_def wf_column_def readable_def list_all2_conv_all_nth)

lemma savable_bytes:
  assumes "savable seg"
  shows "\<exists>bs. segment_bytes seg = Inr bs \<and> (\<forall>rest. load_segment (seg_schema seg) (bs @ rest) = Inr (seg, rest))"
  using load_segment_bytes [OF savable_loadable [OF assms]]
  by (simp add: VerifyIntegrity_ok [OF savable_checksums [OF assms]])

section \<open>Accepted files\<close>

lemma load_column_accepts:
  assumes "load_column c cs n bs = Inr (col, rest)"
  shows "ComputeColumnChecksum col = Inr (col_checksum col) \<and> col_type col = cs_type cs \<and> col_num_rows col = unat n"
proof -
  have fd: "col_type (fill_data t k data col0) = col_type col0" "col_validity (fill_data t k data col0) = col_validity col0"
    for t k data col0 by (cases t; simp add: fill_data_def)+
  have rows: "load_validity c n bs = Inr (bm, bs') \<Longrightarrow> bm_num_rows bm = unat n" for bs bm bs'
    by (auto simp: load_validity_def Let_def reader_accepts FromBytes_def)
  have "\<exists>bs0 bs1 bm. load_validity c n bs0 = Inr (bm, bs1) \<and> col_validity col = bm \<and>
      ComputeColumnChecksum col = Inr (col_checksum col) \<and> col_type col = cs_type cs"
    using assms
    by (auto simp: load_column_def Let_def reader_accepts fd ComputeColumnChecksum_upd; blast)
  then show ?thesis using rows by (auto simp: col_num_rows_def)
qed

lemma load_columns_accepts:
  assumes "load_columns c schema n bs = Inr (cols, rest)"
  shows "list_all2 (\<lambda>cs col. ComputeColumnChecksum col = Inr (col_checksum col) \<and> col_type col = cs_type cs \<and>
    col_num_rows col = unat n) schema cols"
  using assms by (induction schema arbitrary: c bs cols) (auto dest: load_column_accepts)

lemma LoadFromFile_ok:
  assumes "LoadFromFile fs p schema = Inr seg"
  shows "VerifyIntegrity seg = Inr None \<and> seg_schema seg = schema \<and>
    list_all2 (\<lambda>cs col. col_type col = cs_type cs \<and> col_num_rows col = seg_num_rows seg) schema (seg_columns seg)"
proof -
  from assms obtain bs n rest where "load_columns 0 schema n bs = Inr (seg_columns seg, rest)"
    and seg: "seg_num_rows seg = unat n" "seg_schema seg = schema"
    by (auto simp: LoadFromFile_def load_segment_def split: option.splits)
  note cols = load_columns_accepts [OF this(1)]
  then have "\<forall>col\<in>set (seg_columns seg). ComputeColumnChecksum col = Inr (col_checksum col)"
    by (auto simp: list_all2_conv_all_nth in_set_conv_nth)
  from VerifyIntegrity_ok [OF this] cols seg show ?thesis by (auto simp: list_all2_conv_all_nth)
qed

section \<open>Damaged files\<close>

text \<open>Where the data block of a column starts in the file of a segment.\<close>

definition data_offset :: "Segment \<Rightarrow> nat \<Rightarrow> nat res" where
  "data_offset seg c =
     bind_res (map_res (column_bytes (seg_num_rows seg)) (take c (seg_columns seg))) (\<lambda>before.
     bind_res (min_max_bytes (seg_columns seg ! c)) (\<lambda>min_max.
       Inr (24 + length (concat before) + 5 + length (bm_bytes (col_validity (seg_columns seg ! c))) + length min_max + 4)))"

lemma fill_data_facts:
  assumes "shape_ok n col" "length data = length (DataPointer col)"
  shows "DataPointer (fill_data (col_type col) n data col) = data" "shape_ok n (fill_data (col_type col) n data col)"
    "col_type (fill_data (col_type col) n data col) = col_type col" "col_validity (fill_data (col_type col) n data col) = col_validity col"
    "col_min (fill_data (col_type col) n data col) = col_min col" "col_max (fill_data (col_type col) n data col) = col_max col"
    "col_checksum (fill_data (col_type col) n data col) = col_checksum col" "col_dict (fill_data (col_type col) n data col) = col_dict col"
  using assms length_DataPointer [OF assms(1)]
  by (cases "col_type col"; simp add: fill_data_def DataPointer_def shape_ok_def known_type_def ElementWidth_def concat_words_of col_num_rows_def)+

lemma column_data_block:
  assumes "column_bytes n col = Inr bs" "shape_ok n col" "min_max_bytes col = Inr mm"
  obtains h t where "bs = h @ DataPointer col @ t" "length h = 5 + length (bm_bytes (col_validity col)) + length mm + 4"
    "\<forall>data. length data = length (DataPointer col) \<longrightarrow> column_bytes n (fill_data (col_type col) n data col) = Inr (h @ data @ t)"
proof -
  note len = length_DataPointer [OF assms(2)]
  obtain valid where v: "CountValid (col_validity col) = Inr valid" using assms(1) by (auto simp: column_bytes_def)
  let ?h = "le_bytes (ColumnType_to_byte (col_type col)) @ le_bytes (ucast (of_nat n - of_nat valid :: u64) :: u32) @
    bm_bytes (col_validity col) @ mm @ le_bytes (col_checksum col)"
  have "column_bytes n (fill_data (col_type col) n data col) = Inr (?h @ data @ dictionary_bytes col)"
    if "length data = length (DataPointer col)" for data
  proof -
    note f = fill_data_facts [OF assms(2) that]
    have "min_max_bytes (fill_data (col_type col) n data col) = Inr mm" "dictionary_bytes (fill_data (col_type col) n data col) = dictionary_bytes col"
      using assms(3) unfolding min_max_bytes_def dictionary_bytes_def f by simp_all
    then show ?thesis using v len that by (simp add: column_bytes_def read_block_def f)
  qed
  moreover have "bs = ?h @ DataPointer col @ dictionary_bytes col"
    using assms(1,3) v len by (simp add: column_bytes_def read_block_def)
  ultimately show thesis by (intro that [of ?h "dictionary_bytes col"]) simp_all
qed

lemma file_data_block:
  assumes "segment_bytes seg = Inr file" "c < length (seg_columns seg)" "shape_ok (seg_num_rows seg) (seg_columns seg ! c)"
    and "data_offset seg c = Inr off"
  obtains a b where "file = a @ DataPointer (seg_columns seg ! c) @ b" "length a = off"
    "\<forall>data. length data = length (DataPointer (seg_columns seg ! c)) \<longrightarrow>
      segment_bytes (seg\<lparr>seg_columns := take c (seg_columns seg) @
        fill_data (col_type (seg_columns seg ! c)) (seg_num_rows seg) data (seg_columns seg ! c) # drop (Suc c) (seg_columns seg)\<rparr>) =
      Inr (a @ data @ b)"
proof -
  let ?cols = "seg_columns seg" and ?n = "seg_num_rows seg"
  let ?head = "kMagic @ le_bytes (of_nat (length ?cols) :: u32) @ le_bytes (seg_id seg) @ le_bytes (of_nat ?n :: u32)"
  obtain before mm where o: "map_res (column_bytes ?n) (take c ?cols) = Inr before" "min_max_bytes (?cols ! c) = Inr mm"
    "off = 24 + length (concat before) + 5 + length (bm_bytes (col_validity (?cols ! c))) + length mm + 4"
    using assms(4) by (auto simp: data_offset_def)
  have split: "?cols = take c ?cols @ ?cols ! c # drop (Suc c) ?cols" using assms(2) by (rule id_take_nth_drop)
  have "\<exists>bss. map_res (column_bytes ?n) ?cols = Inr bss \<and> file = ?head @ concat bss" using assms(1) by (auto simp: segment_bytes_def)
  then obtain bss where all: "map_res (column_bytes ?n) (take c ?cols @ ?cols ! c # drop (Suc c) ?cols) = Inr bss" "file = ?head @ concat bss"
    using split by auto
  then obtain bs after where b: "column_bytes ?n (?cols ! c) = Inr bs" "map_res (column_bytes ?n) (drop (Suc c) ?cols) = Inr after"
    "bss = before @ bs # after" using o(1) by (auto simp: map_res_append)
  obtain h t where h: "bs = h @ DataPointer (?cols ! c) @ t" "length h = 5 + length (bm_bytes (col_validity (?cols ! c))) + length mm + 4"
    "\<forall>data. length data = length (DataPointer (?cols ! c)) \<longrightarrow>
      column_bytes ?n (fill_data (col_type (?cols ! c)) ?n data (?cols ! c)) = Inr (h @ data @ t)"
    by (rule column_data_block [OF b(1) assms(3) o(2)])
  have len: "length (take c ?cols @ col # drop (Suc c) ?cols) = length ?cols" for col using assms(2) by simp
  show thesis
  proof (rule that [of "?head @ concat before @ h" "t @ concat after"])
    show "file = (?head @ concat before @ h) @ DataPointer (?cols ! c) @ t @ concat after" by (simp add: all(2) b(3) h(1))
    show "length (?head @ concat before @ h) = off" by (simp add: o(3) h(2) kMagic_def)
    show "\<forall>data. length data = length (DataPointer (?cols ! c)) \<longrightarrow> segment_bytes (seg\<lparr>seg_columns := take c ?cols @
        fill_data (col_type (?cols ! c)) ?n data (?cols ! c) # drop (Suc c) ?cols\<rparr>) = Inr ((?head @ concat before @ h) @ data @ t @ concat after)"
      using h(3) o(1) b(2) len by (simp add: segment_bytes_def map_res_append)
  qed
qed
lemma damaged_column_rejected:
  assumes "savable seg" and "seg_columns seg = pre @ col # suf"
    and "loadable (seg\<lparr>seg_columns := pre @ col' # suf\<rparr>)" and "col_checksum col' = col_checksum col"
    and "checksum_input col = b1 @ xs @ b2" and "checksum_input col' = b1 @ ys @ b2"
    and "length xs = length ys" and "length xs \<le> 4" and "xs \<noteq> ys"
  shows "\<exists>bs. segment_bytes (seg\<lparr>seg_columns := pre @ col' # suf\<rparr>) = Inr bs \<and>
    LoadFromFile (fs(p \<mapsto> bs)) p (seg_schema seg) =
      Inl (Rejects (ChecksumMismatch (length pre) (col_checksum col) (Crc32c (checksum_input col'))))"
proof -
  let ?seg = "seg\<lparr>seg_columns := pre @ col' # suf\<rparr>"
  obtain bs where bs: "segment_bytes ?seg = Inr bs"
    "\<And>rest. load_segment (seg_schema seg) (bs @ rest) = load_verdict (VerifyIntegrity ?seg) (?seg, rest)"
    using load_segment_bytes [OF assms(3)] by auto
  have ok: "\<forall>x\<in>set (pre @ col # suf). ComputeColumnChecksum x = Inr (col_checksum x)"
    using savable_checksums [OF assms(1)] assms(2) by simp
  have "shape_ok (seg_num_rows seg) col"
    using assms(1,2) by (auto simp: savable_def wf_segment_def wf_column_def list_all2_append2 list_all2_Cons2)
  with ok have crc: "col_checksum col = Crc32c (checksum_input col)" by (simp add: ComputeColumnChecksum_input)
  have "shape_ok (seg_num_rows seg) col'"
    using assms(3) by (auto simp: loadable_def readable_def list_all2_append2 list_all2_Cons2)
  then have crc': "ComputeColumnChecksum col' = Inr (Crc32c (checksum_input col'))" by (rule ComputeColumnChecksum_input)
  have "Crc32c (checksum_input col') \<noteq> col_checksum col'"
    using assms(4) crc crc32c.damage_detected [OF assms(7-9), of 0 b1 b2] by (simp add: Crc32c_def assms(5,6))
  with ok crc' have "VerifyIntegrity ?seg =
      Inr (Some (length pre, col_checksum col, Crc32c (checksum_input col')))"
    using assms(4) verify_columns_first [of pre col' _ 0 suf] by (simp add: VerifyIntegrity_def)
  with bs(1) bs(2) [of "[]"] show ?thesis by (simp add: LoadFromFile_def)
qed

section \<open>Properties\<close>

text \<open>
  C11: saving a well-formed segment whose sizes fit the format succeeds when the file can be written,
  and loading the file with the segment's schema gives the identical segment: identifier, bitmaps,
  data, dictionary, bounds and checksums. No other file changes.
\<close>

theorem SaveToFile_LoadFromFile:
  assumes "savable seg" and "env p = Written"
  shows "\<exists>fs'. SaveToFile env seg p fs = Inr (fs', WriteOk) \<and> LoadFromFile fs' p (seg_schema seg) = Inr seg \<and>
    (\<forall>q. q \<noteq> p \<longrightarrow> fs' q = fs q)"
proof -
  obtain bs where bs: "segment_bytes seg = Inr bs" "\<And>rest. load_segment (seg_schema seg) (bs @ rest) = Inr (seg, rest)"
    using savable_bytes [OF assms(1)] by blast
  from bs(2) [of "[]"] have "load_segment (seg_schema seg) bs = Inr (seg, [])" by simp
  with bs(1) assms(2) show ?thesis by (simp add: SaveToFile_def LoadFromFile_def)
qed

definition sample_segment :: Segment where
  "sample_segment =
     (let col = \<lparr>col_type = kString, col_validity = \<lparr>bm_num_rows = 1, bm_bytes = [1]\<rparr>, col_min = VString [97],
            col_max = VString [97], col_checksum = 0, col_int32 = [], col_int64 = [], col_double = [],
            col_codes = [0], col_dict = dict_of [[97]]\<rparr>
      in \<lparr>seg_id = 3, seg_num_rows = 1, seg_schema = [\<lparr>cs_name = ''s'', cs_type = kString\<rparr>],
          seg_columns = [col\<lparr>col_checksum := Crc32c (checksum_input col)\<rparr>]\<rparr>)"

lemma sample_segment_savable: "savable sample_segment"
proof -
  have "wf_dict (dict_of [[97]])" by (rule wf_dict_of) simp_all
  then have "wf_segment sample_segment"
    by (simp add: wf_segment_def wf_column_def sample_segment_def Let_def ComputeColumnChecksum_input [of 1]
        shape_ok_def wf_bitmap_def col_num_rows_def known_type_def value_has_type_def)
      (simp add: checksum_input_def DataPointer_def)
  then show ?thesis
    by (simp add: savable_def) (simp add: sample_segment_def Let_def fits_file_def dict_of_def)
qed

theorem SaveToFile_LoadFromFile_witness:
  "\<exists>fs'. SaveToFile (\<lambda>_. Written) sample_segment ''a.seg'' Map.empty = Inr (fs', WriteOk) \<and>
    LoadFromFile fs' ''a.seg'' (seg_schema sample_segment) = Inr sample_segment"
  using SaveToFile_LoadFromFile [OF sample_segment_savable, of "\<lambda>_. Written" "''a.seg''" Map.empty] by auto

text \<open>
  C25: a save that is cut short, noticed or not, leaves a file that \<^verbatim>\<open>LoadFromFile\<close> rejects with an
  error: no proper prefix of a saved file is taken for a segment, and none makes the loader throw.
\<close>

theorem LoadFromFile_rejects_truncated:
  assumes "savable seg" and "segment_bytes seg = Inr bs" and "env p = Short n noticed" and "n < length bs"
  shows "\<exists>fs' status e. SaveToFile env seg p fs = Inr (fs', status) \<and>
    (status = WriteOk \<longleftrightarrow> \<not> noticed) \<and> LoadFromFile fs' p (seg_schema seg) = Inl (Rejects e)"
proof -
  have full: "load_segment (seg_schema seg) (take n bs @ drop n bs) = Inr (seg, [])"
    using savable_bytes [OF assms(1)] assms(2) by (metis append.right_neutral append_take_drop_id sum.inject(2))
  moreover have "drop n bs \<noteq> []" using assms(4) by simp
  ultimately obtain e where "load_segment (seg_schema seg) (take n bs) = Inl (Rejects e)"
    using stable_truncated [OF stable_load_segment] by blast
  with assms(2,3) show ?thesis by (simp add: SaveToFile_def LoadFromFile_def write_file_def)
qed

theorem LoadFromFile_rejects_truncated_witness:
  "\<exists>fs' e. SaveToFile (\<lambda>_. Short 5 False) sample_segment ''a.seg'' Map.empty = Inr (fs', WriteOk) \<and>
    LoadFromFile fs' ''a.seg'' (seg_schema sample_segment) = Inl (Rejects e)"
proof -
  obtain bs where bs: "segment_bytes sample_segment = Inr bs" using savable_bytes [OF sample_segment_savable] by blast
  then have "5 < length bs" by (auto simp: segment_bytes_def kMagic_def)
  from LoadFromFile_rejects_truncated [OF sample_segment_savable bs, of "\<lambda>_. Short 5 False" "''a.seg''" 5 False, OF refl this]
  show ?thesis by blast
qed

text \<open>
  C15: whatever bytes a file holds, a segment that \<^verbatim>\<open>LoadFromFile\<close> returns has the expected schema, the
  column types of that schema, one validity bit per row, and passes \<^verbatim>\<open>VerifyIntegrity\<close>.
\<close>

theorem LoadFromFile_verified:
  assumes "LoadFromFile fs p schema = Inr seg"
  shows "VerifyIntegrity seg = Inr None \<and> seg_schema seg = schema \<and>
    list_all2 (\<lambda>cs col. col_type col = cs_type cs \<and> col_num_rows col = seg_num_rows seg) schema (seg_columns seg)"
  using LoadFromFile_ok [OF assms] .

theorem LoadFromFile_verified_witness:
  "\<exists>fs. LoadFromFile fs ''a.seg'' (seg_schema sample_segment) = Inr sample_segment \<and>
    VerifyIntegrity sample_segment = Inr None"
proof -
  obtain bs where "\<And>rest. load_segment (seg_schema sample_segment) (bs @ rest) = Inr (sample_segment, rest)"
    using savable_bytes [OF sample_segment_savable] by blast
  from this [of "[]"] have l: "LoadFromFile [''a.seg'' \<mapsto> bs] ''a.seg'' (seg_schema sample_segment) = Inr sample_segment"
    by (simp add: LoadFromFile_def)
  with LoadFromFile_verified [OF l] show ?thesis by blast
qed

text \<open>
  C26: damage to the data of a column is detected. Take a file that \<^verbatim>\<open>SaveToFile\<close> wrote for a well-formed segment, and
  overwrite up to four successive bytes within the data block of a column (its numbers, or its dictionary codes)
  with different ones. \<^verbatim>\<open>LoadFromFile\<close> rejects the file with a checksum mismatch that names the column and
  the recorded checksum.
\<close>

theorem LoadFromFile_detects_damage:
  assumes "savable seg" and "c < length (seg_columns seg)" and "env p = Written" and "SaveToFile env seg p fs = Inr (fs', WriteOk)"
    and "fs' p = Some file" and "data_offset seg c = Inr off" and "off \<le> i"
    and "i + length ys \<le> off + seg_num_rows seg * ElementWidth (col_type (seg_columns seg ! c))"
    and "length ys \<le> 4" and "take (length ys) (drop i file) \<noteq> ys"
  shows "\<exists>crc. LoadFromFile (fs'(p \<mapsto> take i file @ ys @ drop (i + length ys) file)) p (seg_schema seg) =
    Inl (Rejects (ChecksumMismatch c (col_checksum (seg_columns seg ! c)) crc))"
proof -
  let ?n = "seg_num_rows seg" and ?cols = "seg_columns seg"
  define col where "col = ?cols ! c"
  define d where "d = DataPointer col"
  define j where "j = i - off"
  have col: "wf_column ?n col" "fits_file ?n col" using assms(1,2) by (auto simp: col_def savable_def wf_segment_def list_all2_conv_all_nth)
  then have shape: "shape_ok ?n col" by (simp add: wf_column_def)
  have bytes: "segment_bytes seg = Inr file" using assms(3-5) by (auto simp: SaveToFile_def)
  obtain a b where f: "file = a @ d @ b" "length a = off" "\<forall>data. length data = length d \<longrightarrow>
      segment_bytes (seg\<lparr>seg_columns := take c ?cols @ fill_data (col_type col) ?n data col # drop (Suc c) ?cols\<rparr>) = Inr (a @ data @ b)"
    using file_data_block [OF bytes assms(2) _ assms(6)] shape by (auto simp: col_def d_def)
  have j: "j + length ys \<le> length d" "i = off + j" using assms(7,8) length_DataPointer [OF shape] by (simp_all add: j_def d_def col_def)
  let ?xs = "take (length ys) (drop j d)" and ?data = "take j d @ ys @ drop (j + length ys) d"
  let ?col = "fill_data (col_type col) ?n ?data col" and ?t = "drop (j + length ys) d @ (if col_type col = kString then concat (dict_values (col_dict col)) else [])"
  have damaged: "take i file @ ys @ drop (i + length ys) file = a @ ?data @ b" using f(2) j by (simp add: f(1))
  have xs: "take (length ys) (drop i file) = ?xs" using f(2) j by (simp add: f(1))
  have ld: "length ?data = length (DataPointer col)" using j by (simp add: d_def)
  note sd = fill_data_facts [OF shape ld]
  have split: "?cols = take c ?cols @ col # drop (Suc c) ?cols" unfolding col_def using assms(2) by (rule id_take_nth_drop)
  have "readable ?n ?col" using sd col by (simp add: readable_def wf_column_def fits_file_def)
  moreover have "list_all2 (\<lambda>cs col. readable ?n col \<and> col_type col = cs_type cs) (seg_schema seg) (take c ?cols @ col # drop (Suc c) ?cols)"
    using savable_loadable [OF assms(1)] split by (simp add: loadable_def)
  ultimately have l: "loadable (seg\<lparr>seg_columns := take c ?cols @ ?col # drop (Suc c) ?cols\<rparr>)"
    using savable_loadable [OF assms(1)] assms(2) sd(3) by (auto simp: loadable_def list_all2_append2 list_all2_Cons2)
  have "d = take j d @ ?xs @ drop (j + length ys) d" by (metis add.commute append_take_drop_id drop_drop)
  then have i1: "checksum_input col = (bm_bytes (col_validity col) @ take j d) @ ?xs @ ?t"
    by (simp add: checksum_input_def flip: d_def)
  have i2: "checksum_input ?col = (bm_bytes (col_validity col) @ take j d) @ ys @ ?t" unfolding checksum_input_def sd by simp
  have len: "length ?xs = length ys" "length ?xs \<le> 4" "?xs \<noteq> ys" using j assms(9,10) xs by simp_all
  have "segment_bytes (seg\<lparr>seg_columns := take c ?cols @ ?col # drop (Suc c) ?cols\<rparr>) = Inr (a @ ?data @ b)"
    using f(3) ld by (simp add: d_def)
  with damaged_column_rejected [OF assms(1) split l sd(7) i1 i2 len, of fs' p] assms(2) show ?thesis
    unfolding damaged by (auto simp: col_def)
qed

definition sample_numbers :: Segment where
  "sample_numbers =
     (let col = \<lparr>col_type = kInt64, col_validity = \<lparr>bm_num_rows = 1, bm_bytes = [1]\<rparr>, col_min = VInt64 5,
            col_max = VInt64 5, col_checksum = 0, col_int32 = [], col_int64 = [5], col_double = [],
            col_codes = [], col_dict = empty_dict\<rparr>
      in \<lparr>seg_id = 3, seg_num_rows = 1, seg_schema = [\<lparr>cs_name = ''k'', cs_type = kInt64\<rparr>],
          seg_columns = [col\<lparr>col_checksum := Crc32c (checksum_input col)\<rparr>]\<rparr>)"

lemma sample_numbers_savable: "savable sample_numbers"
proof -
  have "wf_segment sample_numbers"
    by (simp add: wf_segment_def wf_column_def sample_numbers_def Let_def ComputeColumnChecksum_input [of 1]
        shape_ok_def wf_bitmap_def col_num_rows_def known_type_def value_has_type_def)
      (simp add: checksum_input_def DataPointer_def)
  then show ?thesis
    by (simp add: savable_def) (simp add: sample_numbers_def Let_def fits_file_def empty_dict_def)
qed

theorem LoadFromFile_detects_damage_witness:
  "\<exists>fs' file e. SaveToFile (\<lambda>_. Written) sample_numbers ''a.seg'' Map.empty = Inr (fs', WriteOk) \<and> fs' ''a.seg'' = Some file \<and>
    LoadFromFile (fs'(''a.seg'' \<mapsto> take 51 file @ [6] @ drop (51 + length [6 :: byte]) file)) ''a.seg'' (seg_schema sample_numbers) = Inl (Rejects e)"
proof -
  obtain content where bytes: "segment_bytes sample_numbers = Inr content" using savable_bytes [OF sample_numbers_savable] by blast
  have shape: "shape_ok 1 (seg_columns sample_numbers ! 0)"
    using sample_numbers_savable by (simp add: savable_def wf_segment_def wf_column_def sample_numbers_def Let_def)
  have n: "seg_num_rows sample_numbers = 1" "0 < length (seg_columns sample_numbers)" by (simp_all add: sample_numbers_def Let_def)
  have off: "data_offset sample_numbers 0 = Inr 51" by (simp add: data_offset_def min_max_bytes_def WriteTypedValue_def sample_numbers_def Let_def)
  obtain a b where "content = a @ DataPointer (seg_columns sample_numbers ! 0) @ b" "length a = 51"
    using file_data_block [OF bytes n(2) _ off] shape n(1) by metis
  moreover have "DataPointer (seg_columns sample_numbers ! 0) = [5, 0, 0, 0, 0, 0, 0, 0]"
    by (simp add: sample_numbers_def Let_def DataPointer_def le_bytes_def upt_rec drop_bit_eq_div)
  ultimately have x: "take (length [6 :: byte]) (drop 51 content) \<noteq> [6]" by simp
  have s: "SaveToFile (\<lambda>_. Written) sample_numbers ''a.seg'' Map.empty = Inr ([''a.seg'' \<mapsto> content], WriteOk)"
    by (simp add: SaveToFile_def bytes)
  from LoadFromFile_detects_damage [OF sample_numbers_savable n(2) refl s _ off le_refl _ _ x]
  have "\<exists>e. LoadFromFile ([''a.seg'' \<mapsto> content](''a.seg'' \<mapsto> take 51 content @ [6] @ drop (51 + length [6 :: byte]) content)) ''a.seg''
      (seg_schema sample_numbers) = Inl (Rejects e)"
    by (auto simp: sample_numbers_def Let_def ElementWidth_def)
  with s show ?thesis by (metis fun_upd_same)
qed

end
