(* ===== verification/Wal.thy ===== *)
theory Wal
  imports Types Crc32c FileIO
begin

text \<open>
  The write-ahead log: record encoding (\<^verbatim>\<open>wal/record.h\<close>, \<^verbatim>\<open>wal/record.cpp\<close>), the appending writer
  (\<^verbatim>\<open>wal/wal_writer.h\<close>, \<^verbatim>\<open>wal/wal_writer.cpp\<close>) and the reader used by recovery (\<^verbatim>\<open>wal/wal_reader.h\<close>,
  \<^verbatim>\<open>wal/wal_reader.cpp\<close>). Appended records read back with their sequence numbers; a torn tail costs
  only the torn record and is reported; damage inside a record body is reported; under
  \<^verbatim>\<open>kSyncEveryCommit\<close> a crash loses no record up to the last commit.
\<close>

section \<open>Records\<close>

datatype WalRecordType =
    kBegin
  | kInsert
  | kUpdate
  | kDelete
  | kCommit
  | kAbort
  | kOtherType byte

definition WalRecordType_to_byte :: "WalRecordType \<Rightarrow> byte" where
  "WalRecordType_to_byte t =
     (case t of kBegin \<Rightarrow> 1 | kInsert \<Rightarrow> 2 | kUpdate \<Rightarrow> 3 | kDelete \<Rightarrow> 4 | kCommit \<Rightarrow> 5 | kAbort \<Rightarrow> 6
      | kOtherType b \<Rightarrow> b)"

definition WalRecordType_of_byte :: "byte \<Rightarrow> WalRecordType" where
  "WalRecordType_of_byte b =
     (if b = 1 then kBegin else if b = 2 then kInsert else if b = 3 then kUpdate
      else if b = 4 then kDelete else if b = 5 then kCommit else if b = 6 then kAbort
      else kOtherType b)"

definition ToString_WalRecordType :: "WalRecordType \<Rightarrow> string" where
  "ToString_WalRecordType t =
     (case t of kBegin \<Rightarrow> ''BEGIN'' | kInsert \<Rightarrow> ''INSERT'' | kUpdate \<Rightarrow> ''UPDATE''
      | kDelete \<Rightarrow> ''DELETE'' | kCommit \<Rightarrow> ''COMMIT'' | kAbort \<Rightarrow> ''ABORT'' | kOtherType _ \<Rightarrow> ''UNKNOWN'')"

record WalRecord =
  rec_lsn :: u64
  rec_txn_id :: u64
  rec_type :: WalRecordType
  rec_row_id :: u64
  rec_row :: Row

definition default_WalRecord :: WalRecord where
  "default_WalRecord = \<lparr>rec_lsn = 0, rec_txn_id = 0, rec_type = kBegin, rec_row_id = 0, rec_row = []\<rparr>"

text \<open>The tags of \<^verbatim>\<open>ValueTag\<close>.\<close>

datatype ValueTag = tagNull | tagInt32 | tagInt64 | tagDouble | tagString

definition ValueTag_to_byte :: "ValueTag \<Rightarrow> byte" where
  "ValueTag_to_byte t =
     (case t of tagNull \<Rightarrow> 0 | tagInt32 \<Rightarrow> 1 | tagInt64 \<Rightarrow> 2 | tagDouble \<Rightarrow> 3 | tagString \<Rightarrow> 4)"

definition AppendValue :: "Value \<Rightarrow> byte list" where
  "AppendValue v =
     (case v of
        Monostate \<Rightarrow> [ValueTag_to_byte tagNull]
      | VInt32 i \<Rightarrow> ValueTag_to_byte tagInt32 # le_bytes i
      | VInt64 i \<Rightarrow> ValueTag_to_byte tagInt64 # le_bytes i
      | VDouble d \<Rightarrow> ValueTag_to_byte tagDouble # le_bytes d
      | VString s \<Rightarrow> ValueTag_to_byte tagString # le_bytes (of_nat (length s) :: u32) @ s)"

definition ReadValue :: "byte list \<Rightarrow> (Value \<times> byte list) option" where
  "ReadValue bs =
     (case bs of
        [] \<Rightarrow> None
      | tag # bs' \<Rightarrow>
          if tag = ValueTag_to_byte tagNull then Some (Monostate, bs')
          else if tag = ValueTag_to_byte tagInt32 then map_option (map_prod VInt32 id) (read_word bs')
          else if tag = ValueTag_to_byte tagInt64 then map_option (map_prod VInt64 id) (read_word bs')
          else if tag = ValueTag_to_byte tagDouble then map_option (map_prod VDouble id) (read_word bs')
          else if tag = ValueTag_to_byte tagString then
            (case read_word bs' of
               None \<Rightarrow> None
             | Some (len :: u32, bs'') \<Rightarrow> map_option (map_prod VString id) (read_bytes (unat len) bs''))
          else None)"

definition EncodeBody :: "WalRecord \<Rightarrow> byte list" where
  "EncodeBody r =
     le_bytes (rec_lsn r) @ le_bytes (rec_txn_id r) @ [WalRecordType_to_byte (rec_type r)] @
     (if rec_type r = kInsert \<or> rec_type r = kUpdate then
        le_bytes (rec_row_id r) @ le_bytes (of_nat (length (rec_row r)) :: u32) @
        concat (map AppendValue (rec_row r))
      else if rec_type r = kDelete then le_bytes (rec_row_id r)
      else [])"

text \<open>
  \<^verbatim>\<open>DecodeBody\<close> into a fresh record; bytes behind the parsed payload are ignored, as in the source.
\<close>

definition DecodePayload :: "WalRecord \<Rightarrow> byte list \<Rightarrow> WalRecord option" where
  "DecodePayload r bs =
     (if rec_type r = kInsert \<or> rec_type r = kUpdate then
        Option.bind (read_word bs) (\<lambda>(row_id, bs).
        Option.bind (read_word bs) (\<lambda>(num_values :: u32, bs).
        Option.bind (dec_many ReadValue (unat num_values) bs) (\<lambda>(row, _).
          Some (r\<lparr>rec_row_id := row_id, rec_row := row\<rparr>))))
      else if rec_type r = kDelete then
        Option.bind (read_word bs) (\<lambda>(row_id, _). Some (r\<lparr>rec_row_id := row_id\<rparr>))
      else Some r)"

definition DecodeBody :: "byte list \<Rightarrow> WalRecord option" where
  "DecodeBody body =
     Option.bind (read_word body) (\<lambda>(lsn, bs).
     Option.bind (read_word bs) (\<lambda>(txn_id, bs).
     Option.bind (read_word bs) (\<lambda>(type_byte :: byte, bs).
       DecodePayload
         (default_WalRecord\<lparr>rec_lsn := lsn, rec_txn_id := txn_id, rec_type := WalRecordType_of_byte type_byte\<rparr>) bs)))"

section \<open>The writer\<close>

datatype DurabilityMode = kNoSync | kSyncEveryCommit | kSyncEveryRecord

definition ToString_DurabilityMode :: "DurabilityMode \<Rightarrow> string" where
  "ToString_DurabilityMode m =
     (case m of kNoSync \<Rightarrow> ''no_sync'' | kSyncEveryCommit \<Rightarrow> ''sync_every_commit''
      | kSyncEveryRecord \<Rightarrow> ''sync_every_record'')"

record WalWriterConfig =
  wc_durability :: DurabilityMode
  wc_starting_lsn :: u64

text \<open>
  The writer object with its file: the bytes handed to the operating system (every append ends with
  \<^verbatim>\<open>fflush\<close>) and how many of them the last \<^verbatim>\<open>fsync\<close> has made durable. The results of the stdio calls are
  not looked at by the source; here they succeed.
\<close>

record WalWriter =
  ww_path :: path
  ww_config :: WalWriterConfig
  ww_next_lsn :: u64
  ww_file :: "byte list"
  ww_synced :: nat

text \<open>\<^verbatim>\<open>fopen(path, "ab")\<close>: an existing file is kept and appended to, and nothing of it is known to
  be durable before the first \<^verbatim>\<open>fsync\<close>. \<open>can_open\<close> is the answer of the system.\<close>

definition open_WalWriter :: "bool \<Rightarrow> files \<Rightarrow> path \<Rightarrow> WalWriterConfig \<Rightarrow> WalWriter res" where
  "open_WalWriter can_open fs p config =
     (if \<not> can_open then Inl RuntimeError
      else
        let content = (case fs p of None \<Rightarrow> [] | Some bs \<Rightarrow> bs) in
        Inr \<lparr>ww_path = p, ww_config = config, ww_next_lsn = wc_starting_lsn config, ww_file = content,
             ww_synced = 0\<rparr>)"

definition AppendRecord :: "WalWriter \<Rightarrow> WalRecord \<Rightarrow> u64 \<times> WalWriter" where
  "AppendRecord w r =
     (let r = r\<lparr>rec_lsn := ww_next_lsn w\<rparr>;
          body = EncodeBody r;
          checksum = Crc32c body;
          total_len = (of_nat (4 + length body) :: u32);
          content = ww_file w @ le_bytes total_len @ le_bytes checksum @ body;
          should_sync = (wc_durability (ww_config w) = kSyncEveryRecord \<or>
            wc_durability (ww_config w) = kSyncEveryCommit \<and> rec_type r = kCommit)
      in (rec_lsn r,
          w\<lparr>ww_next_lsn := ww_next_lsn w + 1, ww_file := content,
            ww_synced := if should_sync then length content else ww_synced w\<rparr>))"

definition AppendRow :: "WalWriter \<Rightarrow> u64 \<Rightarrow> WalRecordType \<Rightarrow> u64 \<Rightarrow> Row \<Rightarrow> u64 \<times> WalWriter" where
  "AppendRow w txn_id t row_id row =
     AppendRecord w (default_WalRecord\<lparr>rec_txn_id := txn_id, rec_type := t, rec_row_id := row_id, rec_row := row\<rparr>)"

definition AppendMark :: "WalWriter \<Rightarrow> u64 \<Rightarrow> WalRecordType \<Rightarrow> u64 \<times> WalWriter" where
  "AppendMark w txn_id t = AppendRecord w (default_WalRecord\<lparr>rec_txn_id := txn_id, rec_type := t\<rparr>)"

definition WalFlush :: "WalWriter \<Rightarrow> WalWriter" where
  "WalFlush w = w\<lparr>ww_synced := length (ww_file w)\<rparr>"

definition last_lsn :: "WalWriter \<Rightarrow> u64" where
  "last_lsn w = ww_next_lsn w - 1"

section \<open>The reader\<close>

record WalReadResult =
  wr_records :: "WalRecord list"
  wr_truncated_tail :: bool
  wr_corrupt_record :: bool
  wr_bytes_read :: u64
  wr_last_valid_lsn :: u64

definition default_WalReadResult :: WalReadResult where
  "default_WalReadResult =
     \<lparr>wr_records = [], wr_truncated_tail = False, wr_corrupt_record = False, wr_bytes_read = 0, wr_last_valid_lsn = 0\<rparr>"

text \<open>
  What one pass of the loop does with a complete payload: accept a record, or report corruption.
\<close>

definition check_payload :: "u32 \<Rightarrow> byte list \<Rightarrow> WalRecord option" where
  "check_payload total_len payload =
     (if unat total_len < 4 then None
      else
        let stored_checksum = of_le_bytes (take 4 payload); body = drop 4 payload in
        if Crc32c body \<noteq> stored_checksum then None else DecodeBody body)"

text \<open>
  The loop of \<^verbatim>\<open>ReadAll\<close>. \<open>pos\<close> is \<^verbatim>\<open>tellg\<close>, \<open>bs\<close> the bytes from there to the end of the file, \<open>size_ec\<close>
  whether \<^verbatim>\<open>file_size\<close> failed.
\<close>

function read_loop :: "bool \<Rightarrow> u64 \<Rightarrow> u64 \<Rightarrow> byte list \<Rightarrow> WalReadResult \<Rightarrow> WalReadResult" where
  "read_loop size_ec file_size pos bs result =
     (if bs = [] then result
      else if length bs < 4 then result\<lparr>wr_truncated_tail := True\<rparr>
      else
        let total_len = (of_le_bytes (take 4 bs) :: u32); bs' = drop 4 bs in
        if \<not> size_ec \<and> pos + 4 + ucast total_len > file_size then result\<lparr>wr_truncated_tail := True\<rparr>
        else if length bs' < unat total_len then result\<lparr>wr_truncated_tail := True\<rparr>
        else case check_payload total_len (take (unat total_len) bs') of
            None \<Rightarrow> result\<lparr>wr_corrupt_record := True\<rparr>
          | Some rec \<Rightarrow>
              read_loop size_ec file_size (pos + 4 + ucast total_len) (drop (unat total_len) bs')
                (result\<lparr>wr_last_valid_lsn := rec_lsn rec,
                        wr_bytes_read := wr_bytes_read result + (4 + ucast total_len),
                        wr_records := wr_records result @ [rec]\<rparr>))"
  by pat_completeness auto
termination
  by (relation "measure (\<lambda>(_, _, _, bs, _). length bs)") auto

definition ReadAll :: "bool \<Rightarrow> files \<Rightarrow> path \<Rightarrow> WalReadResult" where
  "ReadAll size_ec fs p =
     (case fs p of
        None \<Rightarrow> default_WalReadResult
      | Some bs \<Rightarrow> read_loop size_ec (of_nat (length bs)) 0 bs default_WalReadResult)"

declare read_loop.simps [simp del]

section \<open>Round trip of one record\<close>

definition value_fits :: "Value \<Rightarrow> bool" where
  "value_fits v \<longleftrightarrow> (\<forall>s. v = VString s \<longrightarrow> length s < 2 ^ 32)"

lemma ReadValue_AppendValue:
  assumes "value_fits v"
  shows "ReadValue (AppendValue v @ rest) = Some (v, rest)"
proof (cases v)
  case (VString s)
  with assms have "unat (of_nat (length s) :: u32) = length s" by (simp add: value_fits_def unat_of_nat)
  with VString show ?thesis by (simp add: AppendValue_def ReadValue_def ValueTag_to_byte_def)
qed (simp_all add: AppendValue_def ReadValue_def ValueTag_to_byte_def)

lemma ReadValue_more: "ReadValue bs = Some (v, rest) \<Longrightarrow> ReadValue (bs @ t) = Some (v, rest @ t)"
  by (cases bs) (auto simp: ReadValue_def read_word_more read_bytes_more split: if_splits option.splits prod.splits
      dest: read_word_more [where t = t])

interpretation wal_value: stream_codec AppendValue ReadValue value_fits
  by unfold_locales (simp_all add: ReadValue_AppendValue ReadValue_more)

text \<open>What of a record its type lets reach the log.\<close>

definition stored :: "WalRecord \<Rightarrow> WalRecord" where
  "stored r =
     (if rec_type r = kInsert \<or> rec_type r = kUpdate then r
      else if rec_type r = kDelete then r\<lparr>rec_row := []\<rparr>
      else r\<lparr>rec_row_id := 0, rec_row := []\<rparr>)"

text \<open>A record of one of the six types whose sizes the 32-bit length fields hold.\<close>

definition encodable :: "WalRecord \<Rightarrow> bool" where
  "encodable r \<longleftrightarrow> WalRecordType_of_byte (WalRecordType_to_byte (rec_type r)) = rec_type r \<and>
     length (rec_row r) < 2 ^ 32 \<and> (\<forall>v\<in>set (rec_row r). value_fits v) \<and> 4 + length (EncodeBody r) < 2 ^ 32"

lemma read_word_byte [simp]: "read_word (b # rest) = Some (b :: byte, rest)"
  by (simp add: read_word_def)

lemma DecodeBody_EncodeBody:
  assumes "encodable r"
  shows "DecodeBody (EncodeBody r) = Some (stored r)"
proof -
  have n: "unat (of_nat (length (rec_row r)) :: u32) = length (rec_row r)"
    and t: "WalRecordType_of_byte (WalRecordType_to_byte (rec_type r)) = rec_type r"
    using assms by (simp_all add: encodable_def unat_of_nat)
  have "list_all value_fits (rec_row r)" using assms by (simp add: encodable_def list_all_iff)
  from wal_value.dec_many_enc [OF this, of "[]"]
  have row: "dec_many ReadValue (length (rec_row r)) (concat (map AppendValue (rec_row r))) = Some (rec_row r, [])"
    by simp
  show ?thesis
    by (cases r) (use n t row in \<open>auto simp: DecodeBody_def DecodePayload_def EncodeBody_def stored_def default_WalRecord_def\<close>)
qed

section \<open>Frames\<close>

definition frame :: "WalRecord \<Rightarrow> byte list" where
  "frame r = (let body = EncodeBody r in
     le_bytes (of_nat (4 + length body) :: u32) @ le_bytes (Crc32c body) @ body)"

lemma AppendRecord_frame:
  "AppendRecord w r =
     (let r = r\<lparr>rec_lsn := ww_next_lsn w\<rparr>; content = ww_file w @ frame r in
      (ww_next_lsn w,
       w\<lparr>ww_next_lsn := ww_next_lsn w + 1, ww_file := content,
         ww_synced := if wc_durability (ww_config w) = kSyncEveryRecord \<or>
             wc_durability (ww_config w) = kSyncEveryCommit \<and> rec_type r = kCommit
           then length content else ww_synced w\<rparr>))"
  by (simp add: AppendRecord_def frame_def Let_def)

lemma length_frame [simp]: "length (frame r) = 8 + length (EncodeBody r)"
  by (simp add: frame_def Let_def)

lemma frame_header:
  assumes "encodable r"
  shows "take 4 (frame r) = le_bytes (of_nat (4 + length (EncodeBody r)) :: u32)"
    and "unat (of_nat (4 + length (EncodeBody r)) :: u32) = 4 + length (EncodeBody r)"
    and "check_payload (of_nat (4 + length (EncodeBody r))) (le_bytes (Crc32c (EncodeBody r)) @ EncodeBody r) = Some (stored r)"
proof -
  show u: "unat (of_nat (4 + length (EncodeBody r)) :: u32) = 4 + length (EncodeBody r)"
    using assms unat_of_nat [of "4 + length (EncodeBody r)", where 'a = 32] by (simp add: encodable_def)
  show "take 4 (frame r) = le_bytes (of_nat (4 + length (EncodeBody r)) :: u32)" by (simp add: frame_def Let_def)
  show "check_payload (of_nat (4 + length (EncodeBody r))) (le_bytes (Crc32c (EncodeBody r)) @ EncodeBody r) = Some (stored r)"
    unfolding check_payload_def u by (simp add: Let_def DecodeBody_EncodeBody [OF assms])
qed

text \<open>How the reader accounts for a list of records.\<close>

definition absorb :: "WalRecord list \<Rightarrow> WalReadResult \<Rightarrow> WalReadResult" where
  "absorb rs result =
     (if rs = [] then result
      else result\<lparr>wr_last_valid_lsn := rec_lsn (last rs),
        wr_bytes_read := wr_bytes_read result + of_nat (length (concat (map frame rs))),
        wr_records := wr_records result @ map stored rs\<rparr>)"

lemma pos_bound:
  assumes "unat pos + 4 + unat (len::u32) \<le> unat (file_size::u64)"
  shows "unat (pos + 4 + ucast len) = unat pos + 4 + unat len" "\<not> pos + 4 + ucast len > file_size"
proof -
  have "unat file_size < 2 ^ 64" using unsigned_less [of file_size, where 'a = nat] by simp
  with assms have b: "unat pos + 4 + unat len < 2 ^ 64" by simp
  have "pos + 4 + ucast len = of_nat (unat pos + 4 + unat len)" by simp
  with b show "unat (pos + 4 + ucast len) = unat pos + 4 + unat len" by (simp only: unat_of_nat) simp
  with assms show "\<not> pos + 4 + ucast len > file_size" by (simp add: word_less_nat_alt)
qed

lemma read_loop_frame:
  assumes "encodable r" "unat pos + length (frame r) \<le> unat file_size"
  shows "read_loop ec file_size pos (frame r @ rest) result =
    read_loop ec file_size (pos + of_nat (length (frame r))) rest (absorb [r] result)"
    and "unat (pos + of_nat (length (frame r))) = unat pos + length (frame r)"
proof -
  let ?len = "of_nat (4 + length (EncodeBody r)) :: u32"
  note h = frame_header [OF assms(1)]
  have b: "unat pos + 4 + unat ?len \<le> unat file_size" using assms(2) h(2) by simp
  note p = pos_bound [OF b]
  have "(ucast ?len :: u64) = of_nat (unat ?len)" by simp
  then have uc: "(ucast ?len :: u64) = of_nat (4 + length (EncodeBody r))" unfolding h(2) .
  have adv: "pos + 4 + ucast ?len = pos + of_nat (length (frame r))" unfolding uc by simp
  show "unat (pos + of_nat (length (frame r))) = unat pos + length (frame r)"
    using p(1) adv h(2) by (simp add: ac_simps)
  have bs: "frame r @ rest = le_bytes ?len @ (le_bytes (Crc32c (EncodeBody r)) @ EncodeBody r) @ rest"
    by (simp add: frame_def Let_def)
  have lsn: "rec_lsn (stored r) = rec_lsn r" by (simp add: stored_def)
  show "read_loop ec file_size pos (frame r @ rest) result =
    read_loop ec file_size (pos + of_nat (length (frame r))) rest (absorb [r] result)"
    unfolding bs
    by (subst read_loop.simps) (use h(2,3) p(2) adv lsn uc in \<open>simp add: Let_def absorb_def add.assoc del: of_nat_add\<close>)
qed

lemma absorb_Cons: "absorb rs (absorb [r] result) = absorb (r # rs) result"
  by (cases rs) (simp_all add: absorb_def)

lemma read_loop_frames:
  assumes "list_all encodable rs" "unat pos + length (concat (map frame rs)) \<le> unat file_size"
  shows "read_loop ec file_size pos (concat (map frame rs) @ rest) result =
      read_loop ec file_size (pos + of_nat (length (concat (map frame rs)))) rest (absorb rs result) \<and>
    unat (pos + of_nat (length (concat (map frame rs)))) = unat pos + length (concat (map frame rs))"
  using assms
proof (induction rs arbitrary: pos result)
  case (Cons r rs)
  have r: "encodable r" "unat pos + length (frame r) \<le> unat file_size" using Cons.prems by simp_all
  note step = read_loop_frame [OF r]
  have "read_loop ec file_size (pos + of_nat (length (frame r))) (concat (map frame rs) @ rest) (absorb [r] result) =
      read_loop ec file_size (pos + of_nat (length (frame r)) + of_nat (length (concat (map frame rs)))) rest
        (absorb rs (absorb [r] result)) \<and>
      unat (pos + of_nat (length (frame r)) + of_nat (length (concat (map frame rs)))) =
        unat (pos + of_nat (length (frame r))) + length (concat (map frame rs))"
    using Cons.prems step(2) by (intro Cons.IH) simp_all
  with step(1) [of ec "concat (map frame rs) @ rest" result] step(2) show ?case
    by (simp add: absorb_Cons add.assoc)
qed (simp add: absorb_def)

lemma read_loop_end [simp]: "read_loop ec file_size pos [] result = result"
  by (subst read_loop.simps) simp

lemma read_loop_torn:
  assumes "encodable r" "frame r = p @ q" "p \<noteq> []" "q \<noteq> []"
  shows "read_loop ec file_size pos p result = result\<lparr>wr_truncated_tail := True\<rparr>"
proof (cases "length p < 4")
  case True
  then show ?thesis using assms(3) by (subst read_loop.simps) simp
next
  case False
  let ?len = "of_nat (4 + length (EncodeBody r)) :: u32"
  note h = frame_header [OF assms(1)]
  have "take 4 p = le_bytes ?len" using h(1) False assms(2) by simp
  moreover have "length p < length (frame r)" using assms(2,4) by simp
  then have "length p - 4 < unat ?len" using h(2) by simp
  ultimately show ?thesis using assms(3) False by (subst read_loop.simps) (simp add: Let_def)
qed

lemma read_loop_damaged:
  assumes r: "encodable r" "unat pos + length (frame r) \<le> unat file_size"
    and body: "length body = length (EncodeBody r)" "Crc32c body \<noteq> Crc32c (EncodeBody r)"
  shows "read_loop ec file_size pos
      (le_bytes (of_nat (4 + length body) :: u32) @ le_bytes (Crc32c (EncodeBody r)) @ body @ rest) result =
    result\<lparr>wr_corrupt_record := True\<rparr>"
proof -
  let ?len = "of_nat (4 + length body) :: u32"
  have u: "unat ?len = 4 + length body" using frame_header(2) [OF r(1)] body(1) by simp
  have "unat pos + 4 + unat ?len \<le> unat file_size" using r(2) u body(1) by simp
  note p = pos_bound(2) [OF this]
  have "check_payload ?len (le_bytes (Crc32c (EncodeBody r)) @ body) = None"
    unfolding check_payload_def u using body(2) by (simp add: Let_def)
  then show ?thesis
    by (subst read_loop.simps) (use u p in \<open>simp add: Let_def del: of_nat_add\<close>)
qed

lemma read_loop_extends:
  "\<exists>more. wr_records (read_loop ec file_size pos bs result) = wr_records result @ more"
proof (induction ec file_size pos bs result rule: read_loop.induct)
  case (1 size_ec file_size pos bs result)
  then show ?case by (subst read_loop.simps) (fastforce simp: Let_def split: option.splits)
qed

section \<open>Torn logs\<close>

text \<open>The number of records that lie completely within the first \<open>n\<close> bytes.\<close>

fun complete :: "nat \<Rightarrow> WalRecord list \<Rightarrow> nat" where
  "complete n [] = 0"
| "complete n (r # rs) = (if length (frame r) \<le> n then Suc (complete (n - length (frame r)) rs) else 0)"

lemma take_frames:
  "\<exists>p. take n (concat (map frame rs)) = concat (map frame (take (complete n rs) rs)) @ p \<and>
     (p = [] \<or> complete n rs < length rs \<and> (\<exists>q. q \<noteq> [] \<and> frame (rs ! complete n rs) = p @ q))"
proof (induction rs arbitrary: n)
  case (Cons r rs)
  show ?case
  proof (cases "length (frame r) \<le> n")
    case True
    with Cons.IH [of "n - length (frame r)"] show ?thesis by auto
  next
    case False
    then have "frame r = take n (frame r) @ drop n (frame r)" "drop n (frame r) \<noteq> []" by simp_all
    then have "\<exists>q. q \<noteq> [] \<and> frame r = take n (frame r) @ q" by metis
    with False show ?thesis by simp
  qed
qed simp

lemma read_loop_take:
  assumes "list_all encodable rs" "unat pos + n \<le> unat file_size"
  shows "read_loop ec file_size pos (take n (concat (map frame rs))) result =
    (absorb (take (complete n rs) rs) result)
      \<lparr>wr_truncated_tail := wr_truncated_tail result \<or>
         length (concat (map frame (take (complete n rs) rs))) < min n (length (concat (map frame rs)))\<rparr>"
proof -
  let ?k = "complete n rs"
  obtain p where p: "take n (concat (map frame rs)) = concat (map frame (take ?k rs)) @ p"
    and tail: "p = [] \<or> ?k < length rs \<and> (\<exists>q. q \<noteq> [] \<and> frame (rs ! ?k) = p @ q)"
    using take_frames by blast
  from p have len: "min n (length (concat (map frame rs))) = length (concat (map frame (take ?k rs))) + length p"
    by (metis length_append length_take min.commute)
  have enc: "list_all encodable (take ?k rs)" using assms(1) by (auto simp: list_all_iff dest: in_set_takeD)
  have "unat pos + length (concat (map frame (take ?k rs))) \<le> unat file_size" using len assms(2) by linarith
  note frames = read_loop_frames [OF enc this, THEN conjunct1, of ec p result]
  have keep: "(absorb rs' result)\<lparr>wr_truncated_tail := wr_truncated_tail result\<rparr> = absorb rs' result" for rs'
    by (simp add: absorb_def)
  show ?thesis
  proof (cases "p = []")
    case True
    with frames p len keep show ?thesis by simp
  next
    case False
    with tail obtain q where "?k < length rs" "q \<noteq> []" "frame (rs ! ?k) = p @ q" by auto
    then have "read_loop ec file_size pos' p result' = result'\<lparr>wr_truncated_tail := True\<rparr>" for pos' result'
      using assms(1) False by (intro read_loop_torn) (auto simp: list_all_iff)
    with frames p len False show ?thesis by simp
  qed
qed

section \<open>Logs written by the writer\<close>

fun append_all :: "WalWriter \<Rightarrow> WalRecord list \<Rightarrow> WalWriter" where
  "append_all w [] = w"
| "append_all w (r # rs) = append_all (snd (AppendRecord w r)) rs"

fun numbered :: "u64 \<Rightarrow> WalRecord list \<Rightarrow> WalRecord list" where
  "numbered lsn [] = []"
| "numbered lsn (r # rs) = r\<lparr>rec_lsn := lsn\<rparr> # numbered (lsn + 1) rs"

lemma length_numbered [simp]: "length (numbered lsn rs) = length rs"
  by (induction rs arbitrary: lsn) simp_all

lemma nth_numbered: "i < length rs \<Longrightarrow> numbered lsn rs ! i = (rs ! i)\<lparr>rec_lsn := lsn + of_nat i\<rparr>"
  by (induction rs arbitrary: lsn i) (auto simp: nth_Cons' add.assoc)

lemma last_numbered: "rs \<noteq> [] \<Longrightarrow> rec_lsn (last (numbered lsn rs)) = lsn + of_nat (length rs) - 1"
proof (induction rs arbitrary: lsn)
  case (Cons r rs)
  have "rs \<noteq> [] \<Longrightarrow> numbered (lsn + 1) rs \<noteq> []" by (metis length_numbered length_0_conv)
  with Cons.IH [of "lsn + 1"] show ?case by (cases "rs = []") (simp_all add: add.assoc)
qed simp

lemma encodable_lsn [simp]: "encodable (r\<lparr>rec_lsn := lsn\<rparr>) = encodable r"
  by (simp add: encodable_def EncodeBody_def)

lemma encodable_numbered: "list_all encodable rs \<Longrightarrow> list_all encodable (numbered lsn rs)"
  by (induction rs arbitrary: lsn) auto

lemma append_all_file:
  "ww_file (append_all w rs) = ww_file w @ concat (map frame (numbered (ww_next_lsn w) rs))"
  "ww_next_lsn (append_all w rs) = ww_next_lsn w + of_nat (length rs)"
  "ww_config (append_all w rs) = ww_config w"
  by (induction rs arbitrary: w) (simp_all add: AppendRecord_frame Let_def add.assoc)

lemma append_all_append: "append_all w (rs @ rs') = append_all (append_all w rs) rs'"
  by (induction rs arbitrary: w) simp_all

lemma append_all_synced:
  assumes "ww_synced w \<le> length (ww_file w)"
  shows "ww_synced w \<le> ww_synced (append_all w rs) \<and> ww_synced (append_all w rs) \<le> length (ww_file (append_all w rs))"
  using assms
proof (induction rs arbitrary: w)
  case (Cons r rs)
  let ?w = "snd (AppendRecord w r)"
  have "ww_synced ?w \<le> length (ww_file ?w)" "ww_synced w \<le> ww_synced ?w"
    using Cons.prems by (auto simp: AppendRecord_frame Let_def)
  with Cons.IH [of ?w] show ?case by simp
qed simp

lemma ReadAll_absorb:
  assumes "list_all encodable rs" "ww_file w = []" "length (ww_file (append_all w rs)) < 2 ^ 64"
    and "fs p = Some (ww_file (append_all w rs))"
  shows "ReadAll ec fs p = absorb (numbered (ww_next_lsn w) rs) default_WalReadResult"
proof -
  let ?rs = "numbered (ww_next_lsn w) rs" and ?n = "length (ww_file (append_all w rs))"
  have content: "ww_file (append_all w rs) = concat (map frame ?rs)" using assms(2) by (simp add: append_all_file)
  have "unat (of_nat ?n :: u64) = ?n" using assms(3) by (simp add: unat_of_nat)
  then have "unat 0 + length (concat (map frame ?rs)) \<le> unat (of_nat ?n :: u64)" by (simp add: content)
  from read_loop_frames [OF encodable_numbered [OF assms(1)] this, of ec "[]" default_WalReadResult]
  show ?thesis by (simp add: ReadAll_def assms(4) content)
qed

lemma ReadAll_cut:
  assumes "list_all encodable rs" "n < 2 ^ 64" "n \<le> length (concat (map frame rs))"
    and "fs p = Some (take n (concat (map frame rs)))"
  shows "ReadAll ec fs p =
    (absorb (take (complete n rs) rs) default_WalReadResult)
      \<lparr>wr_truncated_tail := length (concat (map frame (take (complete n rs) rs))) < n\<rparr>"
proof -
  have "unat (of_nat n :: u64) = n" using assms(2) by (simp add: unat_of_nat)
  with assms(3) show ?thesis
    using read_loop_take [OF assms(1), of 0 n "of_nat n" ec default_WalReadResult]
    by (simp add: ReadAll_def assms(4) min_absorb2 default_WalReadResult_def)
qed

lemma complete_covers:
  assumes "length (concat (map frame (take k rs))) \<le> n" "k \<le> length rs"
  shows "k \<le> complete n rs"
  using assms
proof (induction rs arbitrary: k n)
  case (Cons r rs)
  show ?case
  proof (cases k)
    case (Suc j)
    with Cons.prems Cons.IH [of j "n - length (frame r)"] show ?thesis by auto
  qed simp
qed simp

lemma take_numbered: "take k (numbered l rs) = numbered l (take k rs)"
  by (induction rs arbitrary: k l) (auto simp: take_Cons')

text \<open>With a syncing writer, what is durable reaches at least to the end of the last commit record.\<close>

lemma commit_synced:
  assumes "wc_durability (ww_config w) \<noteq> kNoSync" "i < length rs" "rec_type (rs ! i) = kCommit"
  shows "length (ww_file (append_all w (take (Suc i) rs))) \<le> ww_synced (append_all w rs)"
proof -
  let ?w = "append_all w (take i rs)" and ?w' = "append_all w (take (Suc i) rs)"
  have w': "?w' = snd (AppendRecord ?w (rs ! i))"
    using assms(2) by (simp add: take_Suc_conv_app_nth append_all_append)
  have synced: "ww_synced ?w' = length (ww_file ?w')"
    using assms(1,3) by (cases "wc_durability (ww_config w)") (simp_all add: w' AppendRecord_frame Let_def append_all_file)
  have "rs = take (Suc i) rs @ drop (Suc i) rs" by simp
  then have "append_all w rs = append_all ?w' (drop (Suc i) rs)" by (metis append_all_append)
  then show ?thesis using append_all_synced [of ?w' "drop (Suc i) rs"] synced by simp
qed

section \<open>Properties\<close>

text \<open>
  C27: appending any records that fit the format to an empty log and reading the file gives exactly
  these records, in order, with consecutive sequence numbers from the configured start, no damage
  flag, and the count of bytes and last sequence number of the log.
\<close>

theorem ReadAll_appended:
  assumes "list_all encodable rs" and "rs \<noteq> []" and "ww_file w = []" and "length (ww_file (append_all w rs)) < 2 ^ 64"
    and "fs p = Some (ww_file (append_all w rs))"
  shows "ReadAll ec fs p =
    \<lparr>wr_records = map stored (numbered (ww_next_lsn w) rs), wr_truncated_tail = False, wr_corrupt_record = False,
     wr_bytes_read = of_nat (length (ww_file (append_all w rs))), wr_last_valid_lsn = last_lsn (append_all w rs)\<rparr>"
proof -
  let ?rs = "numbered (ww_next_lsn w) rs"
  have content: "ww_file (append_all w rs) = concat (map frame ?rs)" using assms(3) by (simp add: append_all_file)
  have "ReadAll ec fs p = absorb ?rs default_WalReadResult"
    using assms by (intro ReadAll_absorb)
  moreover have "rec_lsn (last ?rs) = last_lsn (append_all w rs)"
    using assms(2) by (simp add: last_numbered last_lsn_def append_all_file)
  moreover have "?rs \<noteq> []" using assms(2) by (metis length_numbered length_0_conv)
  ultimately show ?thesis by (simp add: absorb_def default_WalReadResult_def content)
qed

definition sample_records :: "WalRecord list" where
  "sample_records =
     [default_WalRecord\<lparr>rec_txn_id := 1, rec_type := kInsert, rec_row_id := 7, rec_row := [VInt64 5, Monostate]\<rparr>,
      default_WalRecord\<lparr>rec_txn_id := 1, rec_type := kCommit\<rparr>]"

definition sample_writer :: WalWriter where
  "sample_writer =
     \<lparr>ww_path = ''wal'', ww_config = \<lparr>wc_durability = kSyncEveryCommit, wc_starting_lsn = 1\<rparr>, ww_next_lsn = 1,
      ww_file = [], ww_synced = 0\<rparr>"

lemma sample_records_encodable: "list_all encodable sample_records"
  by (simp add: sample_records_def encodable_def default_WalRecord_def EncodeBody_def AppendValue_def value_fits_def
      WalRecordType_of_byte_def WalRecordType_to_byte_def)

lemma sample_content:
  "length (ww_file (append_all sample_writer sample_records)) = 72"
  "numbered 1 sample_records = [(sample_records ! 0)\<lparr>rec_lsn := 1\<rparr>, (sample_records ! 1)\<lparr>rec_lsn := 2\<rparr>]"
  by (simp_all add: append_all_file) (simp_all add: sample_writer_def sample_records_def EncodeBody_def AppendValue_def
      default_WalRecord_def)

theorem ReadAll_appended_witness:
  "wr_records (ReadAll False [''wal'' \<mapsto> ww_file (append_all sample_writer sample_records)] ''wal'') =
     [(sample_records ! 0)\<lparr>rec_lsn := 1\<rparr>, (sample_records ! 1)\<lparr>rec_lsn := 2\<rparr>]"
proof -
  have "ww_file sample_writer = []" "sample_records \<noteq> []" "ww_next_lsn sample_writer = 1"
    by (simp_all add: sample_writer_def sample_records_def)
  with ReadAll_appended [OF sample_records_encodable, of sample_writer "[''wal'' \<mapsto> ww_file (append_all sample_writer sample_records)]"
      "''wal''" False] show ?thesis
    by (simp add: sample_content) (simp add: sample_records_def default_WalRecord_def stored_def)
qed

text \<open>
  C28: a log cut off anywhere reads back as the records that are complete before the cut; the tail is
  reported as truncated exactly when the cut is inside a record, and never as corrupt.
\<close>

theorem ReadAll_torn:
  assumes "list_all encodable rs" and "n < 2 ^ 64" and "n \<le> length (concat (map frame rs))"
    and "fs p = Some (take n (concat (map frame rs)))"
  shows "wr_records (ReadAll ec fs p) = map stored (take (complete n rs) rs) \<and>
    (wr_truncated_tail (ReadAll ec fs p) \<longleftrightarrow> length (concat (map frame (take (complete n rs) rs))) \<noteq> n) \<and>
    \<not> wr_corrupt_record (ReadAll ec fs p)"
proof -
  note r = ReadAll_cut [of rs n fs p ec, OF assms]
  have "length (concat (map frame (take (complete n rs) rs))) \<le> n"
  proof -
    obtain q where "take n (concat (map frame rs)) = concat (map frame (take (complete n rs) rs)) @ q"
      using take_frames by blast
    from arg_cong [OF this, of length] show ?thesis by simp
  qed
  then show ?thesis unfolding r by (auto simp: absorb_def default_WalReadResult_def)
qed

theorem ReadAll_torn_witness:
  "wr_truncated_tail (ReadAll False [''wal'' \<mapsto> take 50 (concat (map frame sample_records))] ''wal'') \<and>
   wr_records (ReadAll False [''wal'' \<mapsto> take 50 (concat (map frame sample_records))] ''wal'') =
     [stored (sample_records ! 0)]"
proof -
  have len: "map (length \<circ> frame) sample_records = [47, 25]"
    by (simp add: sample_records_def EncodeBody_def AppendValue_def default_WalRecord_def)
  then obtain a b where ab: "sample_records = [a, b]" "length (frame a) = 47" "length (frame b) = 25"
    by (auto simp: sample_records_def simp del: length_frame)
  have c: "complete 50 sample_records = 1" unfolding ab(1) using ab(2,3) by (simp del: length_frame)
  show ?thesis
    using ReadAll_torn [OF sample_records_encodable, of 50 "[''wal'' \<mapsto> take 50 (concat (map frame sample_records))]" "''wal''" False]
      c unfolding ab(1) using ab(2,3) by (simp del: length_frame)
qed





text \<open>
  C29: the writer reopens an existing log for appending without removing a torn tail. If the torn tail
  is a single byte, a commit that is appended and synced after it cannot be read back: the reader
  stops at the torn byte.
\<close>

theorem reopened_torn_log_loses_commit:
  "bind_res (open_WalWriter True [p \<mapsto> [b]] p config) (\<lambda>w.
     Inr (ReadAll False [p \<mapsto> ww_file (snd (AppendMark w txn kCommit))] p)) =
   Inr (default_WalReadResult\<lparr>wr_truncated_tail := True\<rparr>)"
proof -
  let ?r = "default_WalRecord\<lparr>rec_lsn := wc_starting_lsn config, rec_txn_id := txn, rec_type := kCommit\<rparr>"
  have len: "length (EncodeBody ?r) = 17" by (simp add: EncodeBody_def default_WalRecord_def)
  have hd: "le_bytes (21 :: u32) = [21, 0, 0, 0]" by (simp add: le_bytes_def upt_rec drop_bit_eq_div)
  have fr: "frame ?r = [21, 0, 0] @ [0] @ le_bytes (Crc32c (EncodeBody ?r)) @ EncodeBody ?r"
    using len hd by (simp add: frame_def Let_def)
  have "(of_le_bytes [b, 21, 0, 0] :: u32) = ucast b OR 5376" by simp
  moreover have "5376 \<le> uint (ucast b OR 5376 :: u32)"
    using or_greater_eq [of "take_bit 32 (uint b)" 5376] by (simp add: unsigned_or_eq or.commute unsigned_ucast_eq)
  ultimately have "int (unat (of_le_bytes [b, 21, 0, 0] :: u32)) \<ge> 5376" by simp
  then have "unat (of_le_bytes [b, 21, 0, 0] :: u32) \<ge> 5376" by linarith
  moreover have "unat (4 + ucast len :: u64) = 4 + unat len" for len :: u32
    using pos_bound(1) [of 0 len "- 1"] unsigned_less [of len, where 'a = nat] by (simp add: unsigned_minus_1_eq_mask mask_eq_exp_minus_1)
  ultimately have big: "(26 :: u64) < 4 + ucast (of_le_bytes [b, 21, 0, 0] :: u32)"
    by (simp add: word_less_nat_alt)
  have "read_loop False 26 0 (b # frame ?r) default_WalReadResult = default_WalReadResult\<lparr>wr_truncated_tail := True\<rparr>"
    unfolding fr by (subst read_loop.simps) (use big in \<open>simp add: Let_def\<close>)
  moreover have "ww_file (snd (AppendMark w txn kCommit)) = b # frame ?r"
    if "open_WalWriter True [p \<mapsto> [b]] p config = Inr w" for w
    using that by (auto simp: open_WalWriter_def AppendMark_def AppendRecord_frame default_WalRecord_def Let_def)
  ultimately show ?thesis using len
    by (simp add: ReadAll_def open_WalWriter_def)
qed

end
