(* ===== verification/Text.thy ===== *)
theory Text
  imports CoreDB_Prelude
begin

text \<open>
  What the sources use of the text facilities of the standard library: the bytes of characters, decimal
  printing, the extraction of numbers from a stream, and reading a stream line by line.
\<close>

section \<open>Text\<close>

definition text_bytes :: "string \<Rightarrow> byte list" where
  "text_bytes s = map (\<lambda>c. of_nat (of_char c)) s"

definition bytes_text :: "byte list \<Rightarrow> string" where
  "bytes_text bs = map (\<lambda>b. char_of (unat b)) bs"

lemma bytes_text_bytes [simp]: "bytes_text (text_bytes s) = s"
proof -
  have "char_of (unat (of_nat (of_char c) :: byte)) = c" for c
  proof -
    have "unat (of_nat (of_char c) :: byte) = of_char c mod 256" by (simp add: unat_of_nat)
    then show ?thesis by simp
  qed
  then show ?thesis by (induction s) (simp_all add: text_bytes_def bytes_text_def)
qed

text \<open>\<^verbatim>\<open>std::to_string\<close> of an unsigned number: its decimal digits.\<close>

definition digit_char :: "nat \<Rightarrow> char" where
  "digit_char d = char_of (48 + d)"

fun decimal :: "nat \<Rightarrow> string" where
  "decimal n = (if n < 10 then [digit_char n] else decimal (n div 10) @ [digit_char (n mod 10)])"

declare decimal.simps [simp del]

definition to_string :: "u64 \<Rightarrow> string" where
  "to_string x = decimal (unat x)"

text \<open>
  Extraction of an unsigned 64-bit number from the rest of a line: white space is skipped, a sign is
  allowed (a negative number is negated modulo \<open>2 ^ 64\<close>), the digits are read as far as they go; without
  digits the result is 0, and beyond the range it is the largest value.
\<close>

definition is_space :: "char \<Rightarrow> bool" where
  "is_space c \<longleftrightarrow> of_char c \<in> {9, 10, 11, 12, 13, 32 :: nat}"

definition is_digit :: "char \<Rightarrow> bool" where
  "is_digit c \<longleftrightarrow> 48 \<le> (of_char c :: nat) \<and> (of_char c :: nat) < 58"

definition number_of :: "string \<Rightarrow> nat" where
  "number_of ds = foldl (\<lambda>n c. 10 * n + (of_char c - 48)) 0 ds"

definition extract_u64 :: "string \<Rightarrow> u64" where
  "extract_u64 s =
     (let s = dropWhile is_space s;
          (negative, s) = (case s of [] \<Rightarrow> (False, [])
             | c # cs \<Rightarrow> if c = CHR ''-'' then (True, cs) else if c = CHR ''+'' then (False, cs) else (False, s));
          ds = takeWhile is_digit s
      in if ds = [] then 0
         else if number_of ds \<ge> 2 ^ 64 then - 1
         else if negative then - of_nat (number_of ds) else of_nat (number_of ds))"

text \<open>\<^verbatim>\<open>std::getline\<close> until it fails.\<close>

abbreviation newline :: char where
  "newline \<equiv> CHR 0x0A"

function getlines :: "string \<Rightarrow> string list" where
  "getlines [] = []"
| "getlines (c # cs) =
     (let s = c # cs in
      takeWhile (\<lambda>c. c \<noteq> newline) s # (case dropWhile (\<lambda>c. c \<noteq> newline) s of [] \<Rightarrow> [] | _ # rest \<Rightarrow> getlines rest))"
  by pat_completeness auto
termination
proof (relation "measure length", goal_cases)
  case (2 c cs s a rest)
  then have "length (a # rest) \<le> length (c # cs)" using length_dropWhile_le [of "\<lambda>c. c \<noteq> newline" "c # cs"] by simp
  then show ?case by simp
qed simp

section \<open>Decimal numbers\<close>

lemma of_char_digit: "d < 10 \<Longrightarrow> of_char (digit_char d) = 48 + d" for d :: nat
  by (simp add: digit_char_def)

lemma is_digit_digit_char: "d < 10 \<Longrightarrow> is_digit (digit_char d)"
  by (simp add: is_digit_def of_char_digit)

lemma number_of_snoc: "number_of (ds @ [c]) = 10 * number_of ds + (of_char c - 48)"
  by (simp add: number_of_def)

lemma number_of_decimal: "number_of (decimal n) = n"
proof (induction n rule: decimal.induct)
  case (1 n)
  then show ?case
    by (cases "n < 10") (simp_all add: decimal.simps [of n] number_of_snoc of_char_digit, simp add: number_of_def of_char_digit)
qed

lemma decimal_digits: "\<forall>c\<in>set (decimal n). is_digit c"
proof (induction n rule: decimal.induct)
  case (1 n)
  then show ?case by (subst decimal.simps) (auto simp: is_digit_digit_char)
qed

lemma decimal_not_Nil [simp]: "decimal n \<noteq> []"
  by (subst decimal.simps) simp

lemma digit_not_special: "is_digit c \<Longrightarrow> \<not> is_space c \<and> c \<noteq> CHR ''-'' \<and> c \<noteq> CHR ''+'' \<and> c \<noteq> newline"
  by (auto simp: is_digit_def is_space_def)

lemma extract_to_string: "extract_u64 (CHR '' '' # to_string x) = x"
proof -
  let ?ds = "decimal (unat x)"
  obtain c cs where ds: "?ds = c # cs" by (cases ?ds) simp_all
  then have c: "is_digit c" using decimal_digits [of "unat x"] by simp
  have "takeWhile is_digit ?ds = ?ds" using decimal_digits by (simp add: takeWhile_eq_all_conv)
  moreover have "is_space CHR '' ''" by (simp add: is_space_def)
  moreover have "unat x < 2 ^ 64" using unsigned_less [of x] by simp
  ultimately show ?thesis
    using digit_not_special [OF c] ds number_of_decimal [of "unat x"]
    by (simp add: extract_u64_def to_string_def Let_def)
qed

section \<open>Lines\<close>

lemma getlines_line: "newline \<notin> set l \<Longrightarrow> getlines (l @ newline # rest) = l # getlines rest"
proof -
  assume a: "newline \<notin> set l"
  have "takeWhile (\<lambda>c. c \<noteq> newline) (l @ newline # rest) = l" "dropWhile (\<lambda>c. c \<noteq> newline) (l @ newline # rest) = newline # rest"
    using a by (auto simp: takeWhile_tail dropWhile_append3 takeWhile_eq_all_conv intro: dropWhile_append3)
  then show ?thesis by (cases "l @ newline # rest") (simp_all add: Let_def)
qed

lemma getlines_lines: "\<forall>l\<in>set ls. newline \<notin> set l \<Longrightarrow> getlines (concat (map (\<lambda>l. l @ [newline]) ls)) = ls"
  by (induction ls) (simp_all add: getlines_line)

lemma to_string_no_newline: "newline \<notin> set (to_string x)"
  using decimal_digits [of "unat x"] digit_not_special by (auto simp: to_string_def)

end
