(* ===== verification/CpuFeatures.thy ===== *)
theory CpuFeatures
  imports Types Text
begin

text \<open>
  Detection of the processor: \<^verbatim>\<open>util/cpu_features.h\<close> and \<^verbatim>\<open>util/cpu_features.cpp\<close>. What the preprocessor fixes
  (target and operating system) and what the machine answers are the fields of a record; the result
  is cached by the first call. The description prints a number of gibibytes the way a stream prints a
  double by default, with six significant digits.
\<close>

section \<open>The code\<close>

datatype SimdLevel = kScalar | kNeon | kAvx2 | kAvx512

text \<open>The tiers are ordered from the weakest to the strongest by their enumeration values.\<close>

fun SimdLevel_value :: "SimdLevel \<Rightarrow> nat" where
  "SimdLevel_value kScalar = 0"
| "SimdLevel_value kNeon = 1"
| "SimdLevel_value kAvx2 = 2"
| "SimdLevel_value kAvx512 = 3"

instantiation SimdLevel :: linorder
begin

definition less_eq_SimdLevel :: "SimdLevel \<Rightarrow> SimdLevel \<Rightarrow> bool" where
  "less_eq_SimdLevel a b \<longleftrightarrow> SimdLevel_value a \<le> SimdLevel_value b"

definition less_SimdLevel :: "SimdLevel \<Rightarrow> SimdLevel \<Rightarrow> bool" where
  "less_SimdLevel a b \<longleftrightarrow> SimdLevel_value a < SimdLevel_value b"

instance
proof
  fix a b c :: SimdLevel
  show "(a < b) = (a \<le> b \<and> \<not> b \<le> a)" by (auto simp: less_eq_SimdLevel_def less_SimdLevel_def)
  show "a \<le> a" "a \<le> b \<Longrightarrow> b \<le> c \<Longrightarrow> a \<le> c" "a \<le> b \<or> b \<le> a" by (auto simp: less_eq_SimdLevel_def)
  show "a \<le> b \<Longrightarrow> b \<le> a \<Longrightarrow> a = b" by (cases a; cases b) (simp_all add: less_eq_SimdLevel_def)
qed

end

definition ToString_SimdLevel :: "SimdLevel \<Rightarrow> string" where
  "ToString_SimdLevel level =
     (case level of kScalar \<Rightarrow> ''scalar'' | kNeon \<Rightarrow> ''neon'' | kAvx2 \<Rightarrow> ''avx2'' | kAvx512 \<Rightarrow> ''avx512'')"

text \<open>The compile targets and operating systems the preprocessor distinguishes.\<close>

datatype target = Arm64 | X86_64 | OtherTarget

datatype platform = Apple | Linux | OtherPlatform

text \<open>
  The build and the answers of the machine: \<^verbatim>\<open>__builtin_cpu_supports\<close>; the values of \<^verbatim>\<open>sysctlbyname\<close>, or \<open>None\<close> when it
  fails; the results of \<^verbatim>\<open>sysconf\<close>.
\<close>

record machine =
  mc_target :: target
  mc_platform :: platform
  mc_supports :: "string \<Rightarrow> bool"
  mc_logicalcpu :: "i32 option"
  mc_memsize :: "u64 option"
  mc_nprocessors_onln :: i64
  mc_phys_pages :: i64
  mc_page_size :: i64

record CpuCapabilities =
  cap_architecture :: string
  cap_logical_cores :: u32
  cap_total_memory_bytes :: u64
  cap_best_available :: SimdLevel
  cap_neon_available :: bool
  cap_avx2_available :: bool
  cap_avx512_available :: bool

definition DetectLogicalCores :: "machine \<Rightarrow> u32" where
  "DetectLogicalCores m =
     (case mc_platform m of
        Apple \<Rightarrow> (case mc_logicalcpu m of Some c \<Rightarrow> if sint c > 0 then c else 1 | None \<Rightarrow> 1)
      | Linux \<Rightarrow> let n = mc_nprocessors_onln m in if sint n > 0 then ucast n else 1
      | OtherPlatform \<Rightarrow> 1)"

definition DetectTotalMemoryBytes :: "machine \<Rightarrow> u64" where
  "DetectTotalMemoryBytes m =
     (case mc_platform m of
        Apple \<Rightarrow> (case mc_memsize m of Some bytes \<Rightarrow> bytes | None \<Rightarrow> 0)
      | Linux \<Rightarrow>
          let pages = mc_phys_pages m; page_size = mc_page_size m in
          if sint pages > 0 \<and> sint page_size > 0 then pages * page_size else 0
      | OtherPlatform \<Rightarrow> 0)"

definition DetectArchitectureString :: "target \<Rightarrow> string" where
  "DetectArchitectureString t = (case t of Arm64 \<Rightarrow> ''arm64'' | X86_64 \<Rightarrow> ''x86_64'' | OtherTarget \<Rightarrow> ''unknown'')"

definition ProbeAvx2 :: "machine \<Rightarrow> bool" where
  "ProbeAvx2 m = mc_supports m ''avx2''"

definition ProbeAvx512 :: "machine \<Rightarrow> bool" where
  "ProbeAvx512 m = (mc_supports m ''avx512f'' \<and> mc_supports m ''avx512bw'' \<and> mc_supports m ''avx512dq'')"

definition Probe :: "machine \<Rightarrow> CpuCapabilities" where
  "Probe m =
     (let caps = \<lparr>cap_architecture = DetectArchitectureString (mc_target m), cap_logical_cores = DetectLogicalCores m,
            cap_total_memory_bytes = DetectTotalMemoryBytes m, cap_best_available = kScalar,
            cap_neon_available = False, cap_avx2_available = False, cap_avx512_available = False\<rparr>
      in case mc_target m of
           Arm64 \<Rightarrow> caps\<lparr>cap_neon_available := True, cap_best_available := kNeon\<rparr>
         | X86_64 \<Rightarrow>
             let caps = caps\<lparr>cap_avx2_available := ProbeAvx2 m, cap_avx512_available := ProbeAvx512 m\<rparr> in
             caps\<lparr>cap_best_available :=
               if cap_avx512_available caps then kAvx512 else if cap_avx2_available caps then kAvx2 else kScalar\<rparr>
         | OtherTarget \<Rightarrow> caps\<lparr>cap_best_available := kScalar\<rparr>)"

text \<open>The function-local static: the first call probes, later calls return what it found.\<close>

definition DetectCapabilities :: "machine \<Rightarrow> CpuCapabilities option \<Rightarrow> CpuCapabilities \<times> CpuCapabilities option" where
  "DetectCapabilities m kCaps = (case kCaps of Some caps \<Rightarrow> (caps, kCaps) | None \<Rightarrow> let caps = Probe m in (caps, Some caps))"

section \<open>Printing\<close>

text \<open>
  A double on a stream, default format: six significant digits, rounded half to even, no trailing zeros;
  fixed notation for decimal exponents from -4 to 5, scientific notation otherwise. The double is the
  rational \<open>p / q\<close>.
\<close>

definition round_div :: "nat \<Rightarrow> nat \<Rightarrow> nat" where
  "round_div p q =
     (let d = p div q; r = p mod q in if 2 * r > q \<or> 2 * r = q \<and> odd d then d + 1 else d)"

definition drop_zeros :: "string \<Rightarrow> string" where
  "drop_zeros ds = rev (dropWhile (\<lambda>c. c = CHR ''0'') (rev ds))"

definition with_fraction :: "string \<Rightarrow> string \<Rightarrow> string" where
  "with_fraction whole frac = (if drop_zeros frac = [] then whole else whole @ ''.'' @ drop_zeros frac)"

text \<open>The six digits and the decimal exponent, the exponent counted from -10 upwards.\<close>

function scale_digits :: "nat \<Rightarrow> nat \<Rightarrow> int \<Rightarrow> nat \<times> int" where
  "scale_digits p q x =
     (if p = 0 \<or> q = 0 then (0, 0)
      else if p \<ge> 10 * q then scale_digits p (10 * q) (x + 1)
      else
        let d = round_div (p * 10 ^ 5) q in
        if d = 10 ^ 6 then (10 ^ 5, x + 1) else (d, x))"
  by pat_completeness auto
termination
  by (relation "measure (\<lambda>(p, q, x). p - q)") auto

declare scale_digits.simps [simp del]

definition format_double :: "nat \<Rightarrow> nat \<Rightarrow> string" where
  "format_double p q =
     (if p = 0 then ''0''
      else
        let (d, x) = scale_digits (p * 10 ^ 10) q (- 10); ds = decimal d in
        if x < - 4 \<or> x \<ge> 6 then
          with_fraction (take 1 ds) (drop 1 ds) @ ''e'' @ (if x < 0 then ''-'' else ''+'') @
          (if nat \<bar>x\<bar> < 10 then ''0'' else []) @ decimal (nat \<bar>x\<bar>)
        else if x < 0 then with_fraction ''0'' (replicate (nat (- x) - 1) CHR ''0'' @ ds)
        else with_fraction (take (nat x + 1) ds) (drop (nat x + 1) ds))"

text \<open>The conversion of an unsigned 64-bit number to double, as an integer.\<close>

definition double_of_u64 :: "u64 \<Rightarrow> nat" where
  "double_of_u64 n =
     (let m = unat n; e = ilog2 m in if e \<le> 52 then m else round_even m (e - 52) * 2 ^ (e - 52))"

definition DescribeCapabilities :: "CpuCapabilities \<Rightarrow> string" where
  "DescribeCapabilities caps =
     ''architecture: '' @ cap_architecture caps @ [newline] @
     ''logical_cores: '' @ decimal (unat (cap_logical_cores caps)) @ [newline] @
     ''memory: '' @ format_double (double_of_u64 (cap_total_memory_bytes caps)) (2 ^ 30) @ '' GiB'' @ [newline] @
     ''simd: '' @ ToString_SimdLevel (cap_best_available caps) @
     (if cap_architecture caps = ''arm64'' then '' (AVX2/AVX-512 unavailable: not an x86_64 target)''
      else if cap_architecture caps = ''x86_64'' then
        '' (avx2='' @ (if cap_avx2_available caps then ''yes'' else ''no'') @
        '', avx512='' @ (if cap_avx512_available caps then ''yes'' else ''no'') @ '')''
      else [])"

section \<open>What detection guarantees\<close>

text \<open>The tier selected is one the machine can run.\<close>

lemma Probe_executable:
  "cap_best_available (Probe m) \<ge> kAvx2 \<Longrightarrow> mc_target m = X86_64 \<and> (ProbeAvx2 m \<or> ProbeAvx512 m)"
  "cap_best_available (Probe m) = kAvx512 \<longleftrightarrow> mc_target m = X86_64 \<and> ProbeAvx512 m"
  "cap_best_available (Probe m) = kNeon \<longleftrightarrow> mc_target m = Arm64"
  by (auto simp: Probe_def Let_def less_eq_SimdLevel_def split: target.splits if_splits)

lemma DetectCapabilities_once:
  "DetectCapabilities m kCaps = (caps, kCaps') \<Longrightarrow> DetectCapabilities m' kCaps' = (caps, kCaps')"
  by (auto simp: DetectCapabilities_def Let_def split: option.splits)

text \<open>At least one core is reported, whatever the system answers, unless the count is a multiple of \<open>2 ^ 32\<close>.\<close>

lemma DetectLogicalCores_positive:
  assumes "\<not> 2 ^ 32 dvd unat (mc_nprocessors_onln m)"
  shows "DetectLogicalCores m \<noteq> 0"
proof -
  have "(ucast n :: u32) \<noteq> 0" if "\<not> 2 ^ 32 dvd unat n" for n :: i64
  proof
    assume "(ucast n :: u32) = 0"
    then have "unat (ucast n :: u32) = 0" by simp
    then have "unat n mod 2 ^ 32 = 0" by (simp add: unsigned_ucast_eq take_bit_eq_mod)
    with that show False by (simp add: mod_eq_0_iff_dvd)
  qed
  with assms show ?thesis by (auto simp: DetectLogicalCores_def Let_def split: platform.splits option.splits)
qed

text \<open>The example of the header, as the code prints it.\<close>

lemma described_example:
  "DescribeCapabilities
     \<lparr>cap_architecture = ''arm64'', cap_logical_cores = 8, cap_total_memory_bytes = 2 ^ 34, cap_best_available = kNeon,
      cap_neon_available = True, cap_avx2_available = False, cap_avx512_available = False\<rparr> =
   ''architecture: arm64'' @ [newline] @ ''logical_cores: 8'' @ [newline] @ ''memory: 16 GiB'' @ [newline] @
   ''simd: neon (AVX2/AVX-512 unavailable: not an x86_64 target)''"
  by (simp add: DescribeCapabilities_def ToString_SimdLevel_def double_of_u64_def Let_def ilog2.simps format_double_def scale_digits.simps
      round_div_def decimal.simps digit_char_def with_fraction_def drop_zeros_def char_of_def bit_0)

end
