(* ===== verification/Kernels.thy ===== *)
theory Kernels
  imports CpuFeatures
begin

text \<open>
  The SIMD kernels and their dispatch: \<^verbatim>\<open>simd/kernels.h\<close>, \<^verbatim>\<open>kernels_scalar.cpp\<close>, \<^verbatim>\<open>kernels_neon.cpp\<close>,
  \<^verbatim>\<open>kernels_avx2.cpp\<close>, \<^verbatim>\<open>kernels_avx512.cpp\<close>, \<^verbatim>\<open>dispatch.cpp\<close>. A vector register is the list of its 64-bit lanes; lane arithmetic wraps
  around, while the scalar additions of the C++ code are undefined when a signed result overflows and
  are modelled that way. All tiers compute the same sums and counts.
\<close>

section \<open>Scalar and vector primitives\<close>

text \<open>Signed addition in C++: undefined when the result does not fit.\<close>

definition add_i64 :: "i64 \<Rightarrow> i64 \<Rightarrow> i64 res" where
  "add_i64 a b =
     (let s = sint a + sint b in
      if - (2 ^ 63) \<le> s \<and> s < 2 ^ 63 then Inr (a + b) else Inl UndefinedBehaviour)"

text \<open>Lanes from memory, lane-wise operations, and the starts of the blocks of a \<open>w\<close>-lane loop.\<close>

definition load_lanes :: "nat \<Rightarrow> i64 list \<Rightarrow> nat \<Rightarrow> i64 list res" where
  "load_lanes w data i = (if i + w \<le> length data then Inr (take w (drop i data)) else Inl UndefinedBehaviour)"

definition lanes_add :: "i64 list \<Rightarrow> i64 list \<Rightarrow> i64 list" where
  "lanes_add u v = map2 (+) u v"

definition lanes_sub :: "i64 list \<Rightarrow> i64 list \<Rightarrow> i64 list" where
  "lanes_sub u v = map2 (-) u v"

definition lanes_and :: "i64 list \<Rightarrow> i64 list \<Rightarrow> i64 list" where
  "lanes_and u v = map2 (AND) u v"

definition lanes_cmpgt :: "i64 list \<Rightarrow> i64 list \<Rightarrow> i64 list" where
  "lanes_cmpgt u v = map2 (\<lambda>x y. if sint x > sint y then - 1 else 0) u v"

definition lanes_reduce_add :: "i64 list \<Rightarrow> i64" where
  "lanes_reduce_add v = foldl (+) 0 v"

definition block_starts :: "nat \<Rightarrow> nat \<Rightarrow> nat list" where
  "block_starts w n = map (\<lambda>b. b * w) [0..<n div w]"

definition tail_indices :: "nat \<Rightarrow> nat \<Rightarrow> nat list" where
  "tail_indices w n = [(n div w) * w..<n]"

record FilterSumResult =
  fs_matched_count :: u64
  fs_sum :: i64

section \<open>The kernels\<close>

definition sum_step :: "i64 list \<Rightarrow> nat \<Rightarrow> i64 \<Rightarrow> i64 res" where
  "sum_step data i acc = bind_res (vec_idx data i) (\<lambda>x. add_i64 acc x)"

definition filter_step :: "i64 list \<Rightarrow> i64 list \<Rightarrow> i64 \<Rightarrow> nat \<Rightarrow> FilterSumResult \<Rightarrow> FilterSumResult res" where
  "filter_step pred out threshold i result =
     bind_res (vec_idx pred i) (\<lambda>p.
       if sint p > sint threshold then
         bind_res (vec_idx out i) (\<lambda>x.
         bind_res (add_i64 (fs_sum result) x) (\<lambda>s.
           Inr (result\<lparr>fs_sum := s, fs_matched_count := fs_matched_count result + 1\<rparr>)))
       else Inr result)"

definition Sum_Scalar :: "i64 list \<Rightarrow> nat \<Rightarrow> i64 res" where
  "Sum_Scalar data n = fold_res (sum_step data) [0..<n] 0"

definition FilterGtSum_Scalar :: "i64 list \<Rightarrow> i64 list \<Rightarrow> nat \<Rightarrow> i64 \<Rightarrow> FilterSumResult res" where
  "FilterGtSum_Scalar pred out n threshold =
     fold_res (filter_step pred out threshold) [0..<n] \<lparr>fs_matched_count = 0, fs_sum = 0\<rparr>"

definition Sum_Neon :: "i64 list \<Rightarrow> nat \<Rightarrow> i64 res" where
  "Sum_Neon data n =
     bind_res (fold_res (\<lambda>i (acc0, acc1).
         bind_res (load_lanes 2 data i) (\<lambda>v0.
         bind_res (load_lanes 2 data (i + 2)) (\<lambda>v1.
           Inr (lanes_add acc0 v0, lanes_add acc1 v1)))) (block_starts 4 n) ([0, 0], [0, 0])) (\<lambda>(acc0, acc1).
     fold_res (sum_step data) (tail_indices 4 n) (lanes_reduce_add (lanes_add acc0 acc1)))"

definition FilterGtSum_Neon :: "i64 list \<Rightarrow> i64 list \<Rightarrow> nat \<Rightarrow> i64 \<Rightarrow> FilterSumResult res" where
  "FilterGtSum_Neon pred out n threshold =
     bind_res (fold_res (\<lambda>i (sum_acc, count_acc).
         bind_res (load_lanes 2 pred i) (\<lambda>pred_vec.
         bind_res (load_lanes 2 out i) (\<lambda>out_vec.
           let mask = lanes_cmpgt pred_vec [threshold, threshold] in
           Inr (lanes_add sum_acc (lanes_and mask out_vec), lanes_sub count_acc mask))))
       (block_starts 2 n) ([0, 0], [0, 0])) (\<lambda>(sum_acc, count_acc).
     fold_res (filter_step pred out threshold) (tail_indices 2 n)
       \<lparr>fs_matched_count = lanes_reduce_add count_acc, fs_sum = lanes_reduce_add sum_acc\<rparr>)"

text \<open>\<^verbatim>\<open>HorizontalSum\<close> of the AVX2 tier: the last addition is a scalar one.\<close>

definition HorizontalSum :: "i64 list \<Rightarrow> i64 res" where
  "HorizontalSum v =
     (let lo = take 2 v; hi = drop 2 v; sum128 = lanes_add lo hi in add_i64 (sum128 ! 0) (sum128 ! 1))"

definition Sum_Avx2 :: "i64 list \<Rightarrow> nat \<Rightarrow> i64 res" where
  "Sum_Avx2 data n =
     bind_res (fold_res (\<lambda>i acc. bind_res (load_lanes 4 data i) (\<lambda>v. Inr (lanes_add acc v)))
       (block_starts 4 n) [0, 0, 0, 0]) (\<lambda>acc.
     bind_res (HorizontalSum acc) (\<lambda>sum.
     fold_res (sum_step data) (tail_indices 4 n) sum))"

definition FilterGtSum_Avx2 :: "i64 list \<Rightarrow> i64 list \<Rightarrow> nat \<Rightarrow> i64 \<Rightarrow> FilterSumResult res" where
  "FilterGtSum_Avx2 pred out n threshold =
     bind_res (fold_res (\<lambda>i (sum_acc, count_acc).
         bind_res (load_lanes 4 pred i) (\<lambda>pred_vec.
         bind_res (load_lanes 4 out i) (\<lambda>out_vec.
           let mask = lanes_cmpgt pred_vec (replicate 4 threshold) in
           Inr (lanes_add sum_acc (lanes_and mask out_vec), lanes_sub count_acc mask))))
       (block_starts 4 n) (replicate 4 0, replicate 4 0)) (\<lambda>(sum_acc, count_acc).
     bind_res (HorizontalSum sum_acc) (\<lambda>sum.
     bind_res (HorizontalSum count_acc) (\<lambda>count.
     fold_res (filter_step pred out threshold) (tail_indices 4 n) \<lparr>fs_matched_count = count, fs_sum = sum\<rparr>)))"

definition Sum_Avx512 :: "i64 list \<Rightarrow> nat \<Rightarrow> i64 res" where
  "Sum_Avx512 data n =
     bind_res (fold_res (\<lambda>i acc. bind_res (load_lanes 8 data i) (\<lambda>v. Inr (lanes_add acc v)))
       (block_starts 8 n) (replicate 8 0)) (\<lambda>acc.
     fold_res (sum_step data) (tail_indices 8 n) (lanes_reduce_add acc))"

text \<open>The mask register of the AVX-512 comparison, one bit per lane.\<close>

definition cmpgt_mask :: "i64 list \<Rightarrow> i64 list \<Rightarrow> bool list" where
  "cmpgt_mask u v = map2 (\<lambda>x y. sint x > sint y) u v"

definition maskz_mov :: "bool list \<Rightarrow> i64 list \<Rightarrow> i64 list" where
  "maskz_mov k v = map2 (\<lambda>m x. if m then x else 0) k v"

definition FilterGtSum_Avx512 :: "i64 list \<Rightarrow> i64 list \<Rightarrow> nat \<Rightarrow> i64 \<Rightarrow> FilterSumResult res" where
  "FilterGtSum_Avx512 pred out n threshold =
     bind_res (fold_res (\<lambda>i (sum_acc, matched).
         bind_res (load_lanes 8 pred i) (\<lambda>pred_vec.
         bind_res (load_lanes 8 out i) (\<lambda>out_vec.
           let mask = cmpgt_mask pred_vec (replicate 8 threshold) in
           Inr (lanes_add sum_acc (maskz_mov mask out_vec), matched + of_nat (count_list mask True)))))
       (block_starts 8 n) (replicate 8 0, 0)) (\<lambda>(sum_acc, matched).
     fold_res (filter_step pred out threshold) (tail_indices 8 n)
       \<lparr>fs_matched_count = matched, fs_sum = lanes_reduce_add sum_acc\<rparr>)"

text \<open>The dispatcher: the tier a target compiles in and the level selects, the scalar kernel otherwise.\<close>

definition Sum :: "target \<Rightarrow> SimdLevel \<Rightarrow> i64 list \<Rightarrow> nat \<Rightarrow> i64 res" where
  "Sum t level data n =
     (if t = X86_64 \<and> level = kAvx512 then Sum_Avx512 data n
      else if t = X86_64 \<and> level = kAvx2 then Sum_Avx2 data n
      else if t = Arm64 \<and> level = kNeon then Sum_Neon data n
      else Sum_Scalar data n)"

definition FilterGtSum :: "target \<Rightarrow> SimdLevel \<Rightarrow> i64 list \<Rightarrow> i64 list \<Rightarrow> nat \<Rightarrow> i64 \<Rightarrow> FilterSumResult res" where
  "FilterGtSum t level pred out n threshold =
     (if t = X86_64 \<and> level = kAvx512 then FilterGtSum_Avx512 pred out n threshold
      else if t = X86_64 \<and> level = kAvx2 then FilterGtSum_Avx2 pred out n threshold
      else if t = Arm64 \<and> level = kNeon then FilterGtSum_Neon pred out n threshold
      else FilterGtSum_Scalar pred out n threshold)"

section \<open>Integer sums behind the words\<close>

lemma sint_of_int: "\<bar>a\<bar> < 2 ^ 63 \<Longrightarrow> sint (of_int a :: i64) = a"
  by (simp add: signed_of_int signed_take_bit_int_eq_self)

lemma add_i64_of_int:
  assumes "\<bar>a\<bar> < 2 ^ 63" "\<bar>b\<bar> < 2 ^ 63" "\<bar>a + b\<bar> < 2 ^ 63"
  shows "add_i64 (of_int a) (of_int b) = Inr (of_int (a + b))"
proof -
  have "- (2 ^ 63) \<le> a + b" "a + b < 2 ^ 63" using assms(3) by linarith+
  then show ?thesis using sint_of_int [OF assms(1)] sint_of_int [OF assms(2)] by (simp add: add_i64_def Let_def)
qed

lemma add_i64_word:
  assumes "\<bar>a\<bar> + \<bar>sint x\<bar> < 2 ^ 63"
  shows "add_i64 (of_int a) x = Inr (of_int (a + sint x))"
  using add_i64_of_int [of a "sint x"] assms by simp

lemma sum_abs_le: "\<bar>\<Sum>i\<in>I. f i\<bar> \<le> (\<Sum>i\<in>I. \<bar>f i :: int\<bar>)"
  by (rule sum_abs)

text \<open>A loop over block starts that takes \<open>F b\<close> to \<open>F (b + 1)\<close>.\<close>

lemma block_loop:
  assumes "\<And>b. b < k \<Longrightarrow> step (b * w) (F b) = Inr (F (Suc b))"
  shows "fold_res step (map (\<lambda>b. b * w) [0..<k]) (F 0) = Inr (F k)"
  using assms by (induction k) (simp_all add: fold_res_append)

definition lane_sums :: "nat \<Rightarrow> (nat \<Rightarrow> int) \<Rightarrow> nat \<Rightarrow> i64 list" where
  "lane_sums w V k = map (\<lambda>l. of_int (\<Sum>b<k. V (b * w + l))) [0..<w]"

lemma map2_map_upt: "map2 f (map g [0..<n]) (map h [0..<n]) = map (\<lambda>l. f (g l) (h l)) [0..<n]"
  by (rule nth_equalityI) simp_all

lemma lane_sums_0 [simp]: "lane_sums w V 0 = replicate w 0"
  by (rule nth_equalityI) (simp_all add: lane_sums_def)

lemma lane_sums_Suc:
  "lanes_add (lane_sums w V k) (map (\<lambda>l. of_int (V (k * w + l))) [0..<w]) = lane_sums w V (Suc k)"
  by (simp add: lanes_add_def lane_sums_def map2_map_upt)

lemma sum_blocks:
  fixes f :: "nat \<Rightarrow> int"
  shows "(\<Sum>l<w. \<Sum>b<k. f (b * w + l)) = (\<Sum>i<k * w. f i)"
proof -
  have "(\<Sum>l<w. \<Sum>b<k. f (b * w + l)) = (\<Sum>b<k. \<Sum>l<w. f (b * w + l))" by (rule sum.swap)
  also have "\<dots> = (\<Sum>b<k. sum f {b * w..<b * w + w})"
    by (rule sum.cong [OF refl]) (simp add: sum.atLeastLessThan_shift_0 [of f] lessThan_atLeast0 comp_def)
  also have "\<dots> = (\<Sum>i<k * w. f i)" by (rule sum.nat_group)
  finally show ?thesis .
qed

lemma reduce_lane_sums: "lanes_reduce_add (lane_sums w V k) = of_int (\<Sum>i<k * w. V i)"
proof -
  have "lanes_reduce_add (lane_sums w V k) = (\<Sum>l<w. of_int (\<Sum>b<k. V (b * w + l)))"
    by (simp add: lanes_reduce_add_def lane_sums_def foldl_conv_fold fold_plus_sum_list_rev interv_sum_list_conv_sum_set_nat
        lessThan_atLeast0 add.commute)
  also have "\<dots> = of_int (\<Sum>l<w. \<Sum>b<k. V (b * w + l))" by simp
  finally show ?thesis by (simp only: sum_blocks)
qed

lemma load_lanes_in:
  assumes "i + w \<le> length data"
  shows "load_lanes w data i = Inr (map (\<lambda>l. of_int (sint (data ! (i + l)))) [0..<w])"
proof -
  have "take w (drop i data) = map (\<lambda>l. data ! (i + l)) [0..<w]"
    using assms by (intro nth_equalityI) simp_all
  then show ?thesis using assms by (simp add: load_lanes_def)
qed

lemma block_in: "b < n div w \<Longrightarrow> b * w + w \<le> (n::nat)"
proof -
  assume "b < n div w"
  then have "Suc b * w \<le> n div w * w" by (intro mult_le_mono1) simp
  also have "\<dots> \<le> n" by simp
  finally show ?thesis by simp
qed

text \<open>The scalar tail (and the whole scalar kernel), from an accumulator that holds an integer.\<close>

lemma sum_tail:
  assumes "m \<le> n" "n \<le> length data" "\<bar>a\<bar> + (\<Sum>i=m..<n. \<bar>sint (data ! i)\<bar>) < 2 ^ 63"
  shows "fold_res (sum_step data) [m..<n] (of_int a) = Inr (of_int (a + (\<Sum>i=m..<n. sint (data ! i))))"
  using assms
proof (induction n)
  case (Suc n)
  show ?case
  proof (cases "m = Suc n")
    case False
    then have mn: "m \<le> n" using Suc.prems(1) by simp
    have "\<bar>a\<bar> + (\<Sum>i=m..<n. \<bar>sint (data ! i)\<bar>) + \<bar>sint (data ! n)\<bar> < 2 ^ 63" using Suc.prems(3) mn by simp
    moreover note sum_abs_le [of "\<lambda>i. sint (data ! i)" "{m..<n}"]
    ultimately have b: "\<bar>a + (\<Sum>i=m..<n. sint (data ! i))\<bar> + \<bar>sint (data ! n)\<bar> < 2 ^ 63"
      "\<bar>a\<bar> + (\<Sum>i=m..<n. \<bar>sint (data ! i)\<bar>) < 2 ^ 63" by linarith+
    from Suc.IH [OF mn _ b(2)] Suc.prems(2) add_i64_word [OF b(1)] mn show ?thesis
      by (simp add: fold_res_append sum_step_def add.assoc)
  qed simp
qed simp

lemma sum_split_at: "m \<le> n \<Longrightarrow> (\<Sum>i<m. f i) + (\<Sum>i=m..<n. f i) = (\<Sum>i<n. f i :: int)" for n :: nat
  by (simp add: lessThan_atLeast0 sum.atLeastLessThan_concat)

lemma finish_sum:
  assumes "n \<le> length data" "(\<Sum>i<n. \<bar>sint (data ! i)\<bar>) < 2 ^ 63"
  shows "fold_res (sum_step data) (tail_indices w n) (of_int (\<Sum>i<(n div w) * w. sint (data ! i))) =
    Inr (of_int (\<Sum>i<n. sint (data ! i)))"
proof -
  let ?m = "(n div w) * w" and ?V = "\<lambda>i. sint (data ! i)"
  have m: "?m \<le> n" by simp
  have "\<bar>\<Sum>i<?m. ?V i\<bar> + (\<Sum>i=?m..<n. \<bar>?V i\<bar>) \<le> (\<Sum>i<?m. \<bar>?V i\<bar>) + (\<Sum>i=?m..<n. \<bar>?V i\<bar>)"
    using sum_abs_le [of ?V "{..<?m}"] by linarith
  also have "\<dots> < 2 ^ 63" using sum_split_at [OF m, of "\<lambda>i. \<bar>?V i\<bar>"] assms(2) by linarith
  finally have b: "\<bar>\<Sum>i<?m. ?V i\<bar> + (\<Sum>i=?m..<n. \<bar>?V i\<bar>) < 2 ^ 63" .
  show ?thesis unfolding tail_indices_def sum_tail [OF m assms(1) b] sum_split_at [OF m] ..
qed

text \<open>What row \<open>i\<close> adds to the filtered sum and to the count.\<close>

definition hit :: "i64 list \<Rightarrow> i64 list \<Rightarrow> i64 \<Rightarrow> nat \<Rightarrow> int" where
  "hit pred out threshold i = (if sint (pred ! i) > sint threshold then sint (out ! i) else 0)"

definition hits :: "i64 list \<Rightarrow> i64 \<Rightarrow> nat \<Rightarrow> int" where
  "hits pred threshold i = (if sint (pred ! i) > sint threshold then 1 else 0)"

lemma filter_tail:
  assumes "m \<le> n" "n \<le> length pred" "n \<le> length out" "\<bar>a\<bar> + (\<Sum>i=m..<n. \<bar>hit pred out t i\<bar>) < 2 ^ 63"
  shows "fold_res (filter_step pred out t) [m..<n] \<lparr>fs_matched_count = of_int c, fs_sum = of_int a\<rparr> =
    Inr \<lparr>fs_matched_count = of_int (c + (\<Sum>i=m..<n. hits pred t i)), fs_sum = of_int (a + (\<Sum>i=m..<n. hit pred out t i))\<rparr>"
  using assms
proof (induction n)
  case (Suc n)
  show ?case
  proof (cases "m = Suc n")
    case False
    then have mn: "m \<le> n" using Suc.prems(1) by simp
    let ?s = "\<Sum>i=m..<n. hit pred out t i"
    have "\<bar>a\<bar> + (\<Sum>i=m..<n. \<bar>hit pred out t i\<bar>) + \<bar>hit pred out t n\<bar> < 2 ^ 63" using Suc.prems(4) mn by simp
    moreover note sum_abs_le [of "hit pred out t" "{m..<n}"]
    ultimately have b: "\<bar>a + ?s\<bar> + \<bar>hit pred out t n\<bar> < 2 ^ 63"
      "\<bar>a\<bar> + (\<Sum>i=m..<n. \<bar>hit pred out t i\<bar>) < 2 ^ 63" by linarith+
    have step: "filter_step pred out t n \<lparr>fs_matched_count = of_int c', fs_sum = of_int (a + ?s)\<rparr> =
        Inr \<lparr>fs_matched_count = of_int (c' + hits pred t n), fs_sum = of_int (a + ?s + hit pred out t n)\<rparr>" for c'
      using Suc.prems(2,3) add_i64_word [of "a + ?s" "out ! n"] b(1)
      by (auto simp: filter_step_def hit_def hits_def)
    have len: "n \<le> length pred" "n \<le> length out" using Suc.prems(2,3) by simp_all
    show ?thesis
      unfolding upt_Suc_append [OF mn] fold_res_append Suc.IH [OF mn len b(2)] sum.atLeastLessThan_Suc [OF mn]
      by (simp only: bind_res_simps fold_res.simps step add.assoc)
  qed simp
qed simp

lemma finish_filter:
  assumes "n \<le> length pred" "n \<le> length out" "(\<Sum>i<n. \<bar>hit pred out t i\<bar>) < 2 ^ 63"
  shows "fold_res (filter_step pred out t) (tail_indices w n)
      \<lparr>fs_matched_count = of_int (\<Sum>i<(n div w) * w. hits pred t i), fs_sum = of_int (\<Sum>i<(n div w) * w. hit pred out t i)\<rparr> =
    Inr \<lparr>fs_matched_count = of_int (\<Sum>i<n. hits pred t i), fs_sum = of_int (\<Sum>i<n. hit pred out t i)\<rparr>"
proof -
  let ?m = "(n div w) * w"
  have m: "?m \<le> n" by simp
  have "\<bar>\<Sum>i<?m. hit pred out t i\<bar> + (\<Sum>i=?m..<n. \<bar>hit pred out t i\<bar>) \<le>
      (\<Sum>i<?m. \<bar>hit pred out t i\<bar>) + (\<Sum>i=?m..<n. \<bar>hit pred out t i\<bar>)"
    using sum_abs_le [of "hit pred out t" "{..<?m}"] by linarith
  also have "\<dots> < 2 ^ 63" using sum_split_at [OF m, of "\<lambda>i. \<bar>hit pred out t i\<bar>"] assms(3) by linarith
  finally have b: "\<bar>\<Sum>i<?m. hit pred out t i\<bar> + (\<Sum>i=?m..<n. \<bar>hit pred out t i\<bar>) < 2 ^ 63" .
  show ?thesis
    unfolding tail_indices_def filter_tail [OF m assms(1,2) b] sum_split_at [OF m] ..
qed

lemma mask_and_out:
  "lanes_and (lanes_cmpgt (map (\<lambda>l. of_int (sint (pred ! (i + l)))) [0..<w]) (replicate w t)) (map (\<lambda>l. of_int (sint (out ! (i + l)))) [0..<w]) =
   map (\<lambda>l. of_int (hit pred out t (i + l))) [0..<w]"
  by (rule nth_equalityI) (simp_all add: lanes_and_def lanes_cmpgt_def hit_def)

lemma mask_count:
  "lanes_sub (lane_sums w (hits pred t) k) (lanes_cmpgt (map (\<lambda>l. of_int (sint (pred ! (k * w + l)))) [0..<w]) (replicate w t)) =
   lane_sums w (hits pred t) (Suc k)"
  by (rule nth_equalityI) (simp_all add: lanes_sub_def lanes_cmpgt_def lane_sums_def hits_def)

lemma mask_mov:
  "maskz_mov (cmpgt_mask (map (\<lambda>l. of_int (sint (pred ! (i + l)))) [0..<w]) (replicate w t)) (map (\<lambda>l. of_int (sint (out ! (i + l)))) [0..<w]) =
   map (\<lambda>l. of_int (hit pred out t (i + l))) [0..<w]"
  by (rule nth_equalityI) (simp_all add: maskz_mov_def cmpgt_mask_def hit_def)

lemma sum4: "(\<Sum>l<4. f l) = f 0 + f 1 + f 2 + (f 3 :: int)" for f :: "nat \<Rightarrow> int"
  by (simp add: eval_nat_numeral)

lemma HorizontalSum_lanes:
  assumes "(\<Sum>i<k * 4. \<bar>V i\<bar>) < 2 ^ 63"
  shows "HorizontalSum (lane_sums 4 V k) = Inr (of_int (\<Sum>i<k * 4. V i))"
proof -
  define s where "s l = (\<Sum>b<k. V (b * 4 + l))" for l
  define A where "A l = (\<Sum>b<k. \<bar>V (b * 4 + l)\<bar>)" for l
  have sA: "\<bar>s l\<bar> \<le> A l" for l unfolding s_def A_def by (rule sum_abs_le)
  have A: "A 0 + A 1 + A 2 + A 3 < 2 ^ 63" using assms sum_blocks [where w = 4 and k = k and f = "\<lambda>i. \<bar>V i\<bar>"] by (simp only: sum4 A_def)
  have S: "s 0 + s 1 + s 2 + s 3 = (\<Sum>i<k * 4. V i)" using sum_blocks [where w = 4 and k = k and f = V] by (simp only: sum4 s_def)
  have pos: "A l \<ge> 0" for l unfolding A_def by (rule sum_nonneg) simp
  have "lane_sums 4 V k = [of_int (s 0), of_int (s 1), of_int (s 2), of_int (s 3)]"
    by (simp add: lane_sums_def s_def upt_rec numeral_3_eq_3)
  then have "HorizontalSum (lane_sums 4 V k) = add_i64 (of_int (s 0 + s 2)) (of_int (s 1 + s 3))"
    by (simp add: HorizontalSum_def lanes_add_def Let_def)
  also have "\<dots> = Inr (of_int ((s 0 + s 2) + (s 1 + s 3)))"
    using sA [of 0] sA [of 1] sA [of 2] sA [of 3] A pos [of 0] pos [of 1] pos [of 2] pos [of 3]
    by (intro add_i64_of_int) linarith+
  also have "(s 0 + s 2) + (s 1 + s 3) = (\<Sum>i<k * 4. V i)" using S by simp
  finally show ?thesis .
qed

section \<open>The contract of a tier\<close>

text \<open>
  What a tier promises: for arrays that hold the rows, a sum of magnitudes below \<open>2 ^ 63\<close> and fewer than
  \<open>2 ^ 63\<close> rows, it returns the exact sum and count. Its clients, the execution engine among them, use
  nothing else.
\<close>

definition filter_sum :: "i64 list \<Rightarrow> i64 list \<Rightarrow> nat \<Rightarrow> i64 \<Rightarrow> FilterSumResult" where
  "filter_sum pred out n t =
     \<lparr>fs_matched_count = of_int (\<Sum>i<n. hits pred t i), fs_sum = of_int (\<Sum>i<n. hit pred out t i)\<rparr>"

definition in_range :: "i64 list \<Rightarrow> i64 list \<Rightarrow> nat \<Rightarrow> i64 \<Rightarrow> bool" where
  "in_range pred out n t \<longleftrightarrow> n \<le> length pred \<and> n \<le> length out \<and> n < 2 ^ 63 \<and> (\<Sum>i<n. \<bar>hit pred out t i\<bar>) < 2 ^ 63"

locale kernel_tier =
  fixes sum_k :: "i64 list \<Rightarrow> nat \<Rightarrow> i64 res"
    and filter_k :: "i64 list \<Rightarrow> i64 list \<Rightarrow> nat \<Rightarrow> i64 \<Rightarrow> FilterSumResult res"
  assumes sum_exact: "n \<le> length data \<Longrightarrow> (\<Sum>i<n. \<bar>sint (data ! i)\<bar>) < 2 ^ 63 \<Longrightarrow>
      sum_k data n = Inr (of_int (\<Sum>i<n. sint (data ! i)))"
    and filter_exact: "in_range pred out n t \<Longrightarrow> filter_k pred out n t = Inr (filter_sum pred out n t)"
begin

lemma sum_value:
  assumes "n \<le> length data" "(\<Sum>i<n. \<bar>sint (data ! i)\<bar>) < 2 ^ 63"
  shows "\<exists>s. sum_k data n = Inr s \<and> sint s = (\<Sum>i<n. sint (data ! i))"
proof -
  have "\<bar>\<Sum>i<n. sint (data ! i)\<bar> < 2 ^ 63" using assms(2) sum_abs_le [of "\<lambda>i. sint (data ! i)" "{..<n}"] by linarith
  from sint_of_int [OF this] sum_exact [OF assms] show ?thesis by blast
qed

text \<open>A batch at an offset contributes the rows of that batch.\<close>

lemma filter_batch:
  assumes "in_range pred out n t" "m + c \<le> n"
  shows "filter_k (drop m pred) (drop m out) c t =
    Inr \<lparr>fs_matched_count = of_int (\<Sum>i=m..<m + c. hits pred t i), fs_sum = of_int (\<Sum>i=m..<m + c. hit pred out t i)\<rparr>"
proof -
  have h: "i < c \<Longrightarrow> hit (drop m pred) (drop m out) t i = hit pred out t (m + i)"
    "i < c \<Longrightarrow> hits (drop m pred) t i = hits pred t (m + i)" for i
    using assms by (auto simp: hit_def hits_def in_range_def)
  have shift: "(\<Sum>i<c. f (m + i)) = (\<Sum>i=m..<m + c. f i)" for f :: "nat \<Rightarrow> int"
    by (simp add: sum.atLeastLessThan_shift_0 [of f] lessThan_atLeast0 comp_def)
  have "(\<Sum>i=m..<m + c. \<bar>hit pred out t i\<bar>) \<le> (\<Sum>i<n. \<bar>hit pred out t i\<bar>)"
    using assms(2) by (intro sum_mono2) auto
  then have "(\<Sum>i<c. \<bar>hit (drop m pred) (drop m out) t i\<bar>) < 2 ^ 63"
    using assms(1) shift [of "\<lambda>i. \<bar>hit pred out t i\<bar>"] by (simp add: h in_range_def)
  then have "in_range (drop m pred) (drop m out) c t" using assms by (auto simp: in_range_def)
  note exact = filter_exact [OF this]
  have "(\<Sum>i<c. hit (drop m pred) (drop m out) t i) = (\<Sum>i=m..<m + c. hit pred out t i)"
    "(\<Sum>i<c. hits (drop m pred) t i) = (\<Sum>i=m..<m + c. hits pred t i)"
    unfolding shift [symmetric] using h by (auto intro: sum.cong)
  then show ?thesis unfolding exact filter_sum_def by simp
qed

end

interpretation scalar_tier: kernel_tier Sum_Scalar FilterGtSum_Scalar
proof
  fix data :: "i64 list" and n assume "n \<le> length data" "(\<Sum>i<n. \<bar>sint (data ! i)\<bar>) < 2 ^ 63"
  then show "Sum_Scalar data n = Inr (of_int (\<Sum>i<n. sint (data ! i)))"
    using sum_tail [of 0 n data 0] by (simp only: Sum_Scalar_def lessThan_atLeast0) simp
next
  fix pred out :: "i64 list" and n t assume "in_range pred out n t"
  then show "FilterGtSum_Scalar pred out n t = Inr (filter_sum pred out n t)"
    using filter_tail [of 0 n pred out 0 t 0] by (simp only: FilterGtSum_Scalar_def filter_sum_def lessThan_atLeast0 in_range_def) simp
qed

text \<open>Wherever the scalar loop is defined at all, it returns the exact filtered sum.\<close>

lemma filter_scalar_defined: "FilterGtSum_Scalar pred out n t = Inr r \<Longrightarrow> r = filter_sum pred out n t"
proof (induction n arbitrary: r)
  case 0
  then show ?case by (simp add: FilterGtSum_Scalar_def filter_sum_def)
next
  case (Suc n)
  then obtain r0 where r0: "FilterGtSum_Scalar pred out n t = Inr r0" "filter_step pred out t n r0 = Inr r"
    by (auto simp: FilterGtSum_Scalar_def fold_res_append)
  from Suc.IH [OF r0(1)] r0(2) show ?case
    by (auto simp: filter_step_def filter_sum_def add_i64_def vec_idx_def hit_def hits_def Let_def add.commute split: if_splits)
qed

text \<open>The block loops of the vector tiers.\<close>

lemma sum_block_loop:
  assumes "n \<le> length data"
  shows "fold_res (\<lambda>i acc. bind_res (load_lanes w data i) (\<lambda>v. Inr (lanes_add acc v))) (block_starts w n) (replicate w 0) =
    Inr (lane_sums w (\<lambda>i. sint (data ! i)) (n div w))"
  unfolding block_starts_def lane_sums_0 [of w "\<lambda>i. sint (data ! i)", symmetric]
proof (rule block_loop)
  fix b assume "b < n div w"
  from block_in [OF this] assms have "b * w + w \<le> length data" by simp
  from load_lanes_in [OF this]
  show "bind_res (load_lanes w data (b * w)) (\<lambda>v. Inr (lanes_add (lane_sums w (\<lambda>i. sint (data ! i)) b) v)) =
      Inr (lane_sums w (\<lambda>i. sint (data ! i)) (Suc b))"
    by (simp only: bind_res_simps lane_sums_Suc [of w "\<lambda>i. sint (data ! i)" b])
qed

lemma filter_block_loop:
  assumes "n \<le> length pred" "n \<le> length out"
  shows "fold_res (\<lambda>i (sum_acc, count_acc).
      bind_res (load_lanes w pred i) (\<lambda>pred_vec.
      bind_res (load_lanes w out i) (\<lambda>out_vec.
        let mask = lanes_cmpgt pred_vec (replicate w t) in
        Inr (lanes_add sum_acc (lanes_and mask out_vec), lanes_sub count_acc mask))))
      (block_starts w n) (replicate w 0, replicate w 0) =
    Inr (lane_sums w (hit pred out t) (n div w), lane_sums w (hits pred t) (n div w))"
proof -
  let ?F = "\<lambda>k. (lane_sums w (hit pred out t) k, lane_sums w (hits pred t) k)"
  have init: "(replicate w 0, replicate w 0) = ?F 0" by simp
  show ?thesis unfolding block_starts_def init
  proof (rule block_loop [where F = ?F])
    fix b assume "b < n div w"
    from block_in [OF this] assms have l: "b * w + w \<le> length pred" "b * w + w \<le> length out" by simp_all
    show "(case ?F b of (sum_acc, count_acc) \<Rightarrow>
        bind_res (load_lanes w pred (b * w)) (\<lambda>pred_vec. bind_res (load_lanes w out (b * w)) (\<lambda>out_vec.
          let mask = lanes_cmpgt pred_vec (replicate w t) in
          Inr (lanes_add sum_acc (lanes_and mask out_vec), lanes_sub count_acc mask)))) = Inr (?F (Suc b))"
      unfolding prod.case load_lanes_in [OF l(1)] load_lanes_in [OF l(2)] bind_res_simps Let_def mask_and_out lane_sums_Suc mask_count ..
  qed
qed

lemma count_mask: "int (count_list (map P [0..<w]) True) = (\<Sum>l<w. if P l then 1 else 0)"
  by (induction w) simp_all

lemma popcount_block:
  "(of_nat (count_list (cmpgt_mask (map (\<lambda>l. of_int (sint (pred ! (i + l)))) [0..<w]) (replicate w t)) True) :: u64) =
   of_int (\<Sum>j=i..<i + w. hits pred t j)"
proof -
  have "cmpgt_mask (map (\<lambda>l. of_int (sint (pred ! (i + l)))) [0..<w]) (replicate w t) =
      map (\<lambda>l. sint (pred ! (i + l)) > sint t) [0..<w]"
    by (rule nth_equalityI) (simp_all add: cmpgt_mask_def)
  then have "int (count_list (cmpgt_mask (map (\<lambda>l. of_int (sint (pred ! (i + l)))) [0..<w]) (replicate w t)) True) =
      (\<Sum>l<w. hits pred t (i + l))" by (simp only: count_mask hits_def)
  also have "\<dots> = (\<Sum>j=i..<i + w. hits pred t j)"
    by (simp add: sum.atLeastLessThan_shift_0 [of "hits pred t"] lessThan_atLeast0 comp_def)
  finally show ?thesis by (metis of_int_of_nat_eq)
qed

lemma filter_mask_loop:
  assumes "n \<le> length pred" "n \<le> length out"
  shows "fold_res (\<lambda>i (sum_acc, matched).
      bind_res (load_lanes w pred i) (\<lambda>pred_vec.
      bind_res (load_lanes w out i) (\<lambda>out_vec.
        let mask = cmpgt_mask pred_vec (replicate w t) in
        Inr (lanes_add sum_acc (maskz_mov mask out_vec), matched + of_nat (count_list mask True)))))
      (block_starts w n) (replicate w 0, 0 :: u64) =
    Inr (lane_sums w (hit pred out t) (n div w), of_int (\<Sum>i<(n div w) * w. hits pred t i))"
proof -
  let ?F = "\<lambda>k. (lane_sums w (hit pred out t) k, of_int (\<Sum>i<k * w. hits pred t i) :: u64)"
  have init: "(replicate w 0, 0 :: u64) = ?F 0" by simp
  show ?thesis unfolding block_starts_def init
  proof (rule block_loop [where F = ?F])
    fix b assume "b < n div w"
    from block_in [OF this] assms have l: "b * w + w \<le> length pred" "b * w + w \<le> length out" by simp_all
    have "(\<Sum>i<Suc b * w. hits pred t i) = (\<Sum>i<b * w. hits pred t i) + (\<Sum>i=b * w..<b * w + w. hits pred t i)"
      using sum_split_at [of "b * w" "b * w + w" "hits pred t"] by (simp add: add.commute)
    then show "(case ?F b of (sum_acc, matched) \<Rightarrow>
        bind_res (load_lanes w pred (b * w)) (\<lambda>pred_vec. bind_res (load_lanes w out (b * w)) (\<lambda>out_vec.
          let mask = cmpgt_mask pred_vec (replicate w t) in
          Inr (lanes_add sum_acc (maskz_mov mask out_vec), matched + of_nat (count_list mask True))))) = Inr (?F (Suc b))"
      unfolding prod.case load_lanes_in [OF l(1)] load_lanes_in [OF l(2)] bind_res_simps Let_def mask_mov lane_sums_Suc popcount_block
      by (simp only: of_int_add)
  qed
qed

interpretation avx512_tier: kernel_tier Sum_Avx512 FilterGtSum_Avx512
proof
  fix data :: "i64 list" and n assume a: "n \<le> length data" "(\<Sum>i<n. \<bar>sint (data ! i)\<bar>) < 2 ^ 63"
  show "Sum_Avx512 data n = Inr (of_int (\<Sum>i<n. sint (data ! i)))"
    unfolding Sum_Avx512_def sum_block_loop [OF a(1)] bind_res_simps reduce_lane_sums finish_sum [OF a] ..
next
  fix pred out :: "i64 list" and n t assume "in_range pred out n t"
  then have r: "n \<le> length pred" "n \<le> length out" "(\<Sum>i<n. \<bar>hit pred out t i\<bar>) < 2 ^ 63" by (simp_all add: in_range_def)
  show "FilterGtSum_Avx512 pred out n t = Inr (filter_sum pred out n t)"
    unfolding FilterGtSum_Avx512_def filter_mask_loop [OF r(1,2)] bind_res_simps prod.case reduce_lane_sums finish_filter [OF r] filter_sum_def ..
qed

interpretation avx2_tier: kernel_tier Sum_Avx2 FilterGtSum_Avx2
proof
  fix data :: "i64 list" and n assume a: "n \<le> length data" "(\<Sum>i<n. \<bar>sint (data ! i)\<bar>) < 2 ^ 63"
  have "(\<Sum>i<n div 4 * 4. \<bar>sint (data ! i)\<bar>) \<le> (\<Sum>i<n. \<bar>sint (data ! i)\<bar>)" by (rule sum_mono2) auto
  with a(2) have b: "(\<Sum>i<n div 4 * 4. \<bar>sint (data ! i)\<bar>) < 2 ^ 63" by linarith
  have z: "[0, 0, 0, 0] = replicate 4 (0::i64)" by (simp add: numeral_eq_Suc)
  show "Sum_Avx2 data n = Inr (of_int (\<Sum>i<n. sint (data ! i)))"
    unfolding Sum_Avx2_def z sum_block_loop [OF a(1)] bind_res_simps HorizontalSum_lanes [OF b] finish_sum [OF a] ..
next
  fix pred out :: "i64 list" and n t assume in_r: "in_range pred out n t"
  then have r: "n \<le> length pred" "n \<le> length out" "(\<Sum>i<n. \<bar>hit pred out t i\<bar>) < 2 ^ 63" by (simp_all add: in_range_def)
  have "(\<Sum>i<n div 4 * 4. \<bar>hit pred out t i\<bar>) \<le> (\<Sum>i<n. \<bar>hit pred out t i\<bar>)" by (rule sum_mono2) auto
  with r(3) have b: "(\<Sum>i<n div 4 * 4. \<bar>hit pred out t i\<bar>) < 2 ^ 63" by linarith
  have "(\<Sum>i<n div 4 * 4. \<bar>hits pred t i\<bar>) \<le> (\<Sum>i<n. 1 :: int)"
    by (rule order_trans [OF sum_mono2 sum_mono]) (auto simp: hits_def)
  with in_r have c: "(\<Sum>i<n div 4 * 4. \<bar>hits pred t i\<bar>) < 2 ^ 63" by (simp add: in_range_def)
  show "FilterGtSum_Avx2 pred out n t = Inr (filter_sum pred out n t)"
    unfolding FilterGtSum_Avx2_def filter_block_loop [OF r(1,2)] bind_res_simps prod.case HorizontalSum_lanes [OF b] HorizontalSum_lanes [OF c]
      finish_filter [OF r] filter_sum_def ..
qed

lemma neon_sum_loop:
  assumes "n \<le> length data"
  shows "fold_res (\<lambda>i (acc0, acc1).
      bind_res (load_lanes 2 data i) (\<lambda>v0.
      bind_res (load_lanes 2 data (i + 2)) (\<lambda>v1.
        Inr (lanes_add acc0 v0, lanes_add acc1 v1)))) (block_starts 4 n) ([0, 0], [0, 0]) =
    Inr (map (\<lambda>l. of_int (\<Sum>b<n div 4. sint (data ! (b * 4 + l)))) [0..<2],
         map (\<lambda>l. of_int (\<Sum>b<n div 4. sint (data ! (b * 4 + 2 + l)))) [0..<2])"
proof -
  let ?A = "\<lambda>off k. map (\<lambda>l. of_int (\<Sum>b<k. sint (data ! (b * 4 + off + l))) :: i64) [0..<2]"
  let ?F = "\<lambda>k. (?A 0 k, ?A 2 k)"
  have init: "([0, 0], [0, 0]) = ?F 0" by (simp add: upt_rec)
  have step: "lanes_add (?A off b) (map (\<lambda>l. of_int (sint (data ! (b * 4 + off + l)))) [0..<2]) = ?A off (Suc b)" for off b
    by (simp add: lanes_add_def map2_map_upt)
  have loop: "fold_res (\<lambda>i (acc0, acc1). bind_res (load_lanes 2 data i) (\<lambda>v0. bind_res (load_lanes 2 data (i + 2)) (\<lambda>v1.
      Inr (lanes_add acc0 v0, lanes_add acc1 v1)))) (block_starts 4 n) (?F 0) = Inr (?F (n div 4))"
    unfolding block_starts_def
  proof (rule block_loop [where F = ?F])
    fix b assume "b < n div 4"
    from block_in [OF this] assms have l: "b * 4 + 2 \<le> length data" "b * 4 + 2 + 2 \<le> length data" by simp_all
    show "(case ?F b of (acc0, acc1) \<Rightarrow> bind_res (load_lanes 2 data (b * 4)) (\<lambda>v0. bind_res (load_lanes 2 data (b * 4 + 2)) (\<lambda>v1.
        Inr (lanes_add acc0 v0, lanes_add acc1 v1)))) = Inr (?F (Suc b))"
      using step [of 0 b] step [of 2 b]
      unfolding prod.case load_lanes_in [OF l(1)] load_lanes_in [OF l(2)] bind_res_simps by (simp only: add_0_right)
  qed
  show ?thesis unfolding init loop by simp
qed

interpretation neon_tier: kernel_tier Sum_Neon FilterGtSum_Neon
proof
  fix data :: "i64 list" and n assume a: "n \<le> length data" "(\<Sum>i<n. \<bar>sint (data ! i)\<bar>) < 2 ^ 63"
  let ?V = "\<lambda>i. sint (data ! i)" and ?k = "n div 4"
  have lanes: "[0..<2] = [0, 1 :: nat]" by (simp add: upt_rec)
  have "lanes_reduce_add (lanes_add (map (\<lambda>l. of_int (\<Sum>b<?k. ?V (b * 4 + l))) [0..<2]) (map (\<lambda>l. of_int (\<Sum>b<?k. ?V (b * 4 + 2 + l))) [0..<2])) =
      of_int ((\<Sum>b<?k. ?V (b * 4 + 0)) + (\<Sum>b<?k. ?V (b * 4 + 1)) + (\<Sum>b<?k. ?V (b * 4 + 2)) + (\<Sum>b<?k. ?V (b * 4 + 3)))"
    by (simp add: lanes_reduce_add_def lanes_add_def lanes numeral_3_eq_3 ac_simps)
  also have "\<dots> = of_int (\<Sum>i<?k * 4. ?V i)" using sum_blocks [where w = 4 and k = ?k and f = ?V] by (simp only: sum4)
  finally show "Sum_Neon data n = Inr (of_int (\<Sum>i<n. sint (data ! i)))"
    unfolding Sum_Neon_def neon_sum_loop [OF a(1)] bind_res_simps prod.case by (simp only: finish_sum [OF a])
next
  fix pred out :: "i64 list" and n t assume "in_range pred out n t"
  then have r: "n \<le> length pred" "n \<le> length out" "(\<Sum>i<n. \<bar>hit pred out t i\<bar>) < 2 ^ 63" by (simp_all add: in_range_def)
  have z: "[0, 0] = replicate 2 (0::i64)" "[t, t] = replicate 2 t" by (simp_all add: numeral_eq_Suc)
  show "FilterGtSum_Neon pred out n t = Inr (filter_sum pred out n t)"
    unfolding FilterGtSum_Neon_def z filter_block_loop [OF r(1,2)] bind_res_simps prod.case reduce_lane_sums finish_filter [OF r] filter_sum_def ..
qed

interpretation dispatch: kernel_tier "Sum t level" "FilterGtSum t level"
  by unfold_locales
    (simp_all add: Sum_def FilterGtSum_def scalar_tier.sum_exact avx512_tier.sum_exact avx2_tier.sum_exact neon_tier.sum_exact
      scalar_tier.filter_exact avx512_tier.filter_exact avx2_tier.filter_exact neon_tier.filter_exact)

lemma filter_sum_values:
  assumes "in_range pred out n t"
  shows "sint (fs_sum (filter_sum pred out n t)) = (\<Sum>i\<in>{i. i < n \<and> sint (pred ! i) > sint t}. sint (out ! i))"
    and "unat (fs_matched_count (filter_sum pred out n t)) = card {i. i < n \<and> sint (pred ! i) > sint t}"
proof -
  let ?M = "{i. i < n \<and> sint (pred ! i) > sint t}"
  have M: "{i \<in> {..<n}. sint (pred ! i) > sint t} = ?M" by auto
  have "\<bar>\<Sum>i<n. hit pred out t i\<bar> < 2 ^ 63"
    using assms sum_abs_le [of "hit pred out t" "{..<n}"] unfolding in_range_def by linarith
  then have "sint (fs_sum (filter_sum pred out n t)) = (\<Sum>i<n. hit pred out t i)"
    unfolding filter_sum_def FilterSumResult.select_convs by (rule sint_of_int)
  also have "\<dots> = (\<Sum>i\<in>?M. sint (out ! i))" unfolding hit_def M [symmetric] by (rule sum.inter_filter [symmetric]) simp
  finally show "sint (fs_sum (filter_sum pred out n t)) = (\<Sum>i\<in>?M. sint (out ! i))" .
  have "(\<Sum>i<n. hits pred t i) = int (card ?M)" unfolding hits_def M [symmetric] by (simp add: sum.inter_filter [symmetric])
  then have "fs_matched_count (filter_sum pred out n t) = of_nat (card ?M)" by (simp only: filter_sum_def FilterSumResult.select_convs of_int_of_nat_eq)
  moreover have "card ?M \<le> n" using card_mono [of "{..<n}" ?M] by auto
  ultimately show "unat (fs_matched_count (filter_sum pred out n t)) = card ?M"
    using assms by (simp add: unat_of_nat in_range_def)
qed

section \<open>Properties\<close>

text \<open>
  C13: every kernel tier, and the dispatcher for every target and detected level, computes the same
  result as the scalar kernel and that result is exact: the sum of the matching rows as an integer and
  their number, for all inputs within the arrays and of fewer than \<open>2 ^ 63\<close> rows whose matching values have
  magnitudes that sum up below \<open>2 ^ 63\<close>.
\<close>

theorem FilterGtSum_tiers_agree:
  assumes "in_range pred out n threshold"
  shows "FilterGtSum t level pred out n threshold = FilterGtSum_Scalar pred out n threshold \<and>
    FilterGtSum_Neon pred out n threshold = FilterGtSum_Scalar pred out n threshold \<and>
    FilterGtSum_Avx2 pred out n threshold = FilterGtSum_Scalar pred out n threshold \<and>
    FilterGtSum_Avx512 pred out n threshold = FilterGtSum_Scalar pred out n threshold \<and>
    (\<exists>r. FilterGtSum_Scalar pred out n threshold = Inr r \<and>
       sint (fs_sum r) = (\<Sum>i\<in>{i. i < n \<and> sint (pred ! i) > sint threshold}. sint (out ! i)) \<and>
       unat (fs_matched_count r) = card {i. i < n \<and> sint (pred ! i) > sint threshold})"
  using filter_sum_values [OF assms] dispatch.filter_exact [OF assms] scalar_tier.filter_exact [OF assms]
    neon_tier.filter_exact [OF assms] avx2_tier.filter_exact [OF assms] avx512_tier.filter_exact [OF assms]
  by auto

theorem FilterGtSum_tiers_agree_witness:
  "FilterGtSum_Avx2 [5, 1, 7] [10, 20, 30] 3 4 = FilterGtSum_Scalar [5, 1, 7] [10, 20, 30] 3 4"
proof -
  have "in_range [5, 1, 7] [10, 20, 30] 3 4" by (simp add: in_range_def hit_def numeral_3_eq_3)
  from FilterGtSum_tiers_agree [OF this] show ?thesis by blast
qed

text \<open>
  Without the bound the tiers differ as C++ programs. On four values whose running sums all fit, the
  scalar loop returns 0, but the lanes of the AVX2 tier wrap around and its closing scalar addition
  overflows, which is undefined behaviour.
\<close>

theorem Sum_Avx2_overflow:
  "Sum_Scalar [2 ^ 62, - (2 ^ 62), 2 ^ 62, - (2 ^ 62)] 4 = Inr 0 \<and>
   Sum_Avx2 [2 ^ 62, - (2 ^ 62), 2 ^ 62, - (2 ^ 62)] 4 = Inl UndefinedBehaviour"
  by code_simp

end
