(* ===== verification/Jit.thy ===== *)
theory Jit
  imports Kernels
begin

text \<open>
  The query compiler: \<^verbatim>\<open>jit/query_jit.h\<close> and \<^verbatim>\<open>jit/query_jit.cpp\<close>. \<open>BuildModule\<close> is the function the code
  builds with the LLVM \<^verbatim>\<open>IRBuilder\<close>, instruction by instruction; the part of the LLVM intermediate
  language it uses is given the meaning of the LLVM language reference by an interpreter with fuel. LLVM
  itself (verifier, optimiser, code generator, linker) is a parameter. The generated loop terminates and
  computes the filtered sum; the code around it reports every LLVM failure as an exception.
\<close>

section \<open>The fragment of LLVM IR in use\<close>

text \<open>
  Values are 64-bit integers, truth values and pointers (an object and the offset of an element in it);
  memory is the list of the objects, each a list of 64-bit cells that may be uninitialised. Instructions
  name the register they define. Integer addition carries no \<^verbatim>\<open>nsw\<close> flag and wraps around.
\<close>

datatype ir_value = I64 i64 | I1 bool | Ptr nat int

datatype ir_operand = Reg string | Imm i64

datatype ir_instr =
    IrAlloca string
  | IrStore ir_operand ir_operand
  | IrLoad string ir_operand
  | IrICmpULT string ir_operand ir_operand
  | IrICmpSGT string ir_operand ir_operand
  | IrGEP string ir_operand ir_operand
  | IrSelect string ir_operand ir_operand ir_operand
  | IrAdd string ir_operand ir_operand

datatype ir_term = IrBr string | IrCondBr ir_operand string string | IrRetVoid

type_synonym ir_blocks = "(string \<times> ir_instr list \<times> ir_term) list"

record ir_function =
  fn_name :: string
  fn_params :: "string list"
  fn_blocks :: ir_blocks

type_synonym ir_regs = "string \<Rightarrow> ir_value option"
type_synonym ir_mem = "i64 option list list"

text \<open>Faults: an operand or label that is undefined or of the wrong type, an access outside memory.\<close>

datatype ir_fault = IllTyped | BadAccess

definition ir_eval :: "ir_regs \<Rightarrow> ir_operand \<Rightarrow> ir_fault + ir_value" where
  "ir_eval regs a =
     (case a of Reg r \<Rightarrow> (case regs r of None \<Rightarrow> Inl IllTyped | Some v \<Rightarrow> Inr v) | Imm c \<Rightarrow> Inr (I64 c))"

definition ir_i64 :: "ir_regs \<Rightarrow> ir_operand \<Rightarrow> ir_fault + i64" where
  "ir_i64 regs a = bind_res (ir_eval regs a) (\<lambda>v. case v of I64 x \<Rightarrow> Inr x | _ \<Rightarrow> Inl IllTyped)"

definition ir_i1 :: "ir_regs \<Rightarrow> ir_operand \<Rightarrow> ir_fault + bool" where
  "ir_i1 regs a = bind_res (ir_eval regs a) (\<lambda>v. case v of I1 b \<Rightarrow> Inr b | _ \<Rightarrow> Inl IllTyped)"

definition ir_ptr :: "ir_regs \<Rightarrow> ir_operand \<Rightarrow> ir_fault + (nat \<times> int)" where
  "ir_ptr regs a = bind_res (ir_eval regs a) (\<lambda>v. case v of Ptr b k \<Rightarrow> Inr (b, k) | _ \<Rightarrow> Inl IllTyped)"

definition ir_valid :: "ir_mem \<Rightarrow> nat \<times> int \<Rightarrow> bool" where
  "ir_valid mem p \<longleftrightarrow> fst p < length mem \<and> 0 \<le> snd p \<and> nat (snd p) < length (mem ! fst p)"

definition ir_read :: "ir_mem \<Rightarrow> nat \<times> int \<Rightarrow> ir_fault + i64" where
  "ir_read mem p =
     (if ir_valid mem p
      then (case mem ! fst p ! nat (snd p) of None \<Rightarrow> Inl BadAccess | Some x \<Rightarrow> Inr x)
      else Inl BadAccess)"

definition ir_write :: "ir_mem \<Rightarrow> nat \<times> int \<Rightarrow> i64 \<Rightarrow> ir_fault + ir_mem" where
  "ir_write mem p x =
     (if ir_valid mem p then Inr (mem[fst p := (mem ! fst p)[nat (snd p) := Some x]]) else Inl BadAccess)"

fun ir_step :: "ir_instr \<Rightarrow> ir_regs \<times> ir_mem \<Rightarrow> ir_fault + (ir_regs \<times> ir_mem)" where
  "ir_step (IrAlloca r) (regs, mem) = Inr (regs(r \<mapsto> Ptr (length mem) 0), mem @ [[None]])"
| "ir_step (IrStore v p) (regs, mem) =
     bind_res (ir_i64 regs v) (\<lambda>x. bind_res (ir_ptr regs p) (\<lambda>q.
       bind_res (ir_write mem q x) (\<lambda>mem. Inr (regs, mem))))"
| "ir_step (IrLoad r p) (regs, mem) =
     bind_res (ir_ptr regs p) (\<lambda>q. bind_res (ir_read mem q) (\<lambda>x. Inr (regs(r \<mapsto> I64 x), mem)))"
| "ir_step (IrICmpULT r a b) (regs, mem) =
     bind_res (ir_i64 regs a) (\<lambda>x. bind_res (ir_i64 regs b) (\<lambda>y. Inr (regs(r \<mapsto> I1 (x < y)), mem)))"
| "ir_step (IrICmpSGT r a b) (regs, mem) =
     bind_res (ir_i64 regs a) (\<lambda>x. bind_res (ir_i64 regs b) (\<lambda>y. Inr (regs(r \<mapsto> I1 (sint x > sint y)), mem)))"
| "ir_step (IrGEP r p a) (regs, mem) =
     bind_res (ir_ptr regs p) (\<lambda>(b, k). bind_res (ir_i64 regs a) (\<lambda>x. Inr (regs(r \<mapsto> Ptr b (k + sint x)), mem)))"
| "ir_step (IrSelect r c a b) (regs, mem) =
     bind_res (ir_i1 regs c) (\<lambda>t. bind_res (ir_i64 regs a) (\<lambda>x. bind_res (ir_i64 regs b) (\<lambda>y.
       Inr (regs(r \<mapsto> I64 (if t then x else y)), mem))))"
| "ir_step (IrAdd r a b) (regs, mem) =
     bind_res (ir_i64 regs a) (\<lambda>x. bind_res (ir_i64 regs b) (\<lambda>y. Inr (regs(r \<mapsto> I64 (x + y)), mem)))"

text \<open>Running from a block, one unit of fuel per block.\<close>

datatype ir_outcome = Returned ir_mem | Fault ir_fault | OutOfFuel

definition ir_target :: "ir_regs \<Rightarrow> ir_term \<Rightarrow> ir_fault + string option" where
  "ir_target regs t =
     (case t of
        IrRetVoid \<Rightarrow> Inr None
      | IrBr l \<Rightarrow> Inr (Some l)
      | IrCondBr c l1 l2 \<Rightarrow> bind_res (ir_i1 regs c) (\<lambda>b. Inr (Some (if b then l1 else l2))))"

fun ir_run :: "nat \<Rightarrow> ir_blocks \<Rightarrow> string \<Rightarrow> ir_regs \<times> ir_mem \<Rightarrow> ir_outcome" where
  "ir_run 0 bs l s = OutOfFuel"
| "ir_run (Suc fuel) bs l s =
     (case map_of bs l of
        None \<Rightarrow> Fault IllTyped
      | Some (cs, t) \<Rightarrow>
          (case fold_res ir_step cs s of
             Inl e \<Rightarrow> Fault e
           | Inr (regs, mem) \<Rightarrow>
               (case ir_target regs t of
                  Inl e \<Rightarrow> Fault e
                | Inr None \<Rightarrow> Returned mem
                | Inr (Some l') \<Rightarrow> ir_run fuel bs l' (regs, mem))))"

definition ir_call :: "nat \<Rightarrow> ir_function \<Rightarrow> ir_value list \<Rightarrow> ir_mem \<Rightarrow> ir_outcome" where
  "ir_call fuel fn args mem =
     (case fn_blocks fn of
        [] \<Rightarrow> Fault IllTyped
      | (l, _) # _ \<Rightarrow> if length args = length (fn_params fn)
          then ir_run fuel (fn_blocks fn) l (map_of (zip (fn_params fn) args), mem) else Fault IllTyped)"

section \<open>The generated function\<close>

definition kFunctionName :: string where
  "kFunctionName = ''coredb_filter_gt_sum''"

definition entry_block :: "ir_instr list \<times> ir_term" where
  "entry_block =
     ([IrAlloca ''i.addr'', IrAlloca ''sum.addr'', IrAlloca ''count.addr'',
       IrStore (Imm 0) (Reg ''i.addr''), IrStore (Imm 0) (Reg ''sum.addr''), IrStore (Imm 0) (Reg ''count.addr'')],
      IrBr ''loop.header'')"

definition header_block :: "ir_instr list \<times> ir_term" where
  "header_block =
     ([IrLoad ''i.val'' (Reg ''i.addr''), IrICmpULT ''loop.cond'' (Reg ''i.val'') (Reg ''n'')],
      IrCondBr (Reg ''loop.cond'') ''loop.body'' ''exit'')"

definition body_block :: "ir_instr list \<times> ir_term" where
  "body_block =
     ([IrGEP ''pred.elem.ptr'' (Reg ''pred'') (Reg ''i.val''),
       IrLoad ''pred.val'' (Reg ''pred.elem.ptr''),
       IrICmpSGT ''matched'' (Reg ''pred.val'') (Reg ''threshold''),
       IrGEP ''out.elem.ptr'' (Reg ''out'') (Reg ''i.val''),
       IrLoad ''out.val'' (Reg ''out.elem.ptr''),
       IrSelect ''masked.val'' (Reg ''matched'') (Reg ''out.val'') (Imm 0),
       IrLoad ''sum.cur'' (Reg ''sum.addr''),
       IrAdd ''sum.new'' (Reg ''sum.cur'') (Reg ''masked.val''),
       IrStore (Reg ''sum.new'') (Reg ''sum.addr''),
       IrSelect ''masked.one'' (Reg ''matched'') (Imm 1) (Imm 0),
       IrLoad ''count.cur'' (Reg ''count.addr''),
       IrAdd ''count.new'' (Reg ''count.cur'') (Reg ''masked.one''),
       IrStore (Reg ''count.new'') (Reg ''count.addr''),
       IrAdd ''i.next'' (Reg ''i.val'') (Imm 1),
       IrStore (Reg ''i.next'') (Reg ''i.addr'')],
      IrBr ''loop.header'')"

definition exit_block :: "ir_instr list \<times> ir_term" where
  "exit_block =
     ([IrLoad ''count.final'' (Reg ''count.addr''), IrStore (Reg ''count.final'') (Reg ''out_count''),
       IrLoad ''sum.final'' (Reg ''sum.addr''), IrStore (Reg ''sum.final'') (Reg ''out_sum'')],
      IrRetVoid)"

definition filter_sum_function :: ir_function where
  "filter_sum_function =
     \<lparr>fn_name = kFunctionName,
      fn_params = [''pred'', ''out'', ''n'', ''threshold'', ''out_count'', ''out_sum''],
      fn_blocks = [(''entry'', entry_block), (''loop.header'', header_block), (''loop.body'', body_block), (''exit'', exit_block)]\<rparr>"

section \<open>Compilation\<close>

text \<open>
  LLVM as a record of parameters: the verifier (true on error, as \<^verbatim>\<open>verifyFunction\<close>), the optimisation
  pipeline, whether the host is detected and the JIT created, whether a module is accepted, and the
  symbol lookup in an added module. A compiled function takes the two arrays, the row count and the
  threshold, and the contents of the two result cells, and returns the new contents of the cells.
\<close>

type_synonym fused_fn = "i64 list \<Rightarrow> i64 list \<Rightarrow> u64 \<Rightarrow> i64 \<Rightarrow> u64 \<times> i64 \<Rightarrow> (u64 \<times> i64) res"

record llvm =
  llvm_verify_fails :: "ir_function \<Rightarrow> bool"
  llvm_optimize :: "ir_function \<Rightarrow> ir_function"
  llvm_host_detected :: bool
  llvm_create_ok :: bool
  llvm_add_ok :: "ir_function \<Rightarrow> bool"
  llvm_lookup :: "ir_function \<Rightarrow> string \<Rightarrow> fused_fn option"

definition BuildModule :: "llvm \<Rightarrow> ir_function res" where
  "BuildModule L = (if llvm_verify_fails L filter_sum_function then Inl RuntimeError else Inr filter_sum_function)"

definition OptimizeModule :: "llvm \<Rightarrow> ir_function \<Rightarrow> ir_function" where
  "OptimizeModule L m = llvm_optimize L m"

record QueryJit =
  qj_compiled_fn :: fused_fn

definition Compile :: "llvm \<Rightarrow> QueryJit res" where
  "Compile L =
     bind_res (BuildModule L) (\<lambda>m.
       let m = OptimizeModule L m in
       if \<not> llvm_host_detected L then Inl UndefinedBehaviour
       else if \<not> llvm_create_ok L then Inl RuntimeError
       else if \<not> llvm_add_ok L m then Inl RuntimeError
       else case llvm_lookup L m kFunctionName of
              None \<Rightarrow> Inl RuntimeError
            | Some f \<Rightarrow> Inr \<lparr>qj_compiled_fn = f\<rparr>)"

definition Run :: "QueryJit \<Rightarrow> i64 list \<Rightarrow> i64 list \<Rightarrow> nat \<Rightarrow> i64 \<Rightarrow> FilterSumResult res" where
  "Run qj pred out n threshold =
     bind_res (qj_compiled_fn qj pred out (of_nat n) threshold (0, 0)) (\<lambda>(count, s).
       Inr \<lparr>fs_matched_count = count, fs_sum = s\<rparr>)"

section \<open>Type soundness\<close>

text \<open>
  The check LLVM's verifier makes of a function, for this fragment: registers are defined once, in every
  block before their use or in a block every path passes, with the right type, and branches go to
  blocks of the function. \<open>ann\<close> gives the registers available at the entry of each block.
\<close>

datatype ir_type = T64 | T1 | TPtr

fun type_of :: "ir_value \<Rightarrow> ir_type" where
  "type_of (I64 x) = T64"
| "type_of (I1 b) = T1"
| "type_of (Ptr b k) = TPtr"

type_synonym ir_env = "(string \<times> ir_type) list"

definition op_has_type :: "ir_env \<Rightarrow> ir_operand \<Rightarrow> ir_type \<Rightarrow> bool" where
  "op_has_type env a t = (case a of Reg r \<Rightarrow> map_of env r = Some t | Imm c \<Rightarrow> t = T64)"

fun ir_defines :: "ir_instr \<Rightarrow> (string \<times> ir_type) option" where
  "ir_defines (IrAlloca r) = Some (r, TPtr)"
| "ir_defines (IrStore v p) = None"
| "ir_defines (IrLoad r p) = Some (r, T64)"
| "ir_defines (IrICmpULT r a b) = Some (r, T1)"
| "ir_defines (IrICmpSGT r a b) = Some (r, T1)"
| "ir_defines (IrGEP r p a) = Some (r, TPtr)"
| "ir_defines (IrSelect r c a b) = Some (r, T64)"
| "ir_defines (IrAdd r a b) = Some (r, T64)"

fun ops_ok :: "ir_env \<Rightarrow> ir_instr \<Rightarrow> bool" where
  "ops_ok env (IrAlloca r) = True"
| "ops_ok env (IrStore v p) = (op_has_type env v T64 \<and> op_has_type env p TPtr)"
| "ops_ok env (IrLoad r p) = op_has_type env p TPtr"
| "ops_ok env (IrICmpULT r a b) = (op_has_type env a T64 \<and> op_has_type env b T64)"
| "ops_ok env (IrICmpSGT r a b) = (op_has_type env a T64 \<and> op_has_type env b T64)"
| "ops_ok env (IrGEP r p a) = (op_has_type env p TPtr \<and> op_has_type env a T64)"
| "ops_ok env (IrSelect r c a b) = (op_has_type env c T1 \<and> op_has_type env a T64 \<and> op_has_type env b T64)"
| "ops_ok env (IrAdd r a b) = (op_has_type env a T64 \<and> op_has_type env b T64)"

definition ir_env_after :: "ir_instr \<Rightarrow> ir_env \<Rightarrow> ir_env" where
  "ir_env_after c env = (case ir_defines c of None \<Rightarrow> env | Some d \<Rightarrow> d # env)"

fun instrs_ok :: "ir_env \<Rightarrow> ir_instr list \<Rightarrow> ir_env option" where
  "instrs_ok env [] = Some env"
| "instrs_ok env (c # cs) = (if ops_ok env c then instrs_ok (ir_env_after c env) cs else None)"

definition edge_ok :: "(string \<times> ir_env) list \<Rightarrow> ir_env \<Rightarrow> string \<Rightarrow> bool" where
  "edge_ok ann env l =
     (case map_of ann l of None \<Rightarrow> False | Some env' \<Rightarrow> \<forall>(r, t)\<in>set env'. map_of env r = Some t)"

definition term_ok :: "(string \<times> ir_env) list \<Rightarrow> ir_env \<Rightarrow> ir_term \<Rightarrow> bool" where
  "term_ok ann env t =
     (case t of
        IrRetVoid \<Rightarrow> True
      | IrBr l \<Rightarrow> edge_ok ann env l
      | IrCondBr c l1 l2 \<Rightarrow> op_has_type env c T1 \<and> edge_ok ann env l1 \<and> edge_ok ann env l2)"

definition blocks_ok :: "(string \<times> ir_env) list \<Rightarrow> ir_blocks \<Rightarrow> bool" where
  "blocks_ok ann bs \<longleftrightarrow>
     (\<forall>(l, env)\<in>set ann. case map_of bs l of
        None \<Rightarrow> False
      | Some (cs, t) \<Rightarrow> (case instrs_ok env cs of None \<Rightarrow> False | Some env' \<Rightarrow> term_ok ann env' t))"

definition well_formed_ir :: "(string \<times> ir_env) list \<Rightarrow> ir_type list \<Rightarrow> ir_function \<Rightarrow> bool" where
  "well_formed_ir ann tys fn \<longleftrightarrow>
     length tys = length (fn_params fn) \<and> fn_blocks fn \<noteq> [] \<and>
     distinct (fn_params fn @ map fst (List.map_filter ir_defines (concat (map (fst \<circ> snd) (fn_blocks fn))))) \<and>
     edge_ok ann (zip (fn_params fn) tys) (fst (hd (fn_blocks fn))) \<and> blocks_ok ann (fn_blocks fn)"

definition regs_ok :: "ir_env \<Rightarrow> ir_regs \<Rightarrow> bool" where
  "regs_ok env regs \<longleftrightarrow> (\<forall>r t. map_of env r = Some t \<longrightarrow> (\<exists>v. regs r = Some v \<and> type_of v = t))"

lemma operand_sound:
  assumes "regs_ok env regs"
  shows "op_has_type env a T64 \<Longrightarrow> \<exists>x. ir_i64 regs a = Inr x"
    and "op_has_type env a T1 \<Longrightarrow> \<exists>b. ir_i1 regs a = Inr b"
    and "op_has_type env a TPtr \<Longrightarrow> \<exists>p. ir_ptr regs a = Inr p"
proof -
  have ev: "op_has_type env a t \<Longrightarrow> \<exists>v. ir_eval regs a = Inr v \<and> type_of v = t" for t
    using assms by (cases a) (force simp: op_has_type_def ir_eval_def regs_ok_def)+
  show "op_has_type env a T64 \<Longrightarrow> \<exists>x. ir_i64 regs a = Inr x"
    by (drule ev, clarify, case_tac v) (simp_all add: ir_i64_def)
  show "op_has_type env a T1 \<Longrightarrow> \<exists>x. ir_i1 regs a = Inr x"
    by (drule ev, clarify, case_tac v) (simp_all add: ir_i1_def)
  show "op_has_type env a TPtr \<Longrightarrow> \<exists>x. ir_ptr regs a = Inr x"
    by (drule ev, clarify, case_tac v) (simp_all add: ir_ptr_def)
qed

lemma regs_ok_update: "regs_ok env regs \<Longrightarrow> type_of v = t \<Longrightarrow> regs_ok ((r, t) # env) (regs(r \<mapsto> v))"
  by (simp add: regs_ok_def)

lemma memory_faults:
  "ir_read mem p = Inl e \<Longrightarrow> e = BadAccess" "ir_write mem p x = Inl e \<Longrightarrow> e = BadAccess"
  by (simp_all add: ir_read_def ir_write_def split: if_splits option.splits)

lemma step_sound:
  assumes "regs_ok env regs" "ops_ok env c"
  shows "ir_step c (regs, mem) = Inl BadAccess \<or>
    (\<exists>regs' mem'. ir_step c (regs, mem) = Inr (regs', mem') \<and> regs_ok (ir_env_after c env) regs')"
proof -
  note typed = operand_sound [OF assms(1)] and upd = regs_ok_update [OF assms(1)]
  show ?thesis
  proof (cases c)
    case (IrStore v p)
    with assms(2) obtain x q where "ir_i64 regs v = Inr x" "ir_ptr regs p = Inr q" using typed by fastforce
    with assms(1) IrStore show ?thesis
      by (cases "ir_write mem q x") (auto simp: ir_env_after_def dest: memory_faults)
  next
    case (IrLoad r p)
    with assms(2) obtain q where "ir_ptr regs p = Inr q" using typed by fastforce
    with IrLoad show ?thesis
      by (cases "ir_read mem q") (auto simp: ir_env_after_def upd dest: memory_faults)
  next
    case (IrGEP r p a)
    with assms(2) obtain b k x where "ir_ptr regs p = Inr (b, k)" "ir_i64 regs a = Inr x" using typed by fastforce
    with IrGEP show ?thesis by (simp add: ir_env_after_def upd)
  next
    case (IrSelect r c' a b)
    with assms(2) obtain t x y where "ir_i1 regs c' = Inr t" "ir_i64 regs a = Inr x" "ir_i64 regs b = Inr y"
      using typed by fastforce
    with IrSelect show ?thesis by (simp add: ir_env_after_def upd)
  next
    case (IrAdd r a b)
    with assms(2) obtain x y where "ir_i64 regs a = Inr x" "ir_i64 regs b = Inr y" using typed by fastforce
    with IrAdd show ?thesis by (simp add: ir_env_after_def upd)
  next
    case (IrICmpULT r a b)
    with assms(2) obtain x y where "ir_i64 regs a = Inr x" "ir_i64 regs b = Inr y" using typed by fastforce
    with IrICmpULT show ?thesis by (simp add: ir_env_after_def upd)
  next
    case (IrICmpSGT r a b)
    with assms(2) obtain x y where "ir_i64 regs a = Inr x" "ir_i64 regs b = Inr y" using typed by fastforce
    with IrICmpSGT show ?thesis by (simp add: ir_env_after_def upd)
  qed (simp add: ir_env_after_def upd)
qed

lemma steps_sound:
  assumes "regs_ok env regs" "instrs_ok env cs = Some env'"
  shows "fold_res ir_step cs (regs, mem) = Inl BadAccess \<or>
    (\<exists>regs' mem'. fold_res ir_step cs (regs, mem) = Inr (regs', mem') \<and> regs_ok env' regs')"
  using assms
proof (induction cs arbitrary: env regs mem)
  case (Cons c cs)
  then have "ops_ok env c" "instrs_ok (ir_env_after c env) cs = Some env'" by (simp_all split: if_splits)
  with Cons step_sound [OF Cons.prems(1), of c mem] show ?case by fastforce
qed auto

lemma edge_sound:
  assumes "regs_ok env regs" "edge_ok ann env l"
  obtains env' where "map_of ann l = Some env'" "regs_ok env' regs"
  using assms by (fastforce simp: edge_ok_def regs_ok_def split: option.splits dest: map_of_SomeD)

lemma run_sound:
  assumes "blocks_ok ann bs" "map_of ann l = Some env" "regs_ok env regs"
  shows "ir_run fuel bs l (regs, mem) \<noteq> Fault IllTyped"
  using assms(2,3)
proof (induction fuel arbitrary: l env regs mem)
  case (Suc fuel)
  from Suc.prems(1) have "(l, env) \<in> set ann" by (rule map_of_SomeD)
  with assms(1) obtain cs t env' where b: "map_of bs l = Some (cs, t)" "instrs_ok env cs = Some env'" "term_ok ann env' t"
    by (fastforce simp: blocks_ok_def split: option.splits)
  from steps_sound [OF Suc.prems(2) b(2), of mem] show ?case
  proof
    assume "\<exists>regs' mem'. fold_res ir_step cs (regs, mem) = Inr (regs', mem') \<and> regs_ok env' regs'"
    then obtain regs' mem' where s: "fold_res ir_step cs (regs, mem) = Inr (regs', mem')" "regs_ok env' regs'" by blast
    have next_ok: "edge_ok ann env' l' \<Longrightarrow> ir_run fuel bs l' (regs', mem') \<noteq> Fault IllTyped" for l'
      using Suc.IH edge_sound [OF s(2)] by metis
    show ?case
    proof (cases t)
      case (IrCondBr c l1 l2)
      with b(3) obtain tv where "ir_i1 regs' c = Inr tv" using operand_sound(2) [OF s(2)] by (auto simp: term_ok_def)
      with b IrCondBr s next_ok show ?thesis by (simp add: ir_target_def term_ok_def)
    qed (use b s next_ok in \<open>simp_all add: ir_target_def term_ok_def\<close>)
  qed (use b in simp)
qed simp

definition available :: "(string \<times> ir_env) list" where
  "available =
     (let ps = [(''pred'', TPtr), (''out'', TPtr), (''n'', T64), (''threshold'', T64), (''out_count'', TPtr), (''out_sum'', TPtr)];
          vs = [(''i.addr'', TPtr), (''sum.addr'', TPtr), (''count.addr'', TPtr)] @ ps
      in [(''entry'', ps), (''loop.header'', vs), (''loop.body'', (''i.val'', T64) # vs), (''exit'', vs)])"

lemma filter_sum_function_well_formed:
  "well_formed_ir available [TPtr, TPtr, T64, T64, TPtr, TPtr] filter_sum_function"
  by code_simp

section \<open>The loop computes the filtered sum\<close>

definition call_mem :: "i64 list \<Rightarrow> i64 list \<Rightarrow> u64 \<times> i64 \<Rightarrow> ir_mem" where
  "call_mem pred out cells = [map Some pred, map Some out, [Some (fst cells)], [Some (snd cells)]]"

definition call_args :: "u64 \<Rightarrow> i64 \<Rightarrow> ir_value list" where
  "call_args n threshold = [Ptr 0 0, Ptr 1 0, I64 n, I64 threshold, Ptr 2 0, Ptr 3 0]"

definition loop_mem :: "i64 list \<Rightarrow> i64 list \<Rightarrow> i64 \<Rightarrow> u64 \<times> i64 \<Rightarrow> nat \<Rightarrow> ir_mem" where
  "loop_mem pred out t cells k = call_mem pred out cells @
     [[Some (of_nat k)], [Some (of_int (\<Sum>i<k. hit pred out t i))], [Some (of_int (\<Sum>i<k. hits pred t i))]]"

definition loop_regs :: "nat \<Rightarrow> i64 \<Rightarrow> ir_regs \<Rightarrow> bool" where
  "loop_regs n t regs \<longleftrightarrow>
     regs ''pred'' = Some (Ptr 0 0) \<and> regs ''out'' = Some (Ptr 1 0) \<and> regs ''n'' = Some (I64 (of_nat n)) \<and>
     regs ''threshold'' = Some (I64 t) \<and> regs ''out_count'' = Some (Ptr 2 0) \<and> regs ''out_sum'' = Some (Ptr 3 0) \<and>
     regs ''i.addr'' = Some (Ptr 4 0) \<and> regs ''sum.addr'' = Some (Ptr 5 0) \<and> regs ''count.addr'' = Some (Ptr 6 0)"

lemmas ir_exec = ir_i64_def ir_i1_def ir_ptr_def ir_eval_def ir_read_def ir_write_def ir_valid_def

lemma function_blocks [simp]:
  "map_of (fn_blocks filter_sum_function) ''entry'' = Some entry_block"
  "map_of (fn_blocks filter_sum_function) ''loop.header'' = Some header_block"
  "map_of (fn_blocks filter_sum_function) ''loop.body'' = Some body_block"
  "map_of (fn_blocks filter_sum_function) ''exit'' = Some exit_block"
  by (simp_all add: filter_sum_function_def)

lemma block_terms [simp]:
  "snd entry_block = IrBr ''loop.header''" "snd header_block = IrCondBr (Reg ''loop.cond'') ''loop.body'' ''exit''"
  "snd body_block = IrBr ''loop.header''" "snd exit_block = IrRetVoid"
  by (simp_all add: entry_block_def header_block_def body_block_def exit_block_def)

lemma run_block:
  assumes "map_of bs l = Some blk" "fold_res ir_step (fst blk) s = Inr (regs, mem)"
  shows "ir_run (Suc fuel) bs l s =
    (case ir_target regs (snd blk) of
       Inl e \<Rightarrow> Fault e | Inr None \<Rightarrow> Returned mem | Inr (Some l') \<Rightarrow> ir_run fuel bs l' (regs, mem))"
  using assms by (cases blk) simp

lemma header_exec:
  assumes "loop_regs n t regs"
  shows "fold_res ir_step (fst header_block) (regs, loop_mem pred out t cells k) =
    Inr (regs(''i.val'' \<mapsto> I64 (of_nat k), ''loop.cond'' \<mapsto> I1 ((of_nat k :: u64) < of_nat n)), loop_mem pred out t cells k)"
  using assms by (simp add: header_block_def loop_regs_def loop_mem_def call_mem_def ir_exec)

lemma exit_exec:
  assumes "loop_regs n t regs"
  shows "\<exists>regs'. fold_res ir_step (fst exit_block) (regs, loop_mem pred out t cells k) =
    Inr (regs', call_mem pred out (of_int (\<Sum>i<k. hits pred t i), of_int (\<Sum>i<k. hit pred out t i)) @ drop 4 (loop_mem pred out t cells k))"
  using assms by (simp add: exit_block_def loop_regs_def loop_mem_def call_mem_def ir_exec)

lemma body_exec:
  assumes "loop_regs n t regs" "regs ''i.val'' = Some (I64 (of_nat k))"
    and "k < length pred" "k < length out" "k < 2 ^ 63"
  shows "\<exists>regs'. loop_regs n t regs' \<and>
    fold_res ir_step (fst body_block) (regs, loop_mem pred out t cells k) = Inr (regs', loop_mem pred out t cells (Suc k))"
proof -
  have k: "sint (of_nat k :: i64) = int k" using assms(5) sint_of_int [of "int k"] by simp
  show ?thesis
    using assms(1-4)
    by (simp add: body_block_def loop_regs_def loop_mem_def call_mem_def ir_exec k hit_def hits_def)
qed

lemma loop_run:
  assumes "n \<le> length pred" "n \<le> length out" "n < 2 ^ 63"
  shows "loop_regs n t regs \<Longrightarrow> k \<le> n \<Longrightarrow> 2 * (n - k) + 2 \<le> fuel \<Longrightarrow>
    \<exists>rest. ir_run fuel (fn_blocks filter_sum_function) ''loop.header'' (regs, loop_mem pred out t cells k) =
      Returned (call_mem pred out (of_int (\<Sum>i<n. hits pred t i), of_int (\<Sum>i<n. hit pred out t i)) @ rest)"
proof (induction "n - k" arbitrary: k regs fuel)
  case 0
  then obtain fuel' where fuel: "fuel = Suc (Suc fuel')" by (metis add_2_eq_Suc' le_Suc_ex add.commute add_leE)
  let ?regs = "regs(''i.val'' \<mapsto> I64 (of_nat k), ''loop.cond'' \<mapsto> I1 ((of_nat k :: u64) < of_nat n))"
  have "loop_regs n t ?regs" using 0 by (simp add: loop_regs_def)
  from exit_exec [OF this, of pred out cells k] 0 show ?case
    using header_exec [OF 0(2), of pred out cells k]
    by (auto simp: fuel header_block_def exit_block_def ir_target_def ir_exec)
next
  case (Suc d)
  then have k: "k < n" by simp
  with Suc obtain fuel' where fuel: "fuel = Suc (Suc fuel')" "2 * (n - Suc k) + 2 \<le> fuel'"
    by (intro that [of "fuel - 2"]) auto
  let ?regs = "regs(''i.val'' \<mapsto> I64 (of_nat k), ''loop.cond'' \<mapsto> I1 ((of_nat k :: u64) < of_nat n))"
  have "loop_regs n t ?regs" "?regs ''i.val'' = Some (I64 (of_nat k))" using Suc by (simp_all add: loop_regs_def)
  moreover have "k < length pred" "k < length out" "k < 2 ^ 63" using k assms by simp_all
  ultimately obtain regs' where r: "loop_regs n t regs'"
    "fold_res ir_step (fst body_block) (?regs, loop_mem pred out t cells k) = Inr (regs', loop_mem pred out t cells (Suc k))"
    using body_exec by blast
  have lt: "(of_nat k :: u64) < of_nat n" using k assms by (simp add: word_less_nat_alt unat_of_nat)
  have "ir_run fuel (fn_blocks filter_sum_function) ''loop.header'' (regs, loop_mem pred out t cells k) =
      ir_run fuel' (fn_blocks filter_sum_function) ''loop.header'' (regs', loop_mem pred out t cells (Suc k))"
    using run_block [OF function_blocks(2) header_exec [OF Suc.prems(1), of pred out cells k]]
      run_block [OF function_blocks(3) r(2)] lt
    by (simp add: fuel(1) ir_target_def ir_exec)
  moreover have "d = n - Suc k" using Suc by simp
  ultimately show ?case using Suc.hyps(1) [OF _ r(1) _ fuel(2)] k by simp
qed

lemma call_run:
  assumes "n \<le> length pred" "n \<le> length out" "n < 2 ^ 63" "2 * n + 3 \<le> fuel"
  shows "\<exists>rest. ir_call fuel filter_sum_function (call_args (of_nat n) t) (call_mem pred out cells) =
    Returned (call_mem pred out (fs_matched_count (filter_sum pred out n t), fs_sum (filter_sum pred out n t)) @ rest)"
proof -
  from assms(4) obtain fuel' where fuel: "fuel = Suc fuel'" "2 * (n - 0) + 2 \<le> fuel'" by (intro that [of "fuel - 1"]) auto
  let ?args = "map_of (zip (fn_params filter_sum_function) (call_args (of_nat n) t))"
  have "\<exists>regs. loop_regs n t regs \<and>
      fold_res ir_step (fst entry_block) (?args, call_mem pred out cells) = Inr (regs, loop_mem pred out t cells 0)"
    by (simp add: entry_block_def filter_sum_function_def call_args_def call_mem_def loop_mem_def loop_regs_def ir_exec)
  then obtain regs where "loop_regs n t regs"
    "fold_res ir_step (fst entry_block) (?args, call_mem pred out cells) = Inr (regs, loop_mem pred out t cells 0)" by blast
  moreover have "ir_call fuel filter_sum_function (call_args (of_nat n) t) (call_mem pred out cells) =
      ir_run fuel (fn_blocks filter_sum_function) ''entry'' (?args, call_mem pred out cells)"
    by (simp add: ir_call_def filter_sum_function_def call_args_def)
  ultimately have "ir_call fuel filter_sum_function (call_args (of_nat n) t) (call_mem pred out cells) =
      ir_run fuel' (fn_blocks filter_sum_function) ''loop.header'' (regs, loop_mem pred out t cells 0)"
    using run_block [OF function_blocks(1)] by (simp add: fuel ir_target_def)
  with loop_run [OF assms(1-3) \<open>loop_regs n t regs\<close> le0 fuel(2)] show ?thesis by (simp add: filter_sum_def)
qed

text \<open>More fuel does not change a finished run.\<close>

lemma ir_run_mono: "ir_run fuel bs l s \<noteq> OutOfFuel \<Longrightarrow> fuel \<le> fuel' \<Longrightarrow> ir_run fuel' bs l s = ir_run fuel bs l s"
proof (induction fuel arbitrary: l s fuel')
  case (Suc fuel)
  then obtain fuel'' where "fuel' = Suc fuel''" "fuel \<le> fuel''" by (metis Suc_le_D Suc_le_mono)
  then have "ir_run fuel bs l s \<noteq> OutOfFuel \<Longrightarrow> ir_run fuel'' bs l s = ir_run fuel bs l s" for l s
    using Suc.IH by blast
  with Suc.prems(1) \<open>fuel' = Suc fuel''\<close> show ?case by (auto split: option.splits sum.splits prod.splits)
qed simp

lemma ir_call_deterministic:
  assumes "ir_call fuel fn args mem = Returned a" "ir_call fuel' fn args mem = Returned b"
  shows "a = b"
  using assms ir_run_mono [of fuel _ _ _ fuel'] ir_run_mono [of fuel' _ _ _ fuel]
  by (cases "fuel \<le> fuel'") (fastforce simp: ir_call_def split: list.splits prod.splits if_splits)+

section \<open>Properties\<close>

text \<open>
  C12: the generated function terminates, for every input and whatever the arithmetic does: \<open>2 * n + 3\<close>
  block executions always suffice, the arrays are left unchanged, and the two result cells hold the
  filtered count and the filtered sum modulo \<open>2 ^ 64\<close>.
\<close>

theorem filter_sum_function_correct:
  assumes "n \<le> length pred" "n \<le> length out" "n < 2 ^ 63" "2 * n + 3 \<le> fuel"
  shows "\<exists>rest. ir_call fuel filter_sum_function (call_args (of_nat n) t) (call_mem pred out cells) =
    Returned (call_mem pred out (of_int (\<Sum>i<n. if sint (pred ! i) > sint t then 1 else 0),
                                 of_int (\<Sum>i<n. if sint (pred ! i) > sint t then sint (out ! i) else 0)) @ rest)"
  using call_run [OF assms, of t cells] by (simp add: filter_sum_def hit_def hits_def)

theorem filter_sum_function_correct_witness:
  "\<exists>rest. ir_call 7 filter_sum_function (call_args 2 4) (call_mem [5, 1] [10, 20] (0, 0)) =
    Returned (call_mem [5, 1] [10, 20] (1, 10) @ rest)"
  using filter_sum_function_correct [of 2 "[5, 1]" "[10, 20]" 7 4 "(0, 0)"]
  by (simp add: lessThan_nat_numeral lessThan_Suc)

text \<open>
  C33: the generated function is type sound: it passes the verifier's conditions, and a call with
  arguments of the declared types never meets an undefined or ill-typed register or a missing block, on
  any memory and with any fuel; only an access outside the caller's arrays can fault.
\<close>

theorem filter_sum_function_type_safe:
  assumes "map type_of args = [TPtr, TPtr, T64, T64, TPtr, TPtr]"
  shows "well_formed_ir available [TPtr, TPtr, T64, T64, TPtr, TPtr] filter_sum_function \<and>
    ir_call fuel filter_sum_function args mem \<noteq> Fault IllTyped"
proof -
  obtain a b c d e f where args: "args = [a, b, c, d, e, f]" using assms by (auto simp: Cons_eq_map_conv map_eq_Cons_conv)
  let ?ps = "zip (fn_params filter_sum_function) [TPtr, TPtr, T64, T64, TPtr, TPtr]"
  have ann: "map_of available ''entry'' = Some ?ps"
    by (simp add: available_def Let_def filter_sum_function_def)
  have "regs_ok ?ps (map_of (zip (fn_params filter_sum_function) args))"
    using assms by (auto simp: regs_ok_def args filter_sum_function_def split: if_splits)
  moreover have "blocks_ok available (fn_blocks filter_sum_function)"
    using filter_sum_function_well_formed by (simp add: well_formed_ir_def)
  ultimately have "ir_run fuel (fn_blocks filter_sum_function) ''entry'' (map_of (zip (fn_params filter_sum_function) args), mem) \<noteq> Fault IllTyped"
    using run_sound ann by blast
  then show ?thesis
    using filter_sum_function_well_formed by (simp add: ir_call_def args filter_sum_function_def)
qed

theorem filter_sum_function_type_safe_witness:
  "ir_call 9 filter_sum_function (call_args 3 0) (call_mem [1, 2, 3] [4] (0, 0)) \<noteq> Fault IllTyped"
  using filter_sum_function_type_safe [of "call_args 3 0" 9 "call_mem [1, 2, 3] [4] (0, 0)"]
  by (simp add: call_args_def)

text \<open>
  What the code relies on in LLVM: a function it compiles behaves, on arrays that hold the rows, as the
  reference semantics says of the module that was built.
\<close>

definition llvm_sound :: "llvm \<Rightarrow> bool" where
  "llvm_sound L \<longleftrightarrow>
     (\<forall>m f pred out n t cells fuel cells' rest.
        llvm_lookup L (llvm_optimize L m) (fn_name m) = Some f \<longrightarrow>
        unat n \<le> length pred \<and> unat n \<le> length out \<and> unat n < 2 ^ 63 \<longrightarrow>
        ir_call fuel m (call_args n t) (call_mem pred out cells) = Returned (call_mem pred out cells' @ rest) \<longrightarrow>
        f pred out n t cells = Inr cells')"

lemma Run_exact:
  assumes "llvm_sound L" "Compile L = Inr qj" "n \<le> length pred" "n \<le> length out" "n < 2 ^ 63"
  shows "Run qj pred out n t = Inr (filter_sum pred out n t)"
proof -
  have n: "unat (of_nat n :: u64) = n" using assms(5) by (simp add: unat_of_nat)
  from assms(2) have "llvm_lookup L (llvm_optimize L filter_sum_function) (fn_name filter_sum_function) = Some (qj_compiled_fn qj)"
    by (auto simp: Compile_def BuildModule_def OptimizeModule_def Let_def filter_sum_function_def split: if_splits option.splits)
  moreover obtain rest where "ir_call (2 * n + 3) filter_sum_function (call_args (of_nat n) t) (call_mem pred out (0, 0)) =
      Returned (call_mem pred out (fs_matched_count (filter_sum pred out n t), fs_sum (filter_sum pred out n t)) @ rest)"
    using call_run [OF assms(3-5) order_refl] by blast
  ultimately have "qj_compiled_fn qj pred out (of_nat n) t (0, 0) =
      Inr (fs_matched_count (filter_sum pred out n t), fs_sum (filter_sum pred out n t))"
    using assms(1,3-5) n unfolding llvm_sound_def by metis
  then show ?thesis by (simp add: Run_def)
qed

text \<open>An LLVM that interprets the generated module.\<close>

definition interpreted :: fused_fn where
  "interpreted pred out n t cells =
     (case ir_call (2 * unat n + 3) filter_sum_function (call_args n t) (call_mem pred out cells) of
        Returned mem \<Rightarrow> (case (mem ! 2 ! 0, mem ! 3 ! 0) of (Some c, Some s) \<Rightarrow> Inr (c, s) | _ \<Rightarrow> Inl UndefinedBehaviour)
      | _ \<Rightarrow> Inl UndefinedBehaviour)"

definition sample_llvm :: llvm where
  "sample_llvm =
     \<lparr>llvm_verify_fails = (\<lambda>m. False), llvm_optimize = (\<lambda>m. m), llvm_host_detected = True, llvm_create_ok = True,
      llvm_add_ok = (\<lambda>m. True),
      llvm_lookup = (\<lambda>m name. if m = filter_sum_function \<and> name = kFunctionName then Some interpreted else None)\<rparr>"

lemma sample_llvm_sound: "llvm_sound sample_llvm"
  unfolding llvm_sound_def
proof (intro allI impI)
  fix m f pred out n t cells fuel cells' rest
  assume f: "llvm_lookup sample_llvm (llvm_optimize sample_llvm m) (fn_name m) = Some f"
    and n: "unat n \<le> length pred \<and> unat n \<le> length out \<and> unat n < 2 ^ 63"
    and ret: "ir_call fuel m (call_args n t) (call_mem pred out cells) = Returned (call_mem pred out cells' @ rest)"
  from f have m: "m = filter_sum_function" "f = interpreted" by (simp_all add: sample_llvm_def split: if_splits)
  obtain r where r: "ir_call (2 * unat n + 3) filter_sum_function (call_args n t) (call_mem pred out cells) = Returned r"
    using call_run [of "unat n" pred out "2 * unat n + 3" t cells] n by auto
  with ret m have "r = call_mem pred out cells' @ rest" using ir_call_deterministic by blast
  then have "r ! 2 ! 0 = Some (fst cells')" "r ! 3 ! 0 = Some (snd cells')" by (simp_all add: call_mem_def)
  then show "f pred out n t cells = Inr cells'" by (simp add: m interpreted_def r)
qed

lemma sample_llvm_compiles: "Compile sample_llvm = Inr \<lparr>qj_compiled_fn = interpreted\<rparr>"
  by (simp add: Compile_def BuildModule_def OptimizeModule_def sample_llvm_def)

text \<open>
  C34: a compiled query agrees with the scalar kernel: whenever compilation succeeds, and LLVM translates
  the module it was given correctly, \<open>Run\<close> returns the exact filtered sum modulo \<open>2 ^ 64\<close> and the number of
  matching rows, on every input of the arrays' length; this is what the scalar kernel returns on every input
  on which it is defined, that is, on which none of its running sums overflows.
\<close>

theorem Run_agrees_with_scalar:
  assumes "llvm_sound L" "Compile L = Inr qj" "n \<le> length pred" "n \<le> length out" "n < 2 ^ 63"
  shows "Run qj pred out n t = Inr (filter_sum pred out n t) \<and>
    (\<forall>r. FilterGtSum_Scalar pred out n t = Inr r \<longrightarrow> Run qj pred out n t = Inr r)"
  using Run_exact [OF assms] filter_scalar_defined [of pred out n t] by simp

theorem Run_agrees_with_scalar_witness:
  "FilterGtSum_Scalar [5, 5, 5, 5] [2 ^ 62, - (2 ^ 62), 2 ^ 62, - (2 ^ 62)] 4 4 = Inr \<lparr>fs_matched_count = 4, fs_sum = 0\<rparr> \<and>
   Run \<lparr>qj_compiled_fn = interpreted\<rparr> [5, 5, 5, 5] [2 ^ 62, - (2 ^ 62), 2 ^ 62, - (2 ^ 62)] 4 4 = Inr \<lparr>fs_matched_count = 4, fs_sum = 0\<rparr>"
proof -
  have "FilterGtSum_Scalar [5, 5, 5, 5] [2 ^ 62, - (2 ^ 62), 2 ^ 62, - (2 ^ 62)] 4 4 = Inr \<lparr>fs_matched_count = 4, fs_sum = 0\<rparr>"
    by code_simp
  moreover from this Run_agrees_with_scalar [OF sample_llvm_sound sample_llvm_compiles, of 4 "[5, 5, 5, 5]" "[2 ^ 62, - (2 ^ 62), 2 ^ 62, - (2 ^ 62)]" 4]
  have "Run \<lparr>qj_compiled_fn = interpreted\<rparr> [5, 5, 5, 5] [2 ^ 62, - (2 ^ 62), 2 ^ 62, - (2 ^ 62)] 4 4 = Inr \<lparr>fs_matched_count = 4, fs_sum = 0\<rparr>"
    by auto
  ultimately show ?thesis ..
qed

end
