(* ===== verification/Exec.thy ===== *)
theory Exec
  imports Jit Segment
begin

text \<open>
  The execution engine: \<^verbatim>\<open>exec/query.h\<close>, \<^verbatim>\<open>volcano.cpp\<close>, \<^verbatim>\<open>vectorized.cpp\<close> and \<^verbatim>\<open>jit_exec.cpp\<close>. The one query
  shape of CoreDB, \<^verbatim>\<open>SUM(a) WHERE p > t\<close>, is run row by row through iterators, in batches through the SIMD
  kernels, and through the compiled function; the three return the same result, and that result is the
  sum over all rows wherever pruning is exact.
\<close>

section \<open>The code\<close>

record AggregateQuery =
  aq_predicate_column :: nat
  aq_aggregate_column :: nat
  aq_threshold :: i64

type_synonym AggregateResult = FilterSumResult

definition default_result :: AggregateResult where
  "default_result = \<lparr>fs_matched_count = 0, fs_sum = 0\<rparr>"

definition kDefaultBatchSize :: nat where
  "kDefaultBatchSize = 2048"

text \<open>The raw data pointers of the two columns of a segment.\<close>

definition query_columns :: "AggregateQuery \<Rightarrow> Segment \<Rightarrow> (i64 list \<times> i64 list) res" where
  "query_columns q seg =
     bind_res (seg_column seg (aq_predicate_column q)) (\<lambda>pc.
     bind_res (seg_column seg (aq_aggregate_column q)) (\<lambda>ac. Inr (col_int64 pc, col_int64 ac)))"

subsection \<open>Volcano\<close>

record SegmentScanOp =
  so_segments :: "Segment list"
  so_pred_col :: nat
  so_agg_col :: nat
  so_prune_threshold :: i64
  so_seg_idx :: nat
  so_current :: "Segment option"
  so_row :: nat
  so_pred :: i64
  so_agg :: i64

definition make_SegmentScanOp :: "Segment list \<Rightarrow> nat \<Rightarrow> nat \<Rightarrow> i64 \<Rightarrow> SegmentScanOp" where
  "make_SegmentScanOp segments pred_col agg_col prune_threshold =
     \<lparr>so_segments = segments, so_pred_col = pred_col, so_agg_col = agg_col, so_prune_threshold = prune_threshold,
      so_seg_idx = 0, so_current = None, so_row = 0, so_pred = 0, so_agg = 0\<rparr>"

function AdvanceSegment :: "SegmentScanOp \<Rightarrow> (bool \<times> SegmentScanOp) res" where
  "AdvanceSegment s =
     (if so_seg_idx s < length (so_segments s) then
        bind_res (CanSkip (so_segments s ! so_seg_idx s) (so_pred_col s) kGt (VInt64 (so_prune_threshold s))) (\<lambda>skip.
          if skip then AdvanceSegment (s\<lparr>so_seg_idx := so_seg_idx s + 1\<rparr>)
          else Inr (True, s\<lparr>so_seg_idx := so_seg_idx s + 1,
                            so_current := Some (so_segments s ! so_seg_idx s), so_row := 0\<rparr>))
      else Inr (False, s))"
  by pat_completeness auto
termination by (relation "measure (\<lambda>s. length (so_segments s) - so_seg_idx s)") auto

declare AdvanceSegment.simps [simp del]

text \<open>The rows a scan has not produced yet, counted from the declared sizes: the measure of its loops.\<close>

definition rows_left :: "SegmentScanOp \<Rightarrow> nat" where
  "rows_left s = (case so_current s of None \<Rightarrow> 0 | Some seg \<Rightarrow> seg_num_rows seg - so_row s) +
     sum_list (map seg_num_rows (drop (so_seg_idx s) (so_segments s)))"

lemma AdvanceSegment_progress:
  "AdvanceSegment s = Inr (True, s') \<Longrightarrow> so_segments s' = so_segments s \<and> so_seg_idx s < so_seg_idx s' \<and>
    so_seg_idx s' \<le> length (so_segments s) \<and> so_current s' \<noteq> None \<and> (so_current s = None \<longrightarrow> rows_left s' \<le> rows_left s)"
proof (induction s rule: AdvanceSegment.induct)
  case (1 s)
  from "1.prems" have len: "so_seg_idx s < length (so_segments s)" by (subst (asm) AdvanceSegment.simps) (auto split: if_splits)
  with "1.prems" obtain skip where skip: "CanSkip (so_segments s ! so_seg_idx s) (so_pred_col s) kGt (VInt64 (so_prune_threshold s)) = Inr skip"
    by (subst (asm) AdvanceSegment.simps) auto
  have drop: "drop (so_seg_idx s) (so_segments s) = so_segments s ! so_seg_idx s # drop (Suc (so_seg_idx s)) (so_segments s)"
    using len by (simp add: Cons_nth_drop_Suc)
  show ?case
  proof (cases skip)
    case True
    with "1.prems" len skip have "AdvanceSegment (s\<lparr>so_seg_idx := so_seg_idx s + 1\<rparr>) = Inr (True, s')"
      by (subst (asm) AdvanceSegment.simps) auto
    from "1.IH" [OF len skip True this] show ?thesis by (auto simp: rows_left_def drop)
  next
    case False
    with "1.prems" len skip show ?thesis
      by (subst (asm) AdvanceSegment.simps) (auto simp: rows_left_def drop)
  qed
qed

definition current_row :: "SegmentScanOp \<Rightarrow> Segment \<Rightarrow> (i64 \<times> i64) res" where
  "current_row s seg =
     bind_res (seg_column seg (so_pred_col s)) (\<lambda>pc. bind_res (vec_idx (col_int64 pc) (so_row s)) (\<lambda>p.
     bind_res (seg_column seg (so_agg_col s)) (\<lambda>ac. bind_res (vec_idx (col_int64 ac) (so_row s)) (\<lambda>a.
       Inr (p, a)))))"

lemma is_none_iff [simp]: "Option.is_none x \<longleftrightarrow> x = None"
  by (simp add: Option.is_none_def)

function ScanNext :: "SegmentScanOp \<Rightarrow> (bool \<times> SegmentScanOp) res" where
  "ScanNext s =
     bind_res (if Option.is_none (so_current s) then AdvanceSegment s else Inr (True, s)) (\<lambda>(found, s).
       if \<not> found then Inr (False, s)
       else case so_current s of
         None \<Rightarrow> Inl UndefinedBehaviour
       | Some seg \<Rightarrow>
           if so_row s < seg_num_rows seg then
             bind_res (current_row s seg) (\<lambda>(p, a). Inr (True, s\<lparr>so_pred := p, so_agg := a, so_row := so_row s + 1\<rparr>))
           else ScanNext (s\<lparr>so_current := None\<rparr>))"
  by pat_completeness auto
termination
proof (relation "measure (\<lambda>s. 2 * (length (so_segments s) - so_seg_idx s) + (if so_current s = None then 0 else 1))", goal_cases)
  case (2 s r found s' seg)
  then show ?case using AdvanceSegment_progress [of s s'] by (cases "so_current s = None") auto
qed simp

declare ScanNext.simps [simp del]

lemma ScanNext_progress: "ScanNext s = Inr (True, s') \<Longrightarrow> rows_left s' < rows_left s"
proof (induction s rule: ScanNext.induct)
  case (1 s)
  let ?m = "if Option.is_none (so_current s) then AdvanceSegment s else Inr (True, s)"
  from "1.prems" obtain s1 seg where s1: "?m = Inr (True, s1)" "so_current s1 = Some seg"
    by (subst (asm) ScanNext.simps) (auto split: if_splits option.splits)
  have le: "rows_left s1 \<le> rows_left s" using s1 AdvanceSegment_progress [of s s1] by (cases "so_current s = None") auto
  show ?case
  proof (cases "so_row s1 < seg_num_rows seg")
    case True
    with "1.prems" s1 obtain p a where "s' = s1\<lparr>so_pred := p, so_agg := a, so_row := so_row s1 + 1\<rparr>"
      by (subst (asm) ScanNext.simps) (auto split: if_splits)
    with True s1(2) le show ?thesis by (simp add: rows_left_def)
  next
    case False
    with "1.prems" s1 have "ScanNext (s1\<lparr>so_current := None\<rparr>) = Inr (True, s')"
      by (subst (asm) ScanNext.simps) (auto split: if_splits)
    from "1.IH" [OF s1(1) refl _ s1(2) False this] le s1(2) show ?thesis by (simp add: rows_left_def)
  qed
qed

record FilterOp =
  fo_child :: SegmentScanOp
  fo_threshold :: i64

function FilterNext :: "FilterOp \<Rightarrow> (bool \<times> FilterOp) res" where
  "FilterNext f =
     bind_res (ScanNext (fo_child f)) (\<lambda>(more, c).
       if \<not> more then Inr (False, f\<lparr>fo_child := c\<rparr>)
       else if sint (so_pred c) > sint (fo_threshold f) then Inr (True, f\<lparr>fo_child := c\<rparr>)
       else FilterNext (f\<lparr>fo_child := c\<rparr>))"
  by pat_completeness auto
termination by (relation "measure (\<lambda>f. rows_left (fo_child f))") (auto dest: ScanNext_progress)

declare FilterNext.simps [simp del]

lemma FilterNext_progress: "FilterNext f = Inr (True, f') \<Longrightarrow> rows_left (fo_child f') < rows_left (fo_child f)"
proof (induction f rule: FilterNext.induct)
  case (1 f)
  from "1.prems" obtain c where c: "ScanNext (fo_child f) = Inr (True, c)"
    by (subst (asm) FilterNext.simps) (auto split: if_splits)
  note le = ScanNext_progress [OF c]
  show ?case
  proof (cases "sint (so_pred c) > sint (fo_threshold f)")
    case True
    with "1.prems" c le show ?thesis by (subst (asm) FilterNext.simps) auto
  next
    case False
    with "1.prems" c have "FilterNext (f\<lparr>fo_child := c\<rparr>) = Inr (True, f')" by (subst (asm) FilterNext.simps) auto
    with "1.IH" [OF c refl] False le show ?thesis by auto
  qed
qed

function volcano_loop :: "FilterOp \<Rightarrow> AggregateResult \<Rightarrow> AggregateResult res" where
  "volcano_loop f result =
     bind_res (FilterNext f) (\<lambda>(more, f).
       if more then
         bind_res (add_i64 (fs_sum result) (so_agg (fo_child f))) (\<lambda>s.
           volcano_loop f (result\<lparr>fs_sum := s, fs_matched_count := fs_matched_count result + 1\<rparr>))
       else Inr result)"
  by pat_completeness auto
termination by (relation "measure (\<lambda>(f, _). rows_left (fo_child f))") (auto dest: FilterNext_progress)

declare volcano_loop.simps [simp del]

definition RunVolcano :: "Segment list \<Rightarrow> AggregateQuery \<Rightarrow> AggregateResult res" where
  "RunVolcano segments q =
     volcano_loop
       \<lparr>fo_child = make_SegmentScanOp segments (aq_predicate_column q) (aq_aggregate_column q) (aq_threshold q),
        fo_threshold = aq_threshold q\<rparr>
       default_result"

subsection \<open>Vectorised batches\<close>

text \<open>
  A computation that may throw and may run forever: \<open>None\<close> is divergence. The offset is a 64-bit counter,
  so a batch size of zero never advances it.
\<close>

definition bind_ro :: "'a res option \<Rightarrow> ('a \<Rightarrow> 'b res option) \<Rightarrow> 'b res option" where
  "bind_ro m f = (case m of None \<Rightarrow> None | Some (Inl e) \<Rightarrow> Some (Inl e) | Some (Inr x) \<Rightarrow> f x)"

lemma bind_ro_simps [simp]:
  "bind_ro None f = None" "bind_ro (Some (Inl e)) f = Some (Inl e)" "bind_ro (Some (Inr x)) f = f x"
  by (simp_all add: bind_ro_def)

definition add_batch :: "AggregateResult \<Rightarrow> FilterSumResult \<Rightarrow> AggregateResult res" where
  "add_batch result b =
     bind_res (add_i64 (fs_sum result) (fs_sum b)) (\<lambda>s.
       Inr \<lparr>fs_matched_count = fs_matched_count result + fs_matched_count b, fs_sum = s\<rparr>)"

definition run_batch ::
  "target \<Rightarrow> SimdLevel \<Rightarrow> i64 list \<Rightarrow> i64 list \<Rightarrow> nat \<Rightarrow> i64 \<Rightarrow> nat \<Rightarrow> nat \<Rightarrow> AggregateResult \<Rightarrow> AggregateResult res" where
  "run_batch t level pred agg num_rows threshold batch_size offset result =
     bind_res (FilterGtSum t level (drop offset pred) (drop offset agg) (min batch_size (num_rows - offset)) threshold)
       (add_batch result)"

partial_function (option) batch_loop ::
  "target \<Rightarrow> SimdLevel \<Rightarrow> i64 list \<Rightarrow> i64 list \<Rightarrow> nat \<Rightarrow> i64 \<Rightarrow> nat \<Rightarrow> nat \<Rightarrow> AggregateResult \<Rightarrow> AggregateResult res option" where
  "batch_loop t level pred agg num_rows threshold batch_size offset result =
     (if offset < num_rows then
        (case run_batch t level pred agg num_rows threshold batch_size offset result of
           Inl e \<Rightarrow> Some (Inl e)
         | Inr result' \<Rightarrow>
             batch_loop t level pred agg num_rows threshold batch_size ((offset + batch_size) mod 2 ^ 64) result')
      else Some (Inr result))"

fun vectorized_loop ::
  "target \<Rightarrow> SimdLevel \<Rightarrow> AggregateQuery \<Rightarrow> nat \<Rightarrow> Segment list \<Rightarrow> AggregateResult \<Rightarrow> AggregateResult res option" where
  "vectorized_loop t level q batch_size [] result = Some (Inr result)"
| "vectorized_loop t level q batch_size (seg # segs) result =
     bind_ro (Some (CanSkip seg (aq_predicate_column q) kGt (VInt64 (aq_threshold q)))) (\<lambda>skip.
       if skip then vectorized_loop t level q batch_size segs result
       else
         bind_ro (Some (query_columns q seg)) (\<lambda>(pred, agg).
         bind_ro (batch_loop t level pred agg (seg_num_rows seg) (aq_threshold q) batch_size 0 result) (\<lambda>result.
           vectorized_loop t level q batch_size segs result)))"

definition RunVectorized ::
  "target \<Rightarrow> SimdLevel \<Rightarrow> Segment list \<Rightarrow> AggregateQuery \<Rightarrow> nat \<Rightarrow> AggregateResult res option" where
  "RunVectorized t level segments q batch_size = vectorized_loop t level q batch_size segments default_result"

subsection \<open>Compiled\<close>

definition jit_segment :: "QueryJit \<Rightarrow> AggregateQuery \<Rightarrow> Segment \<Rightarrow> AggregateResult \<Rightarrow> AggregateResult res" where
  "jit_segment compiled q seg result =
     bind_res (CanSkip seg (aq_predicate_column q) kGt (VInt64 (aq_threshold q))) (\<lambda>skip.
       if skip then Inr result
       else
         bind_res (query_columns q seg) (\<lambda>(pred, agg).
         bind_res (Run compiled pred agg (seg_num_rows seg) (aq_threshold q)) (add_batch result)))"

definition RunJit :: "Segment list \<Rightarrow> AggregateQuery \<Rightarrow> QueryJit \<Rightarrow> AggregateResult res" where
  "RunJit segments q compiled = fold_res (jit_segment compiled q) segments default_result"

section \<open>The rows of a query\<close>

definition query_rows :: "AggregateQuery \<Rightarrow> Segment \<Rightarrow> (i64 \<times> i64) list" where
  "query_rows q seg =
     map (\<lambda>r. (col_int64 (seg_columns seg ! aq_predicate_column q) ! r,
               col_int64 (seg_columns seg ! aq_aggregate_column q) ! r)) [0..<seg_num_rows seg]"

definition skipped :: "AggregateQuery \<Rightarrow> Segment \<Rightarrow> bool" where
  "skipped q seg \<longleftrightarrow> CanSkip seg (aq_predicate_column q) kGt (VInt64 (aq_threshold q)) = Inr True"

definition scanned_rows :: "AggregateQuery \<Rightarrow> Segment list \<Rightarrow> (i64 \<times> i64) list" where
  "scanned_rows q segs = concat (map (query_rows q) (filter (\<lambda>seg. \<not> skipped q seg) segs))"

definition scannable :: "AggregateQuery \<Rightarrow> Segment \<Rightarrow> bool" where
  "scannable q seg \<longleftrightarrow>
     aq_predicate_column q < length (seg_columns seg) \<and> aq_aggregate_column q < length (seg_columns seg) \<and>
     (\<exists>b. CanSkip seg (aq_predicate_column q) kGt (VInt64 (aq_threshold q)) = Inr b) \<and>
     seg_num_rows seg \<le> length (col_int64 (seg_columns seg ! aq_predicate_column q)) \<and>
     seg_num_rows seg \<le> length (col_int64 (seg_columns seg ! aq_aggregate_column q))"

definition matching :: "i64 \<Rightarrow> (i64 \<times> i64) list \<Rightarrow> (i64 \<times> i64) list" where
  "matching t ps = filter (\<lambda>(p, a). sint p > sint t) ps"

definition aggregate :: "i64 \<Rightarrow> (i64 \<times> i64) list \<Rightarrow> AggregateResult" where
  "aggregate t ps =
     \<lparr>fs_matched_count = of_nat (length (matching t ps)), fs_sum = of_int (\<Sum>(p, a)\<leftarrow>matching t ps. sint a)\<rparr>"

definition bounded :: "i64 \<Rightarrow> (i64 \<times> i64) list \<Rightarrow> bool" where
  "bounded t ps \<longleftrightarrow> length ps < 2 ^ 63 \<and> (\<Sum>(p, a)\<leftarrow>matching t ps. \<bar>sint a\<bar>) < 2 ^ 63"

lemma length_query_rows [simp]: "length (query_rows q seg) = seg_num_rows seg"
  by (simp add: query_rows_def)

lemma skips_cases:
  assumes "scannable q seg"
  obtains "skipped q seg" "CanSkip seg (aq_predicate_column q) kGt (VInt64 (aq_threshold q)) = Inr True"
  | "\<not> skipped q seg" "CanSkip seg (aq_predicate_column q) kGt (VInt64 (aq_threshold q)) = Inr False"
proof -
  from assms obtain b where "CanSkip seg (aq_predicate_column q) kGt (VInt64 (aq_threshold q)) = Inr b"
    by (auto simp: scannable_def)
  then show thesis using that by (cases b) (auto simp: skipped_def)
qed

lemma scanned_rows_simps [simp]:
  "scanned_rows q [] = []"
  "scanned_rows q (seg # segs) = (if skipped q seg then [] else query_rows q seg) @ scanned_rows q segs"
  by (simp_all add: scanned_rows_def)

lemma matching_append [simp]: "matching t (xs @ ys) = matching t xs @ matching t ys"
  by (simp add: matching_def)

lemma default_aggregate: "default_result = aggregate t []"
  by (simp add: default_result_def aggregate_def matching_def)

lemma matching_sum:
  "(\<Sum>(p, a)\<leftarrow>matching t ps. f a) = (\<Sum>(p, a)\<leftarrow>ps. if sint p > sint t then f a else (0 :: int))"
  by (induction ps) (auto simp: matching_def)

lemma abs_sum_list: "\<bar>\<Sum>(p, a)\<leftarrow>ps. sint a\<bar> \<le> (\<Sum>(p, a)\<leftarrow>ps. \<bar>sint a\<bar>)" for ps :: "(i64 \<times> i64) list"
  by (induction ps) auto

lemma abs_sum_list_nonneg: "0 \<le> (\<Sum>(p, a)\<leftarrow>ps. \<bar>sint a\<bar>)" for ps :: "(i64 \<times> i64) list"
  by (induction ps) auto

lemma bounded_append: "bounded t (xs @ ys) \<Longrightarrow> bounded t xs \<and> bounded t ys"
  using abs_sum_list_nonneg [of "matching t xs"] abs_sum_list_nonneg [of "matching t ys"] by (auto simp: bounded_def)

lemma aggregate_sum:
  assumes "bounded t ps"
  shows "sint (fs_sum (aggregate t ps)) = (\<Sum>(p, a)\<leftarrow>matching t ps. sint a)"
proof -
  have "\<bar>\<Sum>(p, a)\<leftarrow>matching t ps. sint a\<bar> < 2 ^ 63" using assms abs_sum_list [of "matching t ps"] by (simp add: bounded_def)
  from sint_of_int [OF this] show ?thesis by (simp add: aggregate_def)
qed

lemma add_aggregate:
  assumes "bounded t (xs @ ys)"
  shows "add_i64 (fs_sum (aggregate t xs)) (fs_sum (aggregate t ys)) = Inr (fs_sum (aggregate t (xs @ ys)))"
proof -
  have "\<bar>\<Sum>(p, a)\<leftarrow>matching t (xs @ ys). sint a\<bar> < 2 ^ 63"
    using assms abs_sum_list [of "matching t (xs @ ys)"] unfolding bounded_def by linarith
  then show ?thesis
    using bounded_append [OF assms] aggregate_sum [of t xs] aggregate_sum [of t ys]
    by (auto simp: add_i64_def Let_def) (simp_all add: aggregate_def)
qed

lemma add_batch_aggregate:
  "bounded t (xs @ ys) \<Longrightarrow> add_batch (aggregate t xs) (aggregate t ys) = Inr (aggregate t (xs @ ys))"
  by (simp add: add_batch_def add_aggregate) (simp add: aggregate_def)

lemma filter_sum_rows: "filter_sum P A n t = aggregate t (map (\<lambda>r. (P ! r, A ! r)) [0..<n])"
proof -
  let ?rows = "map (\<lambda>r. (P ! r, A ! r)) [0..<n]"
  have s: "(\<Sum>(p, a)\<leftarrow>matching t ?rows. sint a) = (\<Sum>i<n. hit P A t i)"
    by (simp add: matching_sum comp_def hit_def interv_sum_list_conv_sum_set_nat lessThan_atLeast0)
  have c: "int (length (matching t ?rows)) = (\<Sum>i<n. hits P t i)"
    by (induction n) (auto simp: matching_def hits_def)
  have "(of_nat (length (matching t ?rows)) :: u64) = of_int (\<Sum>i<n. hits P t i)"
    unfolding c [symmetric] by (rule of_int_of_nat_eq [symmetric])
  then show ?thesis unfolding filter_sum_def aggregate_def s by simp
qed

lemma in_range_rows:
  assumes "n \<le> length P" "n \<le> length A" "bounded t (map (\<lambda>r. (P ! r, A ! r)) [0..<n])"
  shows "in_range P A n t"
proof -
  have "(\<Sum>(p, a)\<leftarrow>matching t (map (\<lambda>r. (P ! r, A ! r)) [0..<n]). \<bar>sint a\<bar>) = (\<Sum>i<n. \<bar>hit P A t i\<bar>)"
    by (simp add: matching_sum comp_def hit_def if_distrib [of abs] interv_sum_list_conv_sum_set_nat lessThan_atLeast0)
  with assms show ?thesis by (simp add: in_range_def bounded_def)
qed

section \<open>The iterators\<close>

text \<open>The rows an iterator delivers before it reports the end.\<close>

inductive yields :: "('s \<Rightarrow> (bool \<times> 's) res) \<Rightarrow> ('s \<Rightarrow> i64 \<times> i64) \<Rightarrow> 's \<Rightarrow> (i64 \<times> i64) list \<Rightarrow> bool"
  for nxt row where
  yields_end: "nxt s = Inr (False, s') \<Longrightarrow> yields nxt row s []"
| yields_row: "nxt s = Inr (True, s') \<Longrightarrow> yields nxt row s' ps \<Longrightarrow> yields nxt row s (row s' # ps)"

lemma yields_cong:
  assumes "nxt s = nxt s'" "yields nxt row s' ps"
  shows "yields nxt row s ps"
  using assms(2,1) by (cases rule: yields.cases) (auto intro: yields.intros)

definition scan_row :: "SegmentScanOp \<Rightarrow> i64 \<times> i64" where
  "scan_row s = (so_pred s, so_agg s)"

definition filter_row :: "FilterOp \<Rightarrow> i64 \<times> i64" where
  "filter_row f = scan_row (fo_child f)"

definition scan_of :: "AggregateQuery \<Rightarrow> SegmentScanOp \<Rightarrow> bool" where
  "scan_of q s \<longleftrightarrow> so_pred_col s = aq_predicate_column q \<and> so_agg_col s = aq_aggregate_column q \<and>
     so_prune_threshold s = aq_threshold q \<and> (\<forall>seg\<in>set (so_segments s). scannable q seg) \<and>
     (\<forall>seg. so_current s = Some seg \<longrightarrow> scannable q seg)"

definition unread :: "AggregateQuery \<Rightarrow> SegmentScanOp \<Rightarrow> (i64 \<times> i64) list" where
  "unread q s = (case so_current s of None \<Rightarrow> [] | Some seg \<Rightarrow> drop (so_row s) (query_rows q seg)) @
     scanned_rows q (drop (so_seg_idx s) (so_segments s))"

lemma AdvanceSegment_spec:
  assumes "scan_of q s" "so_current s = None"
  shows "\<exists>found s'. AdvanceSegment s = Inr (found, s') \<and> scan_of q s' \<and> unread q s' = unread q s \<and>
    (if found then so_current s' \<noteq> None else unread q s = [])"
  using assms
proof (induction s rule: AdvanceSegment.induct)
  case (1 s)
  show ?case
  proof (cases "so_seg_idx s < length (so_segments s)")
    case True
    let ?seg = "so_segments s ! so_seg_idx s"
    have ok: "scannable q ?seg" using "1.prems" True by (simp add: scan_of_def)
    have drop: "drop (so_seg_idx s) (so_segments s) = ?seg # drop (Suc (so_seg_idx s)) (so_segments s)"
      using True by (simp add: Cons_nth_drop_Suc)
    from ok show ?thesis
    proof (cases rule: skips_cases)
      case 1
      then have skip: "CanSkip ?seg (so_pred_col s) kGt (VInt64 (so_prune_threshold s)) = Inr True"
        using "1.prems" by (simp add: scan_of_def)
      let ?s = "s\<lparr>so_seg_idx := so_seg_idx s + 1\<rparr>"
      have "scan_of q ?s" "so_current ?s = None" using "1.prems" by (simp_all add: scan_of_def)
      note IH = "1.IH" [OF True skip TrueI this]
      have "AdvanceSegment s = AdvanceSegment ?s" using skip True by (subst AdvanceSegment.simps) simp
      moreover have "unread q ?s = unread q s" using "1.prems"(2) 1 drop by (simp add: unread_def)
      ultimately show ?thesis using IH by (simp only:)
    next
      case 2
      with "1.prems" ok drop True show ?thesis
        by (subst AdvanceSegment.simps) (auto simp: scan_of_def unread_def)
    qed
  next
    case False
    with "1.prems" show ?thesis by (subst AdvanceSegment.simps) (auto simp: unread_def)
  qed
qed

lemma current_row_in:
  assumes "scan_of q s" "so_current s = Some seg" "so_row s < seg_num_rows seg"
  shows "current_row s seg = Inr (query_rows q seg ! so_row s)"
  using assms by (simp add: current_row_def scan_of_def scannable_def seg_column_def query_rows_def)

lemma ScanNext_spec:
  assumes "scan_of q s"
  shows "\<exists>more s'. ScanNext s = Inr (more, s') \<and> scan_of q s' \<and>
    unread q s = (if more then scan_row s' # unread q s' else [])"
  using assms
proof (induction s rule: ScanNext.induct)
  case (1 s)
  let ?m = "if Option.is_none (so_current s) then AdvanceSegment s else Inr (True, s)"
  obtain found s1 where s1: "?m = Inr (found, s1)" "scan_of q s1" "unread q s1 = unread q s"
    "if found then so_current s1 \<noteq> None else unread q s = []"
    using AdvanceSegment_spec [OF "1.prems"] "1.prems" by (cases "so_current s = None") auto
  show ?case
  proof (cases found)
    case True
    with s1(4) obtain seg where seg: "so_current s1 = Some seg" by auto
    show ?thesis
    proof (cases "so_row s1 < seg_num_rows seg")
      case less: True
      then have "drop (so_row s1) (query_rows q seg) = query_rows q seg ! so_row s1 # drop (Suc (so_row s1)) (query_rows q seg)"
        by (simp add: Cons_nth_drop_Suc)
      moreover obtain p a where pa: "query_rows q seg ! so_row s1 = (p, a)" by force
      let ?s = "s1\<lparr>so_pred := p, so_agg := a, so_row := so_row s1 + 1\<rparr>"
      have "ScanNext s = Inr (True, ?s)"
        using True seg s1(1) less current_row_in [OF s1(2) seg less] by (subst ScanNext.simps) (simp add: pa)
      moreover have "scan_of q ?s" using s1(2) by (simp add: scan_of_def)
      ultimately show ?thesis using s1(3) seg by (intro exI [of _ True] exI [of _ ?s]) (simp add: unread_def scan_row_def pa)
    next
      case False
      then have "drop (so_row s1) (query_rows q seg) = []" by simp
      then have "unread q (s1\<lparr>so_current := None\<rparr>) = unread q s" using seg s1(3) by (simp add: unread_def)
      moreover have "scan_of q (s1\<lparr>so_current := None\<rparr>)" using s1(2) by (simp add: scan_of_def)
      moreover have "ScanNext s = ScanNext (s1\<lparr>so_current := None\<rparr>)"
        using True False seg s1(1) by (subst ScanNext.simps) auto
      ultimately show ?thesis using "1.IH" [OF s1(1) refl _ seg False] True by auto
    qed
  next
    case False
    with s1 show ?thesis by (subst ScanNext.simps) auto
  qed
qed

lemma scan_yields: "scan_of q s \<Longrightarrow> yields ScanNext scan_row s (unread q s)"
proof (induction "unread q s" arbitrary: s)
  case Nil
  with ScanNext_spec [OF Nil(2)] show ?case by (auto intro: yields_end split: if_splits)
next
  case (Cons p ps)
  from ScanNext_spec [OF Cons(3)] Cons(2) obtain s' where "ScanNext s = Inr (True, s')" "scan_of q s'"
    "unread q s = scan_row s' # unread q s'" "ps = unread q s'" by (auto split: if_splits)
  with Cons(1) show ?case by (metis yields_row)
qed

lemma filter_yields:
  "yields ScanNext scan_row s ps \<Longrightarrow> fo_child f = s \<Longrightarrow> yields FilterNext filter_row f (matching (fo_threshold f) ps)"
proof (induction arbitrary: f rule: yields.induct)
  case (yields_end s s')
  then have "FilterNext f = Inr (False, f\<lparr>fo_child := s'\<rparr>)" by (simp add: FilterNext.simps)
  then show ?case unfolding matching_def by (auto intro: yields.yields_end)
next
  case (yields_row s s' ps)
  let ?f = "f\<lparr>fo_child := s'\<rparr>"
  have IH: "yields FilterNext filter_row ?f (matching (fo_threshold f) ps)" using yields_row.IH [of ?f] by simp
  show ?case
  proof (cases "sint (so_pred s') > sint (fo_threshold f)")
    case True
    with yields_row have "FilterNext f = Inr (True, ?f)" by (simp add: FilterNext.simps)
    moreover have "filter_row ?f = scan_row s'" by (simp add: filter_row_def)
    ultimately show ?thesis using yields.yields_row [OF _ IH] True by (fastforce simp: matching_def scan_row_def)
  next
    case False
    with yields_row have "FilterNext f = FilterNext ?f" by (subst FilterNext.simps) simp
    from yields_cong [OF this IH] False show ?thesis by (simp add: matching_def scan_row_def)
  qed
qed

lemma volcano_yields:
  "yields FilterNext filter_row f ps \<Longrightarrow> matching t ps = ps \<Longrightarrow> bounded t (xs @ ps) \<Longrightarrow>
   volcano_loop f (aggregate t xs) = Inr (aggregate t (xs @ ps))"
proof (induction arbitrary: xs rule: yields.induct)
  case (yields_end f f')
  then show ?case by (subst volcano_loop.simps) simp
next
  case (yields_row f f' ps)
  let ?p = "filter_row f'"
  from yields_row.prems(1) have m: "matching t [?p] = [?p]" "matching t ps = ps"
    by (auto simp: matching_def filter_eq_Cons_iff split: if_splits)
  from yields_row.prems(2) have b: "bounded t ((xs @ [?p]) @ ps)" by simp
  have "add_i64 (fs_sum (aggregate t xs)) (snd ?p) = Inr (fs_sum (aggregate t (xs @ [?p])))"
    using add_aggregate [of t xs "[?p]"] bounded_append [OF b] m(1) by (simp add: aggregate_def case_prod_beta)
  moreover have "(aggregate t xs)\<lparr>fs_sum := fs_sum (aggregate t (xs @ [?p])), fs_matched_count := fs_matched_count (aggregate t xs) + 1\<rparr> =
      aggregate t (xs @ [?p])" using m(1) by (simp add: aggregate_def)
  ultimately have "volcano_loop f (aggregate t xs) = volcano_loop f' (aggregate t (xs @ [?p]))"
    using yields_row.hyps(1) by (subst volcano_loop.simps) (simp add: filter_row_def scan_row_def)
  with yields_row.IH [OF m(2) b] show ?case by simp
qed

lemma RunVolcano_exact:
  assumes "\<forall>seg\<in>set segs. scannable q seg" "bounded (aq_threshold q) (scanned_rows q segs)"
  shows "RunVolcano segs q = Inr (aggregate (aq_threshold q) (scanned_rows q segs))"
proof -
  let ?t = "aq_threshold q" and ?rows = "scanned_rows q segs"
  let ?scan = "make_SegmentScanOp segs (aq_predicate_column q) (aq_aggregate_column q) ?t"
  let ?f = "\<lparr>fo_child = ?scan, fo_threshold = ?t\<rparr>"
  have "scan_of q ?scan" "unread q ?scan = ?rows" using assms(1) by (simp_all add: scan_of_def make_SegmentScanOp_def unread_def)
  then have "yields FilterNext filter_row ?f (matching ?t ?rows)"
    using scan_yields [of q ?scan] filter_yields [of ?scan ?rows ?f] by simp
  moreover have idem: "matching ?t (matching ?t ?rows) = matching ?t ?rows" by (simp add: matching_def)
  moreover have "length (matching ?t ?rows) \<le> length ?rows" by (simp add: matching_def)
  then have "bounded ?t ([] @ matching ?t ?rows)" using assms(2) by (auto simp: bounded_def idem)
  ultimately have "volcano_loop ?f (aggregate ?t []) = Inr (aggregate ?t ([] @ matching ?t ?rows))"
    by (rule volcano_yields)
  then show ?thesis unfolding RunVolcano_def default_aggregate [of ?t] by (simp add: aggregate_def idem)
qed

section \<open>Batches\<close>

lemma run_batch_exact:
  fixes P A :: "i64 list" and n :: nat
  defines "rows \<equiv> map (\<lambda>r. (P ! r, A ! r)) [0..<n]"
  assumes "n \<le> length P" "n \<le> length A" "off < n" "bounded thr (xs @ rows)"
  shows "run_batch t level P A n thr bs off (aggregate thr (xs @ take off rows)) = Inr (aggregate thr (xs @ take (off + bs) rows))"
proof -
  let ?c = "min bs (n - off)" and ?batch = "take bs (drop off rows)"
  have split: "take (off + bs) rows = take off rows @ ?batch" by (simp add: take_add)
  have batch: "map (\<lambda>r. (drop off P ! r, drop off A ! r)) [0..<?c] = ?batch"
    using assms(2-4) by (intro nth_equalityI) (auto simp: rows_def)
  have "xs @ rows = (xs @ take off rows @ ?batch) @ drop (off + bs) rows"
    unfolding split [symmetric] by simp
  with assms(5) have "bounded thr ((xs @ take off rows @ ?batch) @ drop (off + bs) rows)" by (simp only:)
  from conjunct1 [OF bounded_append [OF this]] have b: "bounded thr ((xs @ take off rows) @ ?batch)" by (simp only: append_assoc)
  have lens: "?c \<le> length (drop off P)" "?c \<le> length (drop off A)" using assms(2-4) by auto
  have "bounded thr (map (\<lambda>r. (drop off P ! r, drop off A ! r)) [0..<?c])"
    unfolding batch using bounded_append [OF b] by (rule conjunct2)
  with lens have "in_range (drop off P) (drop off A) ?c thr" by (rule in_range_rows)
  from dispatch.filter_exact [OF this] have "FilterGtSum t level (drop off P) (drop off A) ?c thr = Inr (aggregate thr ?batch)"
    by (simp add: filter_sum_rows batch)
  with add_batch_aggregate [OF b] show ?thesis by (simp add: run_batch_def split)
qed

lemma batch_loop_exact:
  fixes P A :: "i64 list" and n :: nat
  defines "rows \<equiv> map (\<lambda>r. (P ! r, A ! r)) [0..<n]"
  assumes "n \<le> length P" "n \<le> length A" "bounded thr (xs @ rows)" "0 < bs" "bs < 2 ^ 64"
  shows "off = 0 \<or> bs \<le> off \<Longrightarrow>
    batch_loop t level P A n thr bs off (aggregate thr (xs @ take off rows)) = Some (Inr (aggregate thr (xs @ rows)))"
proof (induction "n - off" arbitrary: off rule: less_induct)
  case less
  show ?case
  proof (cases "off < n")
    case True
    have "n < 2 ^ 63" using bounded_append [OF assms(4)] by (simp add: bounded_def rows_def)
    with True less.prems assms(6) have wrap: "(off + bs) mod 2 ^ 64 = off + bs" by auto
    note run_batch_exact [OF assms(2,3) True assms(4)[unfolded rows_def], folded rows_def, of t level bs]
    then have "batch_loop t level P A n thr bs off (aggregate thr (xs @ take off rows)) =
        batch_loop t level P A n thr bs (off + bs) (aggregate thr (xs @ take (off + bs) rows))"
      using True wrap by (subst batch_loop.simps) simp
    with less.hyps [of "off + bs"] True assms(5) show ?thesis by simp
  next
    case False
    then show ?thesis by (subst batch_loop.simps) (simp add: rows_def)
  qed
qed

lemma query_columns_in:
  assumes "scannable q seg"
  obtains P A where "query_columns q seg = Inr (P, A)" "seg_num_rows seg \<le> length P" "seg_num_rows seg \<le> length A"
    "query_rows q seg = map (\<lambda>r. (P ! r, A ! r)) [0..<seg_num_rows seg]"
  using assms that by (simp add: scannable_def query_columns_def seg_column_def query_rows_def)

lemma vectorized_loop_exact:
  assumes "0 < bs" "bs < 2 ^ 64"
  shows "\<forall>seg\<in>set segs. scannable q seg \<Longrightarrow> bounded (aq_threshold q) (xs @ scanned_rows q segs) \<Longrightarrow>
    vectorized_loop t level q bs segs (aggregate (aq_threshold q) xs) =
      Some (Inr (aggregate (aq_threshold q) (xs @ scanned_rows q segs)))"
proof (induction segs arbitrary: xs)
  case (Cons seg segs)
  let ?t = "aq_threshold q"
  from Cons.prems have ok: "scannable q seg" by simp
  from ok show ?case
  proof (cases rule: skips_cases)
    case 1
    with Cons show ?thesis by simp
  next
    case 2
    obtain P A where PA: "query_columns q seg = Inr (P, A)" "seg_num_rows seg \<le> length P" "seg_num_rows seg \<le> length A"
      "query_rows q seg = map (\<lambda>r. (P ! r, A ! r)) [0..<seg_num_rows seg]" using query_columns_in [OF ok] by blast
    have b: "bounded ?t ((xs @ query_rows q seg) @ scanned_rows q segs)" using Cons.prems(2) 2(1) by simp
    have "batch_loop t level P A (seg_num_rows seg) ?t bs 0 (aggregate ?t xs) = Some (Inr (aggregate ?t (xs @ query_rows q seg)))"
      using batch_loop_exact [OF PA(2,3) _ assms, of ?t xs 0 t level] bounded_append [OF b] PA(4) by simp
    with 2 PA(1) Cons.IH [OF _ b] Cons.prems(1) show ?thesis by simp
  qed
qed simp

lemma RunVectorized_exact:
  assumes "\<forall>seg\<in>set segs. scannable q seg" "bounded (aq_threshold q) (scanned_rows q segs)" "0 < bs" "bs < 2 ^ 64"
  shows "RunVectorized t level segs q bs = Some (Inr (aggregate (aq_threshold q) (scanned_rows q segs)))"
  unfolding RunVectorized_def default_aggregate [of "aq_threshold q"]
  using vectorized_loop_exact [OF assms(3,4,1), of "[]"] assms(2) by simp

lemma RunJit_exact:
  assumes "llvm_sound L" "Compile L = Inr qj"
    and "\<forall>seg\<in>set segs. scannable q seg" "bounded (aq_threshold q) (scanned_rows q segs)"
  shows "RunJit segs q qj = Inr (aggregate (aq_threshold q) (scanned_rows q segs))"
proof -
  let ?t = "aq_threshold q"
  have "fold_res (jit_segment qj q) segs (aggregate ?t xs) = Inr (aggregate ?t (xs @ scanned_rows q segs))"
    if "\<forall>seg\<in>set segs. scannable q seg" "bounded ?t (xs @ scanned_rows q segs)" for xs
    using that
  proof (induction segs arbitrary: xs)
    case (Cons seg segs)
    from Cons.prems have ok: "scannable q seg" by simp
    from ok show ?case
    proof (cases rule: skips_cases)
      case 1
      with Cons show ?thesis by (simp add: jit_segment_def)
    next
      case 2
      obtain P A where PA: "query_columns q seg = Inr (P, A)" "seg_num_rows seg \<le> length P" "seg_num_rows seg \<le> length A"
        "query_rows q seg = map (\<lambda>r. (P ! r, A ! r)) [0..<seg_num_rows seg]" using query_columns_in [OF ok] by blast
      have b: "bounded ?t ((xs @ query_rows q seg) @ scanned_rows q segs)" using Cons.prems(2) 2(1) by simp
      then have "seg_num_rows seg < 2 ^ 63" using bounded_append [OF b] by (simp add: bounded_def)
      from Run_exact [OF assms(1,2) PA(2,3) this, of ?t] PA(4)
      have "jit_segment qj q seg (aggregate ?t xs) = Inr (aggregate ?t (xs @ query_rows q seg))"
        using 2 PA(1) add_batch_aggregate [of ?t xs "query_rows q seg"] bounded_append [OF b]
        by (simp add: jit_segment_def filter_sum_rows)
      with Cons.IH [OF _ b] Cons.prems(1) 2(1) show ?thesis by simp
    qed
  qed simp
  from this [of "[]"] assms(3,4) show ?thesis by (simp add: RunJit_def default_aggregate [of ?t])
qed

section \<open>Segments that hold rows\<close>

definition int64_cell :: "Value \<Rightarrow> i64" where
  "int64_cell v = (case v of VInt64 x \<Rightarrow> x | _ \<Rightarrow> 0)"

definition exact_int64 :: "Value \<Rightarrow> bool" where
  "exact_int64 v \<longleftrightarrow> (\<exists>x. v = VInt64 x \<and> \<bar>sint x\<bar> \<le> 2 ^ 53)"

definition query_cells :: "AggregateQuery \<Rightarrow> Row \<Rightarrow> i64 \<times> i64" where
  "query_cells q row = (int64_cell (row ! aq_predicate_column q), int64_cell (row ! aq_aggregate_column q))"

definition answers :: "AggregateQuery \<Rightarrow> Segment \<Rightarrow> Row list \<Rightarrow> bool" where
  "answers q seg rows \<longleftrightarrow> segment_holds seg rows \<and>
     aq_predicate_column q < length (seg_columns seg) \<and> aq_aggregate_column q < length (seg_columns seg) \<and>
     (\<forall>row\<in>set rows. exact_int64 (row ! aq_predicate_column q) \<and> (\<exists>a. row ! aq_aggregate_column q = VInt64 a))"

lemma ValueAt_int64: "ValueAt col r = Inr (VInt64 x) \<Longrightarrow> r < length (col_int64 col) \<and> col_int64 col ! r = x"
  by (auto simp: ValueAt_def vec_idx_def split: if_splits ColumnType.splits)

lemma holds_int64:
  assumes "column_holds col vals" "\<forall>v\<in>set vals. \<exists>x. v = VInt64 x"
  shows "length vals \<le> length (col_int64 col) \<and> (\<forall>r<length vals. col_int64 col ! r = int64_cell (vals ! r))"
proof -
  have *: "r < length (col_int64 col) \<and> col_int64 col ! r = int64_cell (vals ! r)" if "r < length vals" for r
  proof -
    from that assms(2) obtain x where "vals ! r = VInt64 x" by fastforce
    with that assms(1) ValueAt_int64 [of col r x] show ?thesis by (simp add: column_holds_def int64_cell_def)
  qed
  then have "length vals \<le> length (col_int64 col)" by (cases vals rule: rev_cases) force+
  with * show ?thesis by blast
qed

lemma holds_CanSkip:
  assumes "column_holds (seg_columns seg ! c) vals" "c < length (seg_columns seg)" "\<forall>v\<in>set vals. exact_int64 v"
    and "\<bar>sint t\<bar> \<le> 2 ^ 53"
  shows "\<exists>b. CanSkip seg c kGt (VInt64 t) = Inr b \<and> (b \<longrightarrow> (\<forall>v\<in>set vals. \<not> sint (int64_cell v) > sint t))"
proof -
  let ?col = "seg_columns seg ! c"
  have nn: "filter (\<lambda>v. v \<noteq> Monostate) vals = vals" using assms(3) by (auto simp: exact_int64_def filter_id_conv)
  have "bounds_ok vals (col_min ?col) (col_max ?col)" using assms(1) nn by (simp add: column_holds_def)
  then have "(col_min ?col = Monostate \<and> col_max ?col = Monostate) \<or>
      (exact_int64 (col_min ?col) \<and> exact_int64 (col_max ?col))"
    using assms(3) by (auto simp: bounds_ok_def split: if_splits)
  then have "\<exists>b. CanSkip seg c kGt (VInt64 t) = Inr b"
    using assms(2) by (auto simp: CanSkip_def seg_column_def exact_int64_def CompareValues_num)
  then obtain b where b: "CanSkip seg c kGt (VInt64 t) = Inr b" by blast
  have "\<not> sint (int64_cell v) > sint t" if hb: "b" and hv: "v \<in> set vals" for v
  proof -
    from hv obtain r where r: "r < length vals" "v = vals ! r" by (auto simp: in_set_conv_nth)
    have "set (filter (\<lambda>v. v \<noteq> Monostate) vals) \<subseteq> {v. comparable_num v}" using assms(3) by (auto simp: exact_int64_def)
    then have "EvaluatePredicate v kGt (VInt64 t) = Inr False"
      using CanSkip_three_way [OF num.three_way_axioms assms(2,1) _ _ _ r(1)] b hb r(2) by auto
    moreover obtain x where "v = VInt64 x" "\<bar>sint x\<bar> \<le> 2 ^ 53" using assms(3) hv by (auto simp: exact_int64_def)
    ultimately show ?thesis
      using num_key_int_strict [of t x] assms(4)
      by (auto simp: EvaluatePredicate_def CompareValues_num int64_cell_def split: if_splits)
  qed
  with b show ?thesis by blast
qed

lemma answers_rows:
  assumes "answers q seg rows" "\<bar>sint (aq_threshold q)\<bar> \<le> 2 ^ 53"
  shows "scannable q seg" "query_rows q seg = map (query_cells q) rows"
    "skipped q seg \<Longrightarrow> matching (aq_threshold q) (query_rows q seg) = []"
proof -
  let ?pc = "aq_predicate_column q" and ?ac = "aq_aggregate_column q"
  note A = assms(1) [unfolded answers_def]
  have n: "seg_num_rows seg = length rows" using A by (simp add: segment_holds_def)
  have hp: "column_holds (seg_columns seg ! ?pc) (map (\<lambda>row. row ! ?pc) rows)"
    and ha: "column_holds (seg_columns seg ! ?ac) (map (\<lambda>row. row ! ?ac) rows)" using A by (simp_all add: segment_holds_def)
  have P: "length rows \<le> length (col_int64 (seg_columns seg ! ?pc))"
    "\<forall>r<length rows. col_int64 (seg_columns seg ! ?pc) ! r = int64_cell (rows ! r ! ?pc)"
    using holds_int64 [OF hp] A by (auto simp: exact_int64_def)
  have Ac: "length rows \<le> length (col_int64 (seg_columns seg ! ?ac))"
    "\<forall>r<length rows. col_int64 (seg_columns seg ! ?ac) ! r = int64_cell (rows ! r ! ?ac)"
    using holds_int64 [OF ha] A by auto
  from holds_CanSkip [OF hp _ _ assms(2)] A obtain b where b: "CanSkip seg ?pc kGt (VInt64 (aq_threshold q)) = Inr b"
    "b \<longrightarrow> (\<forall>row\<in>set rows. \<not> sint (int64_cell (row ! ?pc)) > sint (aq_threshold q))" by auto
  show "scannable q seg" using A P(1) Ac(1) b(1) n by (simp add: scannable_def)
  show rows: "query_rows q seg = map (query_cells q) rows"
    using P(2) Ac(2) by (intro nth_equalityI) (simp_all add: n, simp add: query_rows_def n query_cells_def)
  show "skipped q seg \<Longrightarrow> matching (aq_threshold q) (query_rows q seg) = []"
    using b unfolding rows by (auto simp: skipped_def matching_def query_cells_def filter_empty_conv)
qed

lemma matching_all_rows:
  assumes "list_all2 (answers q) segs rowss" "\<bar>sint (aq_threshold q)\<bar> \<le> 2 ^ 53"
  shows "matching (aq_threshold q) (scanned_rows q segs) = matching (aq_threshold q) (map (query_cells q) (concat rowss))"
    "length (scanned_rows q segs) \<le> length (concat rowss)"
  using assms(1)
proof (induction rule: list_all2_induct)
  case (Cons seg segs rows rowss)
  note r = answers_rows [OF Cons(1) assms(2)]
  {
    case 1
    show ?case using Cons r by (cases "skipped q seg") auto
  next
    case 2
    show ?case using Cons r(2) by simp
  }
qed simp_all

text \<open>Segments that \<^const>\<open>Build\<close> made of int64 rows answer queries.\<close>

lemma built_answers:
  assumes "list_all2 (\<lambda>seg rows. \<exists>sid. Build sid schema rows = Inr seg) segs rowss"
    and "\<forall>cs\<in>set schema. known_type (cs_type cs)" and "\<forall>rows\<in>set rowss. length rows \<le> 2 ^ 32"
    and "\<forall>row\<in>set (concat rowss). row_has_schema schema row \<and> exact_int64 (row ! aq_predicate_column q) \<and>
      (\<exists>a. row ! aq_aggregate_column q = VInt64 a)"
    and "aq_predicate_column q < length schema" and "aq_aggregate_column q < length schema"
  shows "list_all2 (answers q) segs rowss"
proof -
  have "answers q seg rows" if r: "rows \<in> set rowss" and b: "Build sid schema rows = Inr seg" for seg rows sid
  proof -
    have "\<forall>row\<in>set rows. row_has_schema schema row" using assms(4) r by auto
    with Build_ok [OF assms(2), of rows sid] assms(3) r b have "segment_holds seg rows" "length (seg_columns seg) = length schema" by auto
    with assms(4-6) r show ?thesis by (auto simp: answers_def)
  qed
  with assms(1) show ?thesis by (auto simp: list_all2_conv_all_nth)
qed

lemma build_cell_int64:
  assumes "build_cell c rows k (col, hb) = Inr (col', hb')" "k < length rows" "col_type col = kInt64" "k < length (col_int64 col)"
    and "col_int64 col ! k = 0"
  shows "col_type col' = kInt64 \<and> col_int64 col' = (col_int64 col)[k := int64_cell (rows ! k ! c)]"
proof -
  obtain v where v: "vec_at (rows ! k) c = Inr v" using assms(1) by (cases "vec_at (rows ! k) c") (auto simp: build_cell_def)
  then have vk: "rows ! k ! c = v" by (simp add: vec_at_def split: if_splits)
  show ?thesis
  proof (cases "v = Monostate")
    case True
    have "col_int64 col = (col_int64 col)[k := 0]" using assms(4,5) by (metis list_update_id)
    with True show ?thesis using assms(1,3) v vk
      by (cases "SetValid (col_validity col) k False") (auto simp: build_cell_def int64_cell_def)
  next
    case False
    obtain w col1 where s: "store_cell k v col = Inr (w, col1)" "update_bounds w (col1, hb) = Inr (col', hb')"
      using assms(1) v False by (cases "store_cell k v col") (auto simp: build_cell_def)
    have "col_type col' = col_type col1 \<and> col_int64 col' = col_int64 col1"
      using s(2) by (cases "CompareValues w (col_min col1)"; cases "CompareValues w (col_max col1)")
        (auto simp: update_bounds_def Let_def split: if_splits)
    moreover have "col_type col1 = kInt64 \<and> col_int64 col1 = (col_int64 col)[k := int64_cell v]"
      using s(1) assms(3) by (auto simp: store_cell_def int64_cell_def split: Value.splits)
    ultimately show ?thesis using vk by simp
  qed
qed

text \<open>What the data array of a built int64 column holds: the values, and 0 where a cell is null.\<close>

lemma build_column_int64:
  assumes "build_column cs c rows = Inr col" "cs_type cs = kInt64"
  shows "col_int64 col = map (\<lambda>row. int64_cell (row ! c)) rows"
proof -
  let ?n = "length rows" and ?vs = "map (\<lambda>row. int64_cell (row ! c)) rows"
  define col0 where "col0 = resize_data (cs_type cs) ?n (default_Column\<lparr>col_type := cs_type cs, col_validity := MakeBitmap ?n True\<rparr>)"
  have step: "col_type col1 = kInt64 \<and> col_int64 col1 = take k ?vs @ replicate (?n - k) 0"
    if "fold_res (build_cell c rows) [0..<k] (col0, False) = Inr (col1, hb)" "k \<le> ?n" for k col1 hb
    using that
  proof (induction k arbitrary: col1 hb)
    case 0
    then show ?case by (auto simp: col0_def resize_data_def assms(2))
  next
    case (Suc k)
    then obtain col2 hb2 where b: "fold_res (build_cell c rows) [0..<k] (col0, False) = Inr (col2, hb2)"
      "build_cell c rows k (col2, hb2) = Inr (col1, hb)"
      by (cases "fold_res (build_cell c rows) [0..<k] (col0, False)") (auto simp: fold_res_append)
    have k: "k < ?n" "?n - k = Suc (?n - Suc k)" using Suc.prems(2) by simp_all
    with Suc.IH [OF b(1)] have c2: "col_type col2 = kInt64" "col_int64 col2 = take k ?vs @ 0 # replicate (?n - Suc k) 0" by simp_all
    have "col_type col1 = kInt64 \<and> col_int64 col1 = (col_int64 col2)[k := int64_cell (rows ! k ! c)]"
      by (rule build_cell_int64 [OF b(2) k(1) c2(1)]) (simp_all add: c2(2) nth_append k(1))
    then show ?case using k(1) by (simp add: c2(2) list_update_append take_Suc_conv_app_nth)
  qed
  obtain col1 hb where "fold_res (build_cell c rows) [0..<?n] (col0, False) = Inr (col1, hb)" "col_int64 col = col_int64 col1"
    using assms(1) by (cases "fold_res (build_cell c rows) [0..<?n] (col0, False)")
      (auto simp: build_column_def Let_def col0_def [symmetric])
  then show ?thesis using step [of ?n col1 hb] by simp
qed

lemma Build_int64:
  assumes "Build sid schema rows = Inr seg" "c < length schema" "cs_type (schema ! c) = kInt64"
  shows "c < length (seg_columns seg) \<and> col_int64 (seg_columns seg ! c) = map (\<lambda>row. int64_cell (row ! c)) rows \<and> seg_num_rows seg = length rows"
proof -
  obtain cols where cols: "map_res (\<lambda>c. build_column (schema ! c) c rows) [0..<length schema] = Inr cols" "seg_columns seg = cols"
    "seg_num_rows seg = length rows" using assms(1) by (auto simp: Build_def)
  then have "list_all2 (\<lambda>c col. build_column (schema ! c) c rows = Inr col) [0..<length schema] cols" by (simp add: map_res_eq_Inr)
  with assms(2,3) cols(2,3) build_column_int64 show ?thesis by (auto simp: list_all2_conv_all_nth)
qed

lemma Build_query_rows:
  assumes "Build sid schema rows = Inr seg"
    and "aq_predicate_column q < length schema" "cs_type (schema ! aq_predicate_column q) = kInt64"
    and "aq_aggregate_column q < length schema" "cs_type (schema ! aq_aggregate_column q) = kInt64"
    and "CanSkip seg (aq_predicate_column q) kGt (VInt64 (aq_threshold q)) = Inr b"
  shows "scannable q seg" "query_rows q seg = map (query_cells q) rows"
  using Build_int64 [OF assms(1-3)] Build_int64 [OF assms(1,4,5)] assms(6)
  by (auto simp: scannable_def query_rows_def query_cells_def intro: nth_equalityI)

section \<open>Termination of the batch loop\<close>

lemma batch_loop_returns:
  assumes "n \<le> 2 ^ 63" "0 < bs" "bs < 2 ^ 64"
  shows "off = 0 \<or> bs \<le> off \<Longrightarrow> \<exists>r. batch_loop t level P A n thr bs off result = Some r"
proof (induction "n - off" arbitrary: off result rule: less_induct)
  case less
  show ?case
  proof (cases "off < n")
    case True
    with less.prems assms have wrap: "(off + bs) mod 2 ^ 64 = off + bs" by auto
    show ?thesis
    proof (cases "run_batch t level P A n thr bs off result")
      case (Inr result')
      with less.hyps [of "off + bs" result'] True assms(2) wrap show ?thesis by (subst batch_loop.simps) simp
    qed (use True in \<open>subst batch_loop.simps; simp\<close>)
  qed (subst batch_loop.simps; simp)
qed

lemma run_batch_zero: "run_batch t level P A n thr 0 off result = Inr result"
proof -
  have "in_range (drop off P) (drop off A) 0 thr" by (simp add: in_range_def)
  from dispatch.filter_exact [OF this, of t level] show ?thesis
    using sint_ge [of "fs_sum result"] sint_lt [of "fs_sum result"]
    by (simp add: run_batch_def filter_sum_def add_batch_def add_i64_def Let_def)
qed

lemma batch_loop_diverges:
  assumes "off < n"
  shows "batch_loop t level p a n thr 0 off result = None"
proof -
  have "batch_loop t level p a n thr bs off result = Some r \<Longrightarrow> \<not> (bs = 0 \<and> off < n)" for t level p a n thr bs off result r
  proof (erule batch_loop.raw_induct [rotated])
    fix f :: "target \<Rightarrow> SimdLevel \<Rightarrow> i64 list \<Rightarrow> i64 list \<Rightarrow> nat \<Rightarrow> i64 \<Rightarrow> nat \<Rightarrow> nat \<Rightarrow> AggregateResult \<Rightarrow> AggregateResult res option"
      and t level p a n thr bs off result r
    assume IH: "\<And>t level p a n thr bs off result r. f t level p a n thr bs off result = Some r \<Longrightarrow> \<not> (bs = 0 \<and> off < n)"
      and body: "(if off < n
        then case run_batch t level p a n thr bs off result of Inl e \<Rightarrow> Some (Inl e)
             | Inr result' \<Rightarrow> f t level p a n thr bs ((off + bs) mod 2 ^ 64) result'
        else Some (Inr result)) = Some r"
    show "\<not> (bs = 0 \<and> off < n)"
    proof
      assume z: "bs = 0 \<and> off < n"
      then have "f t level p a n thr 0 (off mod 2 ^ 64) result = Some r" using body by (simp add: run_batch_zero)
      from IH [OF this] z mod_less_eq_dividend [of off "2 ^ 64"] show False by (meson le_less_trans)
    qed
  qed
  from this [of t level p a n thr 0 off result] assms show ?thesis by (cases "batch_loop t level p a n thr 0 off result") auto
qed

definition sample_column :: "bool \<Rightarrow> i64 \<Rightarrow> Column" where
  "sample_column valid x =
     default_Column\<lparr>col_type := kInt64, col_validity := \<lparr>bm_num_rows = 1, bm_bytes = [if valid then 1 else 0]\<rparr>,
       col_int64 := [x], col_min := (if valid then VInt64 x else Monostate), col_max := (if valid then VInt64 x else Monostate)\<rparr>"

definition sample_segment_of :: "Column list \<Rightarrow> Segment" where
  "sample_segment_of cols =
     \<lparr>seg_id = 1, seg_num_rows = 1, seg_schema = replicate (length cols) \<lparr>cs_name = ''c'', cs_type = kInt64\<rparr>, seg_columns = cols\<rparr>"

definition sample_query :: "i64 \<Rightarrow> AggregateQuery" where
  "sample_query t = \<lparr>aq_predicate_column = 0, aq_aggregate_column = 1, aq_threshold = t\<rparr>"

lemma sample_skip: "CanSkip (sample_segment_of [sample_column True 5, sample_column True 10]) 0 kGt (VInt64 4) = Inr False"
  using num_key_int_strict [of 4 5]
  by (simp add: CanSkip_def seg_column_def sample_segment_of_def sample_column_def CompareValues_num)

lemma sample_scannable: "scannable (sample_query 4) (sample_segment_of [sample_column True 5, sample_column True 10])"
  "\<not> skipped (sample_query 4) (sample_segment_of [sample_column True 5, sample_column True 10])"
  "query_rows (sample_query 4) (sample_segment_of [sample_column True 5, sample_column True 10]) = [(5, 10)]"
  using sample_skip
  by (simp_all add: scannable_def skipped_def query_rows_def sample_query_def)
    (auto simp: sample_segment_of_def sample_column_def)

section \<open>Properties\<close>

text \<open>
  C8: the three execution strategies return the same result on every list of segments with readable
  columns: the sum and the count over the matching rows of the segments that were not pruned. This holds for every
  kernel tier and every batch size from 1 on, as long as LLVM translates the module correctly, there are fewer than
  \<open>2 ^ 63\<close> rows and the magnitudes of the matching values sum up below \<open>2 ^ 63\<close>; in particular all three terminate and none of them throws.
\<close>

theorem engines_agree:
  assumes "\<forall>seg\<in>set segs. scannable q seg" and "bounded (aq_threshold q) (scanned_rows q segs)"
    and "0 < batch_size" "batch_size < 2 ^ 64" and "llvm_sound L" "Compile L = Inr qj"
  shows "RunVolcano segs q = Inr (aggregate (aq_threshold q) (scanned_rows q segs)) \<and>
    RunVectorized t level segs q batch_size = Some (RunVolcano segs q) \<and>
    RunJit segs q qj = RunVolcano segs q"
  using RunVolcano_exact [OF assms(1,2)] RunVectorized_exact [OF assms(1-4)] RunJit_exact [OF assms(5,6,1,2)] by simp

theorem engines_agree_witness:
  "RunVectorized X86_64 kAvx2 [sample_segment_of [sample_column True 5, sample_column True 10]] (sample_query 4) 2048 =
     Some (Inr \<lparr>fs_matched_count = 1, fs_sum = 10\<rparr>) \<and>
   RunJit [sample_segment_of [sample_column True 5, sample_column True 10]] (sample_query 4) \<lparr>qj_compiled_fn = interpreted\<rparr> =
     Inr \<lparr>fs_matched_count = 1, fs_sum = 10\<rparr>"
proof -
  let ?segs = "[sample_segment_of [sample_column True 5, sample_column True 10]]"
  have rows: "scanned_rows (sample_query 4) ?segs = [(5, 10)]" using sample_scannable(2,3) by simp
  have t: "aq_threshold (sample_query 4) = 4" by (simp add: sample_query_def)
  have "bounded (aq_threshold (sample_query 4)) (scanned_rows (sample_query 4) ?segs)"
    unfolding rows t by (simp add: bounded_def matching_def)
  from engines_agree [OF _ this _ _ sample_llvm_sound sample_llvm_compiles, of 2048 X86_64 kAvx2] sample_scannable(1)
  show ?thesis unfolding rows t by (simp add: aggregate_def matching_def)
qed

text \<open>
  C9: the engine answers the query. On segments that \<^const>\<open>Build\<close> made of rows that match the schema
  and have int64 values without nulls in the two columns of the query, with predicate values and threshold
  of magnitude at most \<open>2 ^ 53\<close>, pruning loses nothing: the result is the sum of the aggregate column over
  all stored rows whose predicate cell exceeds the threshold, and their number. The magnitudes of the values
  summed up stay below \<open>2 ^ 63\<close> in total, so that the addition does not overflow.
\<close>

theorem RunVolcano_answers_query:
  assumes "list_all2 (\<lambda>seg rows. \<exists>sid. Build sid schema rows = Inr seg) segs rowss"
    and "\<forall>cs\<in>set schema. known_type (cs_type cs)" and "\<forall>rows\<in>set rowss. length rows \<le> 2 ^ 32"
    and "\<forall>row\<in>set (concat rowss). row_has_schema schema row \<and> exact_int64 (row ! aq_predicate_column q) \<and>
      (\<exists>a. row ! aq_aggregate_column q = VInt64 a)"
    and "aq_predicate_column q < length schema" and "aq_aggregate_column q < length schema"
    and "\<bar>sint (aq_threshold q)\<bar> \<le> 2 ^ 53" and "bounded (aq_threshold q) (map (query_cells q) (concat rowss))"
  shows "\<exists>r. RunVolcano segs q = Inr r \<and>
    sint (fs_sum r) = (\<Sum>row\<leftarrow>concat rowss. if sint (int64_cell (row ! aq_predicate_column q)) > sint (aq_threshold q)
                         then sint (int64_cell (row ! aq_aggregate_column q)) else 0) \<and>
    unat (fs_matched_count r) =
      length (filter (\<lambda>row. sint (int64_cell (row ! aq_predicate_column q)) > sint (aq_threshold q)) (concat rowss))"
proof -
  let ?t = "aq_threshold q" and ?rows = "scanned_rows q segs" and ?all = "map (query_cells q) (concat rowss)"
  note answers = built_answers [OF assms(1-6)]
  note m = matching_all_rows [OF answers assms(7)]
  have "\<forall>seg\<in>set segs. scannable q seg"
    using answers answers_rows(1) [OF _ assms(7)] by (fastforce simp: list_all2_conv_all_nth in_set_conv_nth)
  moreover have b: "bounded ?t ?rows" using assms(8) m by (simp add: bounded_def)
  ultimately have "RunVolcano segs q = Inr (aggregate ?t ?rows)" by (rule RunVolcano_exact)
  moreover have "sint (fs_sum (aggregate ?t ?rows)) = (\<Sum>(p, a)\<leftarrow>?all. if sint p > sint ?t then sint a else 0)"
    unfolding aggregate_sum [OF b] m(1) matching_sum ..
  moreover have "length (matching ?t ?all) = length (filter (\<lambda>row. sint (int64_cell (row ! aq_predicate_column q)) > sint ?t) (concat rowss))"
    by (simp add: matching_def filter_map comp_def query_cells_def)
  moreover have "length (matching ?t ?all) \<le> length ?all" unfolding matching_def by (rule length_filter_le)
  then have "length (matching ?t ?all) < 2 ^ 63" using assms(8) unfolding bounded_def by (blast intro: le_less_trans)
  then have "length (matching ?t ?all) < 2 ^ 64" by (rule less_trans) simp
  ultimately show ?thesis
    by (simp add: aggregate_def m(1) unat_of_nat query_cells_def comp_def)
qed

theorem RunVolcano_answers_query_witness:
  "\<exists>seg r. Build 1 [\<lparr>cs_name = ''p'', cs_type = kInt64\<rparr>, \<lparr>cs_name = ''a'', cs_type = kInt64\<rparr>]
       [[VInt64 5, VInt64 10], [VInt64 1, VInt64 20]] = Inr seg \<and>
     RunVolcano [seg] (sample_query 4) = Inr r \<and> sint (fs_sum r) = 10 \<and> unat (fs_matched_count r) = 1"
proof -
  let ?schema = "[\<lparr>cs_name = ''p'', cs_type = kInt64\<rparr>, \<lparr>cs_name = ''a'', cs_type = kInt64\<rparr>]"
    and ?rows = "[[VInt64 5, VInt64 10], [VInt64 1, VInt64 20]]"
  obtain seg where seg: "Build 1 ?schema ?rows = Inr seg" 
    using Build_ok [of ?schema ?rows 1]
    by (auto simp: known_type_def row_has_schema_def value_has_type_def)
  have "bounded (aq_threshold (sample_query 4)) (map (query_cells (sample_query 4)) (concat [?rows]))"
    by (simp add: bounded_def matching_def sample_query_def query_cells_def int64_cell_def)
  then show ?thesis
    using RunVolcano_answers_query [of ?schema "[seg]" "[?rows]" "sample_query 4"] seg(1)
    by (auto simp: sample_query_def int64_cell_def known_type_def row_has_schema_def value_has_type_def exact_int64_def)
qed

text \<open>
  C35: the batch loop terminates exactly because the batch size is positive. Whatever the segments hold, and
  even when a kernel runs into undefined behaviour, the vectorised engine returns or throws for every batch
  size from 1 on; with batch size 0 it runs forever on the first segment with a row that is not pruned.
\<close>

theorem RunVectorized_terminates:
  "(0 < batch_size \<and> batch_size < 2 ^ 64 \<and> (\<forall>seg\<in>set segs. seg_num_rows seg \<le> 2 ^ 63) \<longrightarrow>
     (\<exists>r. RunVectorized t level segs q batch_size = Some r)) \<and>
   (scannable q seg \<and> \<not> skipped q seg \<and> 0 < seg_num_rows seg \<longrightarrow> RunVectorized t level (seg # segs') q 0 = None)"
proof (intro conjI impI)
  assume a: "0 < batch_size \<and> batch_size < 2 ^ 64 \<and> (\<forall>seg\<in>set segs. seg_num_rows seg \<le> 2 ^ 63)"
  have "\<forall>seg\<in>set segs. seg_num_rows seg \<le> 2 ^ 63 \<Longrightarrow> \<exists>r. vectorized_loop t level q batch_size segs result = Some r" for result
  proof (induction segs arbitrary: result)
    case (Cons seg segs)
    have "\<exists>r. batch_loop t level P A (seg_num_rows seg) (aq_threshold q) batch_size 0 result = Some r" for P A result
      using batch_loop_returns [of "seg_num_rows seg" batch_size 0] a Cons.prems by simp
    with Cons show ?case by (auto simp: bind_ro_def split: option.split sum.split) (metis option.distinct(1))
  qed simp
  with a show "\<exists>r. RunVectorized t level segs q batch_size = Some r" by (simp add: RunVectorized_def)
next
  assume a: "scannable q seg \<and> \<not> skipped q seg \<and> 0 < seg_num_rows seg"
  then obtain P A where "query_columns q seg = Inr (P, A)" using query_columns_in by blast
  moreover have "CanSkip seg (aq_predicate_column q) kGt (VInt64 (aq_threshold q)) = Inr False" using a skips_cases by blast
  ultimately show "RunVectorized t level (seg # segs') q 0 = None" using a by (simp add: RunVectorized_def batch_loop_diverges)
qed

theorem RunVectorized_terminates_witness:
  "(\<exists>r. RunVectorized X86_64 kAvx2 [sample_segment_of [sample_column True 5, sample_column True 10]] (sample_query 4) 1 = Some r) \<and>
   RunVectorized X86_64 kAvx2 [sample_segment_of [sample_column True 5, sample_column True 10]] (sample_query 4) 0 = None"
  using sample_scannable(1,2)
    RunVectorized_terminates [of 1 "[sample_segment_of [sample_column True 5, sample_column True 10]]" X86_64 kAvx2 "sample_query 4"
      "sample_segment_of [sample_column True 5, sample_column True 10]" "[]"]
  by (simp add: sample_segment_of_def)

text \<open>
  C36: nulls are not treated as the predicate treats them. The engines read the data array without the
  validity bitmap, where \<^const>\<open>Build\<close> leaves a 0 for a null cell: with any negative threshold, and unless the
  segment is pruned, every row whose int64 predicate cell is null is counted along with the rows that match,
  although the predicate is false of null.
\<close>

theorem engine_counts_nulls:
  assumes "Build sid schema rows = Inr seg"
    and "aq_predicate_column q < length schema" and "cs_type (schema ! aq_predicate_column q) = kInt64"
    and "aq_aggregate_column q < length schema" and "cs_type (schema ! aq_aggregate_column q) = kInt64"
    and "CanSkip seg (aq_predicate_column q) kGt (VInt64 (aq_threshold q)) = Inr False"
    and "bounded (aq_threshold q) (map (query_cells q) rows)" and "sint (aq_threshold q) < 0"
  shows "EvaluatePredicate Monostate kGt (VInt64 (aq_threshold q)) = Inr False \<and> (\<exists>r. RunVolcano [seg] q = Inr r \<and>
    unat (fs_matched_count r) = length (filter (\<lambda>row. row ! aq_predicate_column q = Monostate) rows) +
      length (filter (\<lambda>row. row ! aq_predicate_column q \<noteq> Monostate \<and>
        sint (int64_cell (row ! aq_predicate_column q)) > sint (aq_threshold q)) rows))"
proof -
  let ?t = "aq_threshold q" and ?p = "aq_predicate_column q" and ?all = "map (query_cells q) rows"
  note q = Build_query_rows [OF assms(1-6)]
  have "\<not> skipped q seg" using assms(6) by (simp add: skipped_def)
  then have rows: "scanned_rows q [seg] = ?all" using q(2) by (simp add: scanned_rows_def)
  have r: "RunVolcano [seg] q = Inr (aggregate ?t ?all)" using RunVolcano_exact [of "[seg]" q, unfolded rows] q(1) assms(7) by simp
  have "length (matching ?t ?all) = length (filter (\<lambda>row. row ! ?p = Monostate) rows) +
      length (filter (\<lambda>row. row ! ?p \<noteq> Monostate \<and> sint (int64_cell (row ! ?p)) > sint ?t) rows)"
    using assms(8) by (induction rows) (auto simp: matching_def query_cells_def int64_cell_def)
  moreover have "length (matching ?t ?all) \<le> length ?all" unfolding matching_def by (rule length_filter_le)
  then have "length (matching ?t ?all) < 2 ^ 64" using assms(7) by (simp add: bounded_def)
  moreover from this have "unat (fs_matched_count (aggregate ?t ?all)) = length (matching ?t ?all)"
    by (simp add: aggregate_def unat_of_nat del: of_nat_add)
  ultimately have "unat (fs_matched_count (aggregate ?t ?all)) = length (filter (\<lambda>row. row ! ?p = Monostate) rows) +
      length (filter (\<lambda>row. row ! ?p \<noteq> Monostate \<and> sint (int64_cell (row ! ?p)) > sint ?t) rows)" by simp
  with r show ?thesis by (simp add: EvaluatePredicate_def)
qed

theorem engine_counts_nulls_witness:
  "\<exists>seg r. Build 1 [\<lparr>cs_name = ''p'', cs_type = kInt64\<rparr>, \<lparr>cs_name = ''a'', cs_type = kInt64\<rparr>]
       [[VInt64 5, VInt64 10], [Monostate, VInt64 20]] = Inr seg \<and>
     RunVolcano [seg] (sample_query (- 1)) = Inr r \<and> unat (fs_matched_count r) = 2"
proof -
  let ?schema = "[\<lparr>cs_name = ''p'', cs_type = kInt64\<rparr>, \<lparr>cs_name = ''a'', cs_type = kInt64\<rparr>]"
    and ?rows = "[[VInt64 5, VInt64 10], [Monostate, VInt64 20]]"
  obtain seg where seg: "Build 1 ?schema ?rows = Inr seg" "segment_holds seg ?rows" "length (seg_columns seg) = 2"
    using Build_ok [of ?schema ?rows 1] by (auto simp: known_type_def row_has_schema_def value_has_type_def)
  then have "column_holds (seg_columns seg ! 0) [VInt64 5, Monostate]" by (force simp: segment_holds_def)
  then have "col_max (seg_columns seg ! 0) = VInt64 5" "col_min (seg_columns seg ! 0) = VInt64 5"
    by (simp_all add: column_holds_def bounds_ok_def)
  then have "CanSkip seg 0 kGt (VInt64 (- 1)) = Inr False"
    using seg(3) num_key_int_strict [of "- 1" 5] by (simp add: CanSkip_def seg_column_def CompareValues_num)
  moreover have "bounded (- 1) (map (query_cells (sample_query (- 1))) ?rows)"
    by (simp add: bounded_def matching_def sample_query_def query_cells_def int64_cell_def)
  ultimately show ?thesis
    using engine_counts_nulls [of 1 ?schema ?rows seg "sample_query (- 1)"] seg(1) by (auto simp: sample_query_def int64_cell_def)
qed

text \<open>
  Beyond \<open>2 ^ 53\<close> pruning drops matching rows. The comparison of the literal with the maximum goes
  through double, so that a segment whose only value exceeds the threshold by one is skipped.
\<close>

theorem pruning_loses_row:
  "ValueAt (sample_column True 9007199254740993) 0 = Inr (VInt64 9007199254740993) \<and>
   RunVolcano [sample_segment_of [sample_column True 9007199254740993, sample_column True 7]] (sample_query 9007199254740992) =
     Inr \<lparr>fs_matched_count = 0, fs_sum = 0\<rparr> \<and>
   FilterGtSum_Scalar [9007199254740993] [7] 1 9007199254740992 = Inr \<lparr>fs_matched_count = 1, fs_sum = 7\<rparr>"
proof -
  let ?seg = "sample_segment_of [sample_column True 9007199254740993, sample_column True 7]" and ?q = "sample_query 9007199254740992"
  have skip: "CanSkip ?seg 0 kGt (VInt64 9007199254740992) = Inr True"
    by (simp add: CanSkip_def seg_column_def sample_segment_of_def sample_column_def CompareValues_num num_key_collapse)
  then have "scannable ?q ?seg" by (simp add: scannable_def sample_query_def) (auto simp: sample_segment_of_def sample_column_def)
  moreover have "scanned_rows ?q [?seg] = []" using skip by (simp add: skipped_def sample_query_def)
  ultimately have "RunVolcano [?seg] ?q = Inr (aggregate 9007199254740992 [])"
    using RunVolcano_exact [of "[?seg]" ?q] by (simp add: bounded_def matching_def) (simp add: sample_query_def)
  moreover have "ValueAt (sample_column True 9007199254740993) 0 = Inr (VInt64 9007199254740993)"
    "FilterGtSum_Scalar [9007199254740993] [7] 1 9007199254740992 = Inr \<lparr>fs_matched_count = 1, fs_sum = 7\<rparr>"
    by code_simp+
  ultimately show ?thesis by (simp add: aggregate_def matching_def)
qed

end
