(* ===== verification/Transactions.thy ===== *)
theory Transactions
  imports CoreDB_Prelude
begin

text \<open>
  The transaction manager, \<^verbatim>\<open>mvcc/transaction.h\<close> and \<^verbatim>\<open>mvcc/transaction.cpp\<close>: identifiers and commit
  timestamps from one counter, the multiset of snapshots in use, and the status table. Each operation
  runs under the manager's mutex, so an execution is a sequence of operations. In every reachable
  state the watermark \<^verbatim>\<open>OldestActiveSnapshot\<close> bounds every active snapshot, never decreases, and a
  commit timestamp is larger than every snapshot taken before it.
\<close>

section \<open>The code\<close>

datatype TxnState = kActive | kCommitted | kAborted

record Transaction =
  txn_id :: u64
  snapshot_ts :: u64
  commit_ts :: u64
  txn_state :: TxnState

record TxnStatus =
  st_state :: TxnState
  st_commit_ts :: u64

record TransactionManager =
  tm_next_id :: u64
  tm_last_commit_ts :: u64
  tm_active_snapshots :: "u64 multiset"
  tm_active_txn_ids :: "u64 set"
  tm_status :: "u64 \<Rightarrow> TxnStatus option"

definition new_TransactionManager :: TransactionManager where
  "new_TransactionManager =
     \<lparr>tm_next_id = 1, tm_last_commit_ts = 0, tm_active_snapshots = {#}, tm_active_txn_ids = {}, tm_status = Map.empty\<rparr>"

definition TxnBegin :: "TransactionManager \<Rightarrow> Transaction \<times> TransactionManager" where
  "TxnBegin tm =
     (let txn = \<lparr>txn_id = tm_next_id tm, snapshot_ts = tm_last_commit_ts tm, commit_ts = 0, txn_state = kActive\<rparr> in
      (txn, tm\<lparr>tm_next_id := tm_next_id tm + 1,
               tm_active_snapshots := add_mset (snapshot_ts txn) (tm_active_snapshots tm),
               tm_active_txn_ids := insert (txn_id txn) (tm_active_txn_ids tm)\<rparr>))"

text \<open>\<^verbatim>\<open>active_snapshots_.erase(active_snapshots_.find(ts))\<close>: one occurrence; undefined when there is none.\<close>

definition erase_snapshot :: "u64 \<Rightarrow> TransactionManager \<Rightarrow> TransactionManager res" where
  "erase_snapshot ts tm =
     (if ts \<in># tm_active_snapshots tm
      then Inr (tm\<lparr>tm_active_snapshots := tm_active_snapshots tm - {#ts#}\<rparr>)
      else Inl UndefinedBehaviour)"

definition TxnCommit :: "TransactionManager \<Rightarrow> Transaction \<Rightarrow> (Transaction \<times> TransactionManager) res" where
  "TxnCommit tm txn =
     (let txn = txn\<lparr>commit_ts := tm_next_id tm, txn_state := kCommitted\<rparr>;
          tm = tm\<lparr>tm_next_id := tm_next_id tm + 1,
                  tm_status := (tm_status tm)(txn_id txn \<mapsto> \<lparr>st_state = kCommitted, st_commit_ts = commit_ts txn\<rparr>),
                  tm_last_commit_ts := commit_ts txn,
                  tm_active_txn_ids := tm_active_txn_ids tm - {txn_id txn}\<rparr>
      in bind_res (erase_snapshot (snapshot_ts txn) tm) (\<lambda>tm. Inr (txn, tm)))"

definition TxnAbort :: "TransactionManager \<Rightarrow> Transaction \<Rightarrow> (Transaction \<times> TransactionManager) res" where
  "TxnAbort tm txn =
     (let txn = txn\<lparr>txn_state := kAborted\<rparr>;
          tm = tm\<lparr>tm_status := (tm_status tm)(txn_id txn \<mapsto> \<lparr>st_state = kAborted, st_commit_ts = 0\<rparr>),
                  tm_active_txn_ids := tm_active_txn_ids tm - {txn_id txn}\<rparr>
      in bind_res (erase_snapshot (snapshot_ts txn) tm) (\<lambda>tm. Inr (txn, tm)))"

definition GetStatus :: "TransactionManager \<Rightarrow> u64 \<Rightarrow> TxnStatus" where
  "GetStatus tm i =
     (case tm_status tm i of None \<Rightarrow> \<lparr>st_state = kActive, st_commit_ts = 0\<rparr> | Some st \<Rightarrow> st)"

definition OldestActiveSnapshot :: "TransactionManager \<Rightarrow> u64" where
  "OldestActiveSnapshot tm =
     (if tm_active_snapshots tm = {#} then tm_last_commit_ts tm else Min_mset (tm_active_snapshots tm))"

definition ActiveTransactionCount :: "TransactionManager \<Rightarrow> nat" where
  "ActiveTransactionCount tm = card (tm_active_txn_ids tm)"

section \<open>Executions\<close>

text \<open>
  What clients do: begin, and commit or abort a transaction they hold and have not ended yet. The
  handles in use are the second component of the state. Identifiers are 64 bits wide; the steps stop
  short of the wrap-around.
\<close>

inductive txn_step :: "TransactionManager \<times> Transaction list \<Rightarrow> TransactionManager \<times> Transaction list \<Rightarrow> bool" where
  step_begin: "tm_next_id tm \<noteq> - 1 \<Longrightarrow> TxnBegin tm = (txn, tm') \<Longrightarrow> txn_step (tm, act) (tm', txn # act)"
| step_commit: "tm_next_id tm \<noteq> - 1 \<Longrightarrow> txn \<in> set act \<Longrightarrow> TxnCommit tm txn = Inr (txn', tm') \<Longrightarrow>
    txn_step (tm, act) (tm', remove1 txn act)"
| step_abort: "txn \<in> set act \<Longrightarrow> TxnAbort tm txn = Inr (txn', tm') \<Longrightarrow>
    txn_step (tm, act) (tm', remove1 txn act)"

inductive_cases txn_stepE: "txn_step (tm, act) s'"

definition txn_reachable :: "TransactionManager \<times> Transaction list \<Rightarrow> bool" where
  "txn_reachable s \<longleftrightarrow> txn_step\<^sup>*\<^sup>* (new_TransactionManager, []) s"

text \<open>The invariant of the manager and the handles in use.\<close>

definition tm_inv :: "TransactionManager \<times> Transaction list \<Rightarrow> bool" where
  "tm_inv s \<longleftrightarrow>
     (let (tm, act) = s in
      0 < tm_next_id tm \<and> tm_last_commit_ts tm < tm_next_id tm \<and>
      distinct (map txn_id act) \<and> tm_active_txn_ids tm = txn_id ` set act \<and>
      tm_active_snapshots tm = image_mset snapshot_ts (mset act) \<and>
      (\<forall>t\<in>set act. 0 < txn_id t \<and> txn_id t < tm_next_id tm \<and> snapshot_ts t \<le> tm_last_commit_ts tm \<and>
         snapshot_ts t < txn_id t \<and> tm_status tm (txn_id t) = None) \<and>
      (\<forall>i st. tm_status tm i = Some st \<longrightarrow> 0 < i \<and> i < tm_next_id tm \<and>
         (st_state st = kCommitted \<longrightarrow> i < st_commit_ts st \<and> st_commit_ts st \<le> tm_last_commit_ts tm)))"

lemma word_less_succ: "(x::u64) < y + 1 \<longleftrightarrow> x \<le> y" if "y \<noteq> - 1"
proof -
  from that have "unat (y + 1) = unat y + 1"
    by (metis Suc_eq_plus1 add.commute add_eq_0_iff unatSuc)
  then show ?thesis by (simp add: word_less_nat_alt word_le_nat_alt less_Suc_eq_le)
qed

lemma erase_active:
  assumes "txn \<in> set act" "tm_active_snapshots tm = image_mset snapshot_ts (mset act)"
  shows "erase_snapshot (snapshot_ts txn) tm =
    Inr (tm\<lparr>tm_active_snapshots := image_mset snapshot_ts (mset (remove1 txn act))\<rparr>)"
  using assms by (simp add: erase_snapshot_def image_mset_Diff)

lemma remove_handle:
  assumes "distinct (map txn_id act)" "txn \<in> set act"
  shows "set (remove1 txn act) = set act - {txn}" "distinct (map txn_id (remove1 txn act))"
    "txn_id ` set (remove1 txn act) = txn_id ` set act - {txn_id txn}"
proof -
  have d: "distinct act" "inj_on txn_id (set act)" using assms(1) by (simp_all add: distinct_map)
  then show r: "set (remove1 txn act) = set act - {txn}" by (simp add: set_remove1_eq)
  show "distinct (map txn_id (remove1 txn act))"
    using d by (auto simp: distinct_map distinct_remove1 set_remove1_eq intro: inj_on_subset)
  show "txn_id ` set (remove1 txn act) = txn_id ` set act - {txn_id txn}"
    unfolding r using d(2) assms(2) by (auto simp: inj_on_def)
qed

lemma tm_inv_step:
  assumes "txn_step s s'" "tm_inv s"
  shows "tm_inv s'"
  using assms
proof (induction rule: txn_step.induct)
  case (step_begin tm txn tm' act)
  note lt = word_less_succ [OF step_begin(1)]
  have "tm_status tm (tm_next_id tm) = None"
    using step_begin(3) by (cases "tm_status tm (tm_next_id tm)") (auto simp: tm_inv_def)
  with step_begin(2,3) show ?case
    by (auto simp: tm_inv_def TxnBegin_def Let_def lt less_imp_le intro: le_less_trans)
next
  case (step_commit tm txn act txn' tm')
  note lt = word_less_succ [OF step_commit(1)]
  from step_commit(4) have I: "distinct (map txn_id act)" "tm_active_snapshots tm = image_mset snapshot_ts (mset act)"
    by (simp_all add: tm_inv_def)
  note r = remove_handle [OF I(1) step_commit(2)]
  have tm': "tm' = tm\<lparr>tm_next_id := tm_next_id tm + 1,
      tm_status := (tm_status tm)(txn_id txn \<mapsto> \<lparr>st_state = kCommitted, st_commit_ts = tm_next_id tm\<rparr>),
      tm_last_commit_ts := tm_next_id tm, tm_active_txn_ids := tm_active_txn_ids tm - {txn_id txn},
      tm_active_snapshots := image_mset snapshot_ts (mset (remove1 txn act))\<rparr>"
    using step_commit(3) I(2) step_commit(2) by (auto simp: TxnCommit_def Let_def erase_active)
  have "\<And>t. t \<in> set act \<Longrightarrow> t \<noteq> txn \<Longrightarrow> txn_id t \<noteq> txn_id txn"
    using I(1) step_commit(2) by (auto simp: distinct_map inj_on_def)
  note other = this and J = step_commit(4) [unfolded tm_inv_def Let_def prod.case]
  have le: "x \<le> tm_last_commit_ts tm \<Longrightarrow> x \<le> tm_next_id tm" for x using J by auto
  have act: "0 < txn_id t \<and> txn_id t < tm_next_id tm' \<and> snapshot_ts t \<le> tm_last_commit_ts tm' \<and>
      snapshot_ts t < txn_id t \<and> tm_status tm' (txn_id t) = None" if "t \<in> set (remove1 txn act)" for t
    using that J r(1) other [of t] by (simp add: tm' lt le less_imp_le)
  have "0 < i \<and> i < tm_next_id tm' \<and>
      (st_state st = kCommitted \<longrightarrow> i < st_commit_ts st \<and> st_commit_ts st \<le> tm_last_commit_ts tm')"
    if "tm_status tm' i = Some st" for i st
    using that J step_commit(2) by (cases "i = txn_id txn") (auto simp: tm' lt less_imp_le intro: le)
  moreover have "0 < tm_next_id tm'" "tm_last_commit_ts tm' < tm_next_id tm'" by (simp_all add: tm' lt)
  ultimately show ?case using J r act by (simp add: tm_inv_def tm')
next
  case (step_abort txn act tm txn' tm')
  from step_abort(3) have I: "distinct (map txn_id act)" "tm_active_snapshots tm = image_mset snapshot_ts (mset act)"
    by (simp_all add: tm_inv_def)
  note r = remove_handle [OF I(1) step_abort(1)]
  have tm': "tm' = tm\<lparr>tm_status := (tm_status tm)(txn_id txn \<mapsto> \<lparr>st_state = kAborted, st_commit_ts = 0\<rparr>),
      tm_active_txn_ids := tm_active_txn_ids tm - {txn_id txn},
      tm_active_snapshots := image_mset snapshot_ts (mset (remove1 txn act))\<rparr>"
    using step_abort(2) I(2) step_abort(1) by (auto simp: TxnAbort_def Let_def erase_active)
  have "\<And>t. t \<in> set act \<Longrightarrow> t \<noteq> txn \<Longrightarrow> txn_id t \<noteq> txn_id txn"
    using I(1) step_abort(1) by (auto simp: distinct_map inj_on_def)
  with step_abort(1,3) r show ?case by (auto simp: tm_inv_def tm')
qed

lemma tm_inv_reachable: "txn_reachable s \<Longrightarrow> tm_inv s"
  unfolding txn_reachable_def
proof (induction rule: rtranclp_induct)
  case base
  then show ?case by (simp add: tm_inv_def new_TransactionManager_def)
qed (rule tm_inv_step)

section \<open>The watermark\<close>

lemma Oldest_le_active: "tm_inv (tm, act) \<Longrightarrow> t \<in> set act \<Longrightarrow> OldestActiveSnapshot tm \<le> snapshot_ts t"
  by (auto simp: tm_inv_def OldestActiveSnapshot_def)

lemma Oldest_le_last: "tm_inv (tm, act) \<Longrightarrow> OldestActiveSnapshot tm \<le> tm_last_commit_ts tm"
proof (cases act)
  case (Cons t ts)
  assume "tm_inv (tm, act)"
  moreover from this Cons have "OldestActiveSnapshot tm \<le> snapshot_ts t" by (intro Oldest_le_active) auto
  ultimately show ?thesis using Cons by (auto simp: tm_inv_def intro: order_trans)
qed (simp add: tm_inv_def OldestActiveSnapshot_def)

text \<open>The watermark of the handles in use: the smallest snapshot, or the last commit.\<close>

lemma Oldest_greatest:
  assumes "tm_inv (tm, act)" "w \<le> tm_last_commit_ts tm" "\<forall>t\<in>set act. w \<le> snapshot_ts t"
  shows "w \<le> OldestActiveSnapshot tm"
  using assms by (auto simp: tm_inv_def OldestActiveSnapshot_def)

lemma step_keeps:
  assumes "txn_step (tm, act) (tm', act')" "tm_inv (tm, act)"
  shows "tm_last_commit_ts tm \<le> tm_last_commit_ts tm' \<and>
    (\<forall>t\<in>set act'. t \<in> set act \<or> snapshot_ts t = tm_last_commit_ts tm)"
proof (rule txn_stepE [OF assms(1)])
  fix txn tm1 assume "(tm', act') = (tm1, txn # act)" "TxnBegin tm = (txn, tm1)"
  then show ?thesis by (auto simp: TxnBegin_def Let_def)
next
  fix txn txn' tm1 assume "(tm', act') = (tm1, remove1 txn act)" "TxnCommit tm txn = Inr (txn', tm1)"
  then show ?thesis using assms(2)
    by (auto simp: TxnCommit_def Let_def erase_snapshot_def tm_inv_def less_imp_le split: if_splits dest: subsetD [OF set_remove1_subset])
next
  fix txn txn' tm1 assume "(tm', act') = (tm1, remove1 txn act)" "TxnAbort tm txn = Inr (txn', tm1)"
  then show ?thesis by (auto simp: TxnAbort_def Let_def erase_snapshot_def split: if_splits dest: subsetD [OF set_remove1_subset])
qed

lemma Oldest_mono_step:
  assumes "txn_step (tm, act) (tm', act')" "tm_inv (tm, act)"
  shows "OldestActiveSnapshot tm \<le> OldestActiveSnapshot tm'"
proof (rule Oldest_greatest [OF tm_inv_step [OF assms]])
  note k = step_keeps [OF assms] and w = Oldest_le_last [OF assms(2)]
  from k w show "OldestActiveSnapshot tm \<le> tm_last_commit_ts tm'" by (auto intro: order_trans)
  from k w Oldest_le_active [OF assms(2)] show "\<forall>t\<in>set act'. OldestActiveSnapshot tm \<le> snapshot_ts t" by force
qed

lemma steps_mono:
  assumes "txn_step\<^sup>*\<^sup>* s s'" "tm_inv s"
  shows "tm_inv s' \<and> OldestActiveSnapshot (fst s) \<le> OldestActiveSnapshot (fst s')"
  using assms
proof (induction rule: rtranclp_induct)
  case (step s1 s2)
  then show ?case using Oldest_mono_step [of "fst s1" "snd s1" "fst s2" "snd s2"] tm_inv_step [of s1 s2]
    by (auto intro: order_trans)
qed simp

lemma TxnCommit_active:
  assumes "tm_inv (tm, act)" "t \<in> set act"
  shows "\<exists>tm'. TxnCommit tm t = Inr (t\<lparr>commit_ts := tm_next_id tm, txn_state := kCommitted\<rparr>, tm') \<and>
    tm_last_commit_ts tm' = tm_next_id tm \<and>
    tm_status tm' = (tm_status tm)(txn_id t \<mapsto> \<lparr>st_state = kCommitted, st_commit_ts = tm_next_id tm\<rparr>)"
  using assms by (auto simp: TxnCommit_def Let_def tm_inv_def erase_snapshot_def)

lemma TxnAbort_active:
  assumes "tm_inv (tm, act)" "t \<in> set act"
  shows "\<exists>tm'. TxnAbort tm t = Inr (t\<lparr>txn_state := kAborted\<rparr>, tm') \<and>
    tm_last_commit_ts tm' = tm_last_commit_ts tm \<and>
    tm_status tm' = (tm_status tm)(txn_id t \<mapsto> \<lparr>st_state = kAborted, st_commit_ts = 0\<rparr>)"
  using assms by (auto simp: TxnAbort_def Let_def tm_inv_def erase_snapshot_def)

section \<open>Properties\<close>

text \<open>
  C30: in every reachable state the watermark is at most the last commit timestamp and at most the snapshot of
  every transaction in use, and no sequence of further begins, commits and aborts lowers it. This is what makes discarding versions
  older than the watermark safe for all present and future readers.
\<close>

theorem watermark_safe:
  assumes "txn_reachable (tm, act)" and "txn_step\<^sup>*\<^sup>* (tm, act) (tm', act')"
  shows "OldestActiveSnapshot tm \<le> tm_last_commit_ts tm \<and> (\<forall>t\<in>set act. OldestActiveSnapshot tm \<le> snapshot_ts t) \<and>
    OldestActiveSnapshot tm \<le> OldestActiveSnapshot tm' \<and> (\<forall>t\<in>set act'. OldestActiveSnapshot tm \<le> snapshot_ts t)"
proof -
  note inv = tm_inv_reachable [OF assms(1)]
  from steps_mono [OF assms(2) inv] have m: "tm_inv (tm', act')" "OldestActiveSnapshot tm \<le> OldestActiveSnapshot tm'" by simp_all
  with Oldest_le_last [OF inv] Oldest_le_active [OF inv] Oldest_le_active [OF m(1)] show ?thesis by (blast intro: order_trans)
qed

lemma begin_reachable: "txn_reachable (snd (TxnBegin new_TransactionManager), [fst (TxnBegin new_TransactionManager)])"
  unfolding txn_reachable_def
  by (rule r_into_rtranclp, rule step_begin) (simp_all add: new_TransactionManager_def)

theorem watermark_safe_witness:
  "OldestActiveSnapshot (snd (TxnBegin new_TransactionManager)) \<le> snapshot_ts (fst (TxnBegin new_TransactionManager))"
  using watermark_safe [OF begin_reachable rtranclp.rtrancl_refl] by simp

text \<open>
  C31: committing or aborting a transaction in use never touches a missing snapshot entry; the commit
  timestamp exceeds every snapshot in use and every earlier commit timestamp, the status table records
  the outcome, and a transaction begun right after a commit has its timestamp as snapshot.
\<close>

theorem commit_order:
  assumes "txn_reachable (tm, act)" and "t \<in> set act"
  shows "(\<exists>t' tm'. TxnCommit tm t = Inr (t', tm') \<and> commit_ts t' = tm_next_id tm \<and>
       (\<forall>u\<in>set act. snapshot_ts u < commit_ts t') \<and>
       (\<forall>i. st_state (GetStatus tm i) = kCommitted \<longrightarrow> st_commit_ts (GetStatus tm i) < commit_ts t') \<and>
       GetStatus tm' (txn_id t) = \<lparr>st_state = kCommitted, st_commit_ts = commit_ts t'\<rparr> \<and>
       snapshot_ts (fst (TxnBegin tm')) = commit_ts t') \<and>
    (\<exists>t' tm'. TxnAbort tm t = Inr (t', tm') \<and> st_state (GetStatus tm' (txn_id t)) = kAborted \<and>
       snapshot_ts (fst (TxnBegin tm')) = tm_last_commit_ts tm)"
proof (intro conjI)
  note inv = tm_inv_reachable [OF assms(1)]
  have "snapshot_ts u < tm_next_id tm" if "u \<in> set act" for u
    using inv that by (auto simp: tm_inv_def intro: le_less_trans)
  moreover have "st_commit_ts (GetStatus tm i) < tm_next_id tm" if "st_state (GetStatus tm i) = kCommitted" for i
    using inv that le_less_trans [of "st_commit_ts (GetStatus tm i)" "tm_last_commit_ts tm" "tm_next_id tm"]
    by (cases "tm_status tm i") (auto simp: tm_inv_def GetStatus_def)
  ultimately show "\<exists>t' tm'. TxnCommit tm t = Inr (t', tm') \<and> commit_ts t' = tm_next_id tm \<and>
       (\<forall>u\<in>set act. snapshot_ts u < commit_ts t') \<and>
       (\<forall>i. st_state (GetStatus tm i) = kCommitted \<longrightarrow> st_commit_ts (GetStatus tm i) < commit_ts t') \<and>
       GetStatus tm' (txn_id t) = \<lparr>st_state = kCommitted, st_commit_ts = commit_ts t'\<rparr> \<and>
       snapshot_ts (fst (TxnBegin tm')) = commit_ts t'"
    using TxnCommit_active [OF inv assms(2)] by (fastforce simp: GetStatus_def TxnBegin_def Let_def)
  show "\<exists>t' tm'. TxnAbort tm t = Inr (t', tm') \<and> st_state (GetStatus tm' (txn_id t)) = kAborted \<and>
       snapshot_ts (fst (TxnBegin tm')) = tm_last_commit_ts tm"
    using TxnAbort_active [OF inv assms(2)] by (auto simp: GetStatus_def TxnBegin_def Let_def)
qed

theorem commit_order_witness:
  "\<exists>t' tm'. TxnCommit (snd (TxnBegin new_TransactionManager)) (fst (TxnBegin new_TransactionManager)) = Inr (t', tm') \<and>
    commit_ts t' = 2"
proof -
  have "tm_next_id (snd (TxnBegin new_TransactionManager)) = 2"
    by (simp add: TxnBegin_def new_TransactionManager_def Let_def)
  with commit_order [OF begin_reachable, of "fst (TxnBegin new_TransactionManager)"] show ?thesis by auto
qed

end
