(* ===== verification/Delta.thy ===== *)
theory Delta
  imports Transactions Types
begin

text \<open>
  The delta layer, \<^verbatim>\<open>mvcc/delta.h\<close> and \<^verbatim>\<open>mvcc/delta.cpp\<close>: row versions in append order, their
  visibility to a reader under snapshot isolation, and the claim that an update or delete places on
  the newest live version of a row.
\<close>

section \<open>The code\<close>

record DeltaRecord =
  dr_row_id :: u64
  dr_created_txn :: u64
  dr_deleted_txn :: u64
  dr_row :: Row
  dr_is_base_tombstone :: bool

datatype WriteResult = kOk | kNotFound | kConflict

text \<open>The test \<^verbatim>\<open>st.state == kCommitted && st.commit_ts <= ts\<close> that the sources repeat.\<close>

definition committed_by :: "TransactionManager \<Rightarrow> u64 \<Rightarrow> u64 \<Rightarrow> bool" where
  "committed_by tm i ts \<longleftrightarrow>
     (let st = GetStatus tm i in st_state st = kCommitted \<and> st_commit_ts st \<le> ts)"

definition IsVisible :: "DeltaRecord \<Rightarrow> Transaction \<Rightarrow> TransactionManager \<Rightarrow> bool" where
  "IsVisible r reader tm \<longleftrightarrow>
     (let created_visible =
        (if dr_created_txn r = 0 then True
         else if dr_created_txn r = txn_id reader then True
         else committed_by tm (dr_created_txn r) (snapshot_ts reader))
      in
        if \<not> created_visible then False
        else if dr_deleted_txn r = 0 then True
        else
          let deleted_visible =
            (if dr_deleted_txn r = txn_id reader then True
             else committed_by tm (dr_deleted_txn r) (snapshot_ts reader))
          in \<not> deleted_visible)"

definition DeltaInsert :: "DeltaRecord list \<Rightarrow> u64 \<Rightarrow> u64 \<Rightarrow> Row \<Rightarrow> DeltaRecord list" where
  "DeltaInsert recs row_id created_txn row =
     recs @ [\<lparr>dr_row_id = row_id, dr_created_txn = created_txn, dr_deleted_txn = 0, dr_row = row,
              dr_is_base_tombstone = False\<rparr>]"

text \<open>
  The loop of \<^verbatim>\<open>ClaimOrInsertBaseTombstone\<close> runs over the records from the newest to the oldest; the
  list here is in that order. It stops with a conflict, stops with one record claimed, or reaches the
  end knowing whether it met the row at all.
\<close>

datatype claim_verdict = Conflicting | Skip | Claim

definition judge :: "DeltaRecord \<Rightarrow> Transaction \<Rightarrow> TransactionManager \<Rightarrow> claim_verdict" where
  "judge r writer tm =
     (if dr_deleted_txn r \<noteq> 0 \<and> dr_deleted_txn r \<noteq> txn_id writer then
        (case st_state (GetStatus tm (dr_deleted_txn r)) of
           kActive \<Rightarrow> Conflicting
         | kCommitted \<Rightarrow> Skip
         | kAborted \<Rightarrow> if \<not> IsVisible r writer tm then Skip else Claim)
      else if dr_deleted_txn r = txn_id writer then Skip
      else if \<not> IsVisible r writer tm then Skip
      else Claim)"

datatype claim_scan = ScanConflict | ScanClaimed "DeltaRecord list" | ScanEnd bool

fun claim_loop :: "u64 \<Rightarrow> Transaction \<Rightarrow> TransactionManager \<Rightarrow> DeltaRecord list \<Rightarrow> bool \<Rightarrow> claim_scan" where
  "claim_loop row_id writer tm [] touched = ScanEnd touched"
| "claim_loop row_id writer tm (r # older) touched =
     (let continue = (\<lambda>touched. case claim_loop row_id writer tm older touched of
          ScanConflict \<Rightarrow> ScanConflict
        | ScanClaimed older' \<Rightarrow> ScanClaimed (r # older')
        | ScanEnd t \<Rightarrow> ScanEnd t)
      in
        if dr_row_id r \<noteq> row_id then continue touched
        else case judge r writer tm of
            Conflicting \<Rightarrow> ScanConflict
          | Skip \<Rightarrow> continue True
          | Claim \<Rightarrow> ScanClaimed (r\<lparr>dr_deleted_txn := txn_id writer\<rparr> # older))"

definition base_tombstone :: "u64 \<Rightarrow> Transaction \<Rightarrow> DeltaRecord" where
  "base_tombstone row_id writer =
     \<lparr>dr_row_id = row_id, dr_created_txn = 0, dr_deleted_txn = txn_id writer, dr_row = [], dr_is_base_tombstone = True\<rparr>"

definition ClaimOrInsertBaseTombstone ::
  "DeltaRecord list \<Rightarrow> u64 \<Rightarrow> Transaction \<Rightarrow> TransactionManager \<Rightarrow> bool \<Rightarrow> WriteResult \<times> DeltaRecord list" where
  "ClaimOrInsertBaseTombstone recs row_id writer tm exists_in_base =
     (case claim_loop row_id writer tm (rev recs) False of
        ScanConflict \<Rightarrow> (kConflict, recs)
      | ScanClaimed recs' \<Rightarrow> (kOk, rev recs')
      | ScanEnd touched \<Rightarrow>
          if \<not> touched \<and> exists_in_base then (kOk, recs @ [base_tombstone row_id writer])
          else (kNotFound, recs))"

definition DeltaSize :: "DeltaRecord list \<Rightarrow> nat" where
  "DeltaSize recs = length recs"

definition DeltaSnapshot :: "DeltaRecord list \<Rightarrow> DeltaRecord list" where
  "DeltaSnapshot recs = recs"

definition ReplaceAll :: "DeltaRecord list \<Rightarrow> DeltaRecord list \<Rightarrow> DeltaRecord list" where
  "ReplaceAll recs new_recs = new_recs"

section \<open>Visibility\<close>

text \<open>Whether a reader sees the effects of a transaction: its own, the base sentinel, or committed in time.\<close>

definition sees :: "TransactionManager \<Rightarrow> Transaction \<Rightarrow> u64 \<Rightarrow> bool" where
  "sees tm reader i \<longleftrightarrow> i = txn_id reader \<or> committed_by tm i (snapshot_ts reader)"

lemma IsVisible_alt:
  "IsVisible r reader tm \<longleftrightarrow>
     (dr_created_txn r = 0 \<or> sees tm reader (dr_created_txn r)) \<and>
     (dr_deleted_txn r = 0 \<or> \<not> sees tm reader (dr_deleted_txn r))"
  by (auto simp: IsVisible_def sees_def Let_def)

text \<open>Later begins, commits and aborts do not change what an active snapshot sees.\<close>

lemma committed_by_step:
  assumes "txn_step (tm, act) (tm', act')" "tm_inv (tm, act)" "s \<le> tm_last_commit_ts tm"
  shows "committed_by tm' i s = committed_by tm i s"
proof -
  have le: "\<not> tm_next_id tm \<le> s" using assms(2,3) by (auto simp: tm_inv_def)
  show ?thesis
  proof (rule txn_stepE [OF assms(1)])
    fix txn tm1 assume "(tm', act') = (tm1, txn # act)" "TxnBegin tm = (txn, tm1)"
    then show ?thesis by (auto simp: TxnBegin_def Let_def committed_by_def GetStatus_def)
  next
    fix txn txn' tm1
    assume e: "(tm', act') = (tm1, remove1 txn act)" "txn \<in> set act" "TxnCommit tm txn = Inr (txn', tm1)"
    from assms(2) e(2) have "tm_status tm (txn_id txn) = None" by (simp add: tm_inv_def)
    with e le TxnCommit_active [OF assms(2) e(2)] show ?thesis by (auto simp: committed_by_def GetStatus_def Let_def)
  next
    fix txn txn' tm1
    assume e: "(tm', act') = (tm1, remove1 txn act)" "txn \<in> set act" "TxnAbort tm txn = Inr (txn', tm1)"
    from assms(2) e(2) have "tm_status tm (txn_id txn) = None" by (simp add: tm_inv_def)
    with e TxnAbort_active [OF assms(2) e(2)] show ?thesis by (auto simp: committed_by_def GetStatus_def Let_def)
  qed
qed

lemma committed_by_steps:
  assumes "txn_step\<^sup>*\<^sup>* (tm, act) s'" "tm_inv (tm, act)" "s \<le> tm_last_commit_ts tm"
  shows "committed_by (fst s') i s = committed_by tm i s \<and> tm_inv s' \<and> s \<le> tm_last_commit_ts (fst s')"
  using assms(1)
proof (induction rule: rtranclp_induct)
  case (step s1 s2)
  from step.IH have I: "tm_inv (fst s1, snd s1)" "s \<le> tm_last_commit_ts (fst s1)" by auto
  have st: "txn_step (fst s1, snd s1) (fst s2, snd s2)" using step(2) by simp
  from committed_by_step [OF st I] step_keeps [OF st I(1)] tm_inv_step [OF st I(1)] step.IH I(2)
  show ?case by (auto intro: order_trans)
qed (use assms in auto)

lemma IsVisible_stable:
  assumes "txn_step\<^sup>*\<^sup>* (tm, act) s'" "tm_inv (tm, act)" "reader \<in> set act"
  shows "IsVisible r reader (fst s') = IsVisible r reader tm"
proof -
  have "snapshot_ts reader \<le> tm_last_commit_ts tm" using assms(2,3) by (simp add: tm_inv_def)
  from committed_by_steps [OF assms(1,2) this] show ?thesis by (simp add: IsVisible_alt sees_def)
qed

section \<open>Claims\<close>

text \<open>What the scan does, from the newest record of the row to the oldest.\<close>

definition passed_over :: "u64 \<Rightarrow> Transaction \<Rightarrow> TransactionManager \<Rightarrow> DeltaRecord \<Rightarrow> bool" where
  "passed_over x w tm r \<longleftrightarrow> dr_row_id r \<noteq> x \<or> judge r w tm = Skip"

lemma claim_loop_cases:
  "claim_loop x w tm recs touched =
     (case dropWhile (passed_over x w tm) recs of
        [] \<Rightarrow> ScanEnd (touched \<or> (\<exists>r\<in>set recs. dr_row_id r = x))
      | r # older \<Rightarrow>
          if judge r w tm = Conflicting then ScanConflict
          else ScanClaimed (takeWhile (passed_over x w tm) recs @
            r\<lparr>dr_deleted_txn := txn_id w\<rparr> # older))"
proof (induction recs arbitrary: touched)
  case (Cons r recs)
  then show ?case
    by (cases "judge r w tm"; cases "dr_row_id r = x")
      (auto simp: Let_def passed_over_def [of _ _ _ r] simp del: dropWhile_eq_Nil_conv split: list.split)
qed simp

lemma judge_Claim:
  "judge r w tm = Claim \<Longrightarrow> IsVisible r w tm \<and> dr_deleted_txn r \<noteq> txn_id w \<and>
    (dr_deleted_txn r = 0 \<or> st_state (GetStatus tm (dr_deleted_txn r)) = kAborted)"
  by (auto simp: judge_def split: if_splits TxnState.splits)

lemma judge_Conflicting:
  "judge r w tm = Conflicting \<longleftrightarrow> dr_deleted_txn r \<noteq> 0 \<and> dr_deleted_txn r \<noteq> txn_id w \<and>
    st_state (GetStatus tm (dr_deleted_txn r)) = kActive"
  by (auto simp: judge_def split: if_splits TxnState.splits)

lemma judge_not_Skip: "judge r w tm \<noteq> Skip \<longleftrightarrow> judge r w tm = Conflicting \<or> judge r w tm = Claim"
  by (cases "judge r w tm") auto

text \<open>
  A successful claim: either one record of the row, visible to the writer and not held by a live
  transaction, with every newer record of the row passed over, or a tombstone for a base row the
  delta layer has not met.
\<close>

lemma claim_ok_cases:
  assumes "ClaimOrInsertBaseTombstone recs x w tm b = (kOk, recs')"
  obtains (claimed) older r newer where
      "recs = older @ r # newer" "recs' = older @ r\<lparr>dr_deleted_txn := txn_id w\<rparr> # newer"
      "dr_row_id r = x" "judge r w tm = Claim" "\<forall>n\<in>set newer. dr_row_id n = x \<longrightarrow> judge n w tm = Skip"
  | (tombstone) "recs' = recs @ [base_tombstone x w]" "b" "\<forall>r\<in>set recs. dr_row_id r \<noteq> x"
proof (cases "claim_loop x w tm (rev recs) False")
  case ScanConflict
  with assms show ?thesis by (simp add: ClaimOrInsertBaseTombstone_def)
next
  case (ScanClaimed recs0)
  let ?skip = "passed_over x w tm"
  from ScanClaimed obtain r older where d: "dropWhile ?skip (rev recs) = r # older"
    and r0: "recs0 = takeWhile ?skip (rev recs) @ r\<lparr>dr_deleted_txn := txn_id w\<rparr> # older" "judge r w tm \<noteq> Conflicting"
    by (auto simp: claim_loop_cases split: list.splits if_splits)
  have nr: "\<not> ?skip r" using d by (simp add: dropWhile_eq_Cons_conv)
  have "rev recs = takeWhile ?skip (rev recs) @ r # older" using d by (metis takeWhile_dropWhile_id)
  then have "recs = rev older @ r # rev (takeWhile ?skip (rev recs))"
    by (metis append.assoc append_Cons append_Nil rev.simps(2) rev_append rev_rev_ident)
  moreover have "recs' = rev older @ r\<lparr>dr_deleted_txn := txn_id w\<rparr> # rev (takeWhile ?skip (rev recs))"
    using assms ScanClaimed r0 by (simp add: ClaimOrInsertBaseTombstone_def)
  moreover have "\<forall>n\<in>set (rev (takeWhile ?skip (rev recs))). dr_row_id n = x \<longrightarrow> judge n w tm = Skip"
    by (auto dest: set_takeWhileD simp: passed_over_def)
  ultimately show ?thesis using claimed nr r0(2) judge_not_Skip unfolding passed_over_def by blast
next
  case (ScanEnd t)
  then have t: "t \<longleftrightarrow> (\<exists>r\<in>set recs. dr_row_id r = x)"
    by (auto simp: claim_loop_cases split: list.splits if_splits)
  with ScanEnd assms tombstone show ?thesis by (auto simp: ClaimOrInsertBaseTombstone_def split: if_splits)
qed

lemma claim_refused: "ClaimOrInsertBaseTombstone recs x w tm b = (res, recs') \<Longrightarrow> res \<noteq> kOk \<Longrightarrow> recs' = recs"
  by (auto simp: ClaimOrInsertBaseTombstone_def split: claim_scan.splits if_splits)

section \<open>The effect of a record on a reader\<close>

text \<open>
  A record either does nothing for a reader, hides the base row (a tombstone whose deletion the reader
  sees), or supplies the row.
\<close>

definition effect :: "TransactionManager \<Rightarrow> Transaction \<Rightarrow> DeltaRecord \<Rightarrow> (u64 \<times> Row option) option" where
  "effect tm reader r =
     (if dr_is_base_tombstone r then
        (if sees tm reader (dr_deleted_txn r) then Some (dr_row_id r, None) else None)
      else if IsVisible r reader tm then Some (dr_row_id r, Some (dr_row r)) else None)"

definition effects :: "TransactionManager \<Rightarrow> Transaction \<Rightarrow> DeltaRecord list \<Rightarrow> (u64 \<times> Row option) list" where
  "effects tm reader recs = List.map_filter (effect tm reader) recs"

lemma effects_append [simp]: "effects tm reader (xs @ ys) = effects tm reader xs @ effects tm reader ys"
  by (simp add: effects_def List.map_filter_def)

lemma effects_Cons:
  "effects tm reader (r # rs) = (case effect tm reader r of None \<Rightarrow> effects tm reader rs | Some e \<Rightarrow> e # effects tm reader rs)"
  by (simp add: effects_def List.map_filter_def split: option.split)

lemma effects_Nil [simp]: "effects tm reader [] = []"
  by (simp add: effects_def List.map_filter_def)

text \<open>A transaction that is still active and is not the reader: the reader sees nothing of it.\<close>

definition unseen_writer :: "TransactionManager \<Rightarrow> Transaction \<Rightarrow> Transaction \<Rightarrow> bool" where
  "unseen_writer tm reader w \<longleftrightarrow>
     txn_id w \<noteq> 0 \<and> txn_id w \<noteq> txn_id reader \<and> tm_status tm (txn_id w) = None \<and> tm_status tm (txn_id reader) = None"

lemma unseen_writer_active:
  assumes "tm_inv (tm, act)" "reader \<in> set act" "w \<in> set act" "w \<noteq> reader"
  shows "unseen_writer tm reader w"
proof -
  have "txn_id w \<noteq> txn_id reader" using assms by (auto simp: tm_inv_def distinct_map inj_on_def)
  with assms show ?thesis by (auto simp: tm_inv_def unseen_writer_def)
qed

lemma not_sees_writer: "unseen_writer tm reader w \<Longrightarrow> \<not> sees tm reader (txn_id w)"
  by (simp add: unseen_writer_def sees_def committed_by_def GetStatus_def)

lemma effects_DeltaInsert:
  "unseen_writer tm reader w \<Longrightarrow> effects tm reader (DeltaInsert recs x (txn_id w) row) = effects tm reader recs"
  using not_sees_writer [of tm reader w]
  by (simp add: DeltaInsert_def effects_Cons effect_def IsVisible_alt unseen_writer_def)

lemma not_sees_aborted: "st_state (GetStatus tm i) = kAborted \<Longrightarrow> tm_status tm (txn_id reader) = None \<Longrightarrow> \<not> sees tm reader i"
  by (auto simp: sees_def committed_by_def GetStatus_def split: option.splits)

lemma effect_claimed:
  assumes "unseen_writer tm reader w" "judge r w tm = Claim" "dr_is_base_tombstone r \<longrightarrow> dr_deleted_txn r \<noteq> 0"
  shows "effect tm reader (r\<lparr>dr_deleted_txn := txn_id w\<rparr>) = effect tm reader r"
proof -
  have "dr_deleted_txn r = 0 \<or> \<not> sees tm reader (dr_deleted_txn r)"
    using judge_Claim [OF assms(2)] not_sees_aborted assms(1) by (auto simp: unseen_writer_def)
  with not_sees_writer [OF assms(1)] assms(1,3) show ?thesis
    by (auto simp: effect_def IsVisible_alt unseen_writer_def)
qed

definition tombstones_ok :: "DeltaRecord list \<Rightarrow> bool" where
  "tombstones_ok recs \<longleftrightarrow> (\<forall>r\<in>set recs. dr_is_base_tombstone r \<longrightarrow> dr_deleted_txn r \<noteq> 0)"

lemma effects_claim:
  assumes "unseen_writer tm reader w" "tombstones_ok recs" "ClaimOrInsertBaseTombstone recs x w tm b = (res, recs')"
  shows "effects tm reader recs' = effects tm reader recs"
proof (cases "res = kOk")
  case True
  with assms(3) have "ClaimOrInsertBaseTombstone recs x w tm b = (kOk, recs')" by simp
  then show ?thesis
  proof (cases rule: claim_ok_cases)
    case (claimed older r newer)
    with assms show ?thesis by (simp add: effects_Cons effect_claimed tombstones_ok_def)
  next
    case tombstone
    with not_sees_writer [OF assms(1)] show ?thesis by (simp add: effects_Cons effect_def base_tombstone_def)
  qed
next
  case False
  with claim_refused [OF assms(3)] show ?thesis by simp
qed

lemma tombstones_ok_claim:
  assumes "txn_id w \<noteq> 0" "tombstones_ok recs" "ClaimOrInsertBaseTombstone recs x w tm b = (res, recs')"
  shows "tombstones_ok recs'"
proof (cases "res = kOk")
  case True
  with assms(3) have "ClaimOrInsertBaseTombstone recs x w tm b = (kOk, recs')" by simp
  then show ?thesis using assms(1,2) by (cases rule: claim_ok_cases) (auto simp: tombstones_ok_def base_tombstone_def)
qed (use claim_refused [OF assms(3)] assms(2) in simp)

lemma tombstones_ok_DeltaInsert [simp]: "tombstones_ok (DeltaInsert recs x i row) = tombstones_ok recs"
  by (auto simp: tombstones_ok_def DeltaInsert_def)

section \<open>Properties\<close>

text \<open>
  What a transaction sees is fixed at its begin: whatever transactions begin, commit or abort
  afterwards, the visibility of every row version to it stays the same.
\<close>

theorem IsVisible_snapshot_stable:
  assumes "txn_reachable (tm, act)" and "reader \<in> set act" and "txn_step\<^sup>*\<^sup>* (tm, act) (tm', act')"
  shows "IsVisible r reader tm' = IsVisible r reader tm"
  using IsVisible_stable [OF assms(3) tm_inv_reachable [OF assms(1)] assms(2), of r] by simp

theorem IsVisible_snapshot_stable_witness:
  "IsVisible \<lparr>dr_row_id = 1, dr_created_txn = 2, dr_deleted_txn = 0, dr_row = [], dr_is_base_tombstone = False\<rparr>
     (fst (TxnBegin new_TransactionManager)) (snd (TxnBegin (snd (TxnBegin new_TransactionManager)))) = False"
proof -
  let ?tm = "snd (TxnBegin new_TransactionManager)" and ?t = "fst (TxnBegin new_TransactionManager)"
  have "txn_step (?tm, [?t]) (snd (TxnBegin ?tm), fst (TxnBegin ?tm) # [?t])"
    by (rule step_begin) (simp_all add: TxnBegin_def new_TransactionManager_def Let_def)
  then have "txn_step\<^sup>*\<^sup>* (?tm, [?t]) (snd (TxnBegin ?tm), fst (TxnBegin ?tm) # [?t])" by (rule r_into_rtranclp)
  from IsVisible_snapshot_stable [OF begin_reachable _ this]
  show ?thesis
    by (simp add: IsVisible_alt sees_def committed_by_def GetStatus_def TxnBegin_def new_TransactionManager_def Let_def)
qed

end
