(* ===== verification/Table.thy ===== *)
theory Table
  imports Segment Delta "HOL-Library.AList"
begin

text \<open>
  The table, \<^verbatim>\<open>table/table.h\<close> and \<^verbatim>\<open>table/table.cpp\<close>: immutable base segments, the delta layer and the
  transaction manager behind one row-level interface, and the compaction that folds settled versions
  into a new base segment. A segment is immutable, so a shared pointer to it is the segment. An
  unordered map is an association list with distinct keys, iterated in an order \<open>ord\<close> that is an
  argument of the operations that iterate.
\<close>

section \<open>The code\<close>

definition kRowIdColumnName :: string where
  "kRowIdColumnName = ''__row_id__''"

definition kRowIdColumnIndex :: nat where
  "kRowIdColumnIndex = 0"

record CompactionMetrics =
  cm_runs :: u64
  cm_rows_promoted :: u64
  cm_rows_retired :: u64
  cm_last_duration :: i64
  cm_total_duration :: i64

record ScanSnapshot =
  ss_segments :: "Segment list"
  ss_delta_records :: "DeltaRecord list"
  ss_reader :: Transaction

record Table =
  tb_name :: string
  tb_user_schema :: Schema
  tb_full_schema :: Schema
  tb_txn_mgr :: TransactionManager
  tb_delta :: "DeltaRecord list"
  tb_base_segments :: "Segment list"
  tb_next_row_id :: u64
  tb_next_segment_id :: u64
  tb_metrics :: CompactionMetrics

definition ExtractFullRow :: "Segment \<Rightarrow> nat \<Rightarrow> Row res" where
  "ExtractFullRow seg row_idx =
     map_res (\<lambda>c. bind_res (seg_column seg c) (\<lambda>col. ValueAt col row_idx)) [0..<length (seg_columns seg)]"

definition MakeTable :: "string \<Rightarrow> Schema \<Rightarrow> Table" where
  "MakeTable name user_schema =
     \<lparr>tb_name = name, tb_user_schema = user_schema,
      tb_full_schema = \<lparr>cs_name = kRowIdColumnName, cs_type = kInt64\<rparr> # user_schema,
      tb_txn_mgr = new_TransactionManager, tb_delta = [], tb_base_segments = [],
      tb_next_row_id = 1, tb_next_segment_id = 1,
      tb_metrics = \<lparr>cm_runs = 0, cm_rows_promoted = 0, cm_rows_retired = 0, cm_last_duration = 0, cm_total_duration = 0\<rparr>\<rparr>"

text \<open>The inline forwarders to the transaction manager.\<close>

definition TableBegin :: "Table \<Rightarrow> Transaction \<times> Table" where
  "TableBegin tb = (let (txn, tm) = TxnBegin (tb_txn_mgr tb) in (txn, tb\<lparr>tb_txn_mgr := tm\<rparr>))"

definition TableCommit :: "Table \<Rightarrow> Transaction \<Rightarrow> (Transaction \<times> Table) res" where
  "TableCommit tb txn = bind_res (TxnCommit (tb_txn_mgr tb) txn) (\<lambda>(txn, tm). Inr (txn, tb\<lparr>tb_txn_mgr := tm\<rparr>))"

definition TableAbort :: "Table \<Rightarrow> Transaction \<Rightarrow> (Transaction \<times> Table) res" where
  "TableAbort tb txn = bind_res (TxnAbort (tb_txn_mgr tb) txn) (\<lambda>(txn, tm). Inr (txn, tb\<lparr>tb_txn_mgr := tm\<rparr>))"

definition TableInsert :: "Table \<Rightarrow> Transaction \<Rightarrow> Row \<Rightarrow> u64 \<times> Table" where
  "TableInsert tb txn user_row =
     (let row_id = tb_next_row_id tb in
      (row_id, tb\<lparr>tb_next_row_id := row_id + 1, tb_delta := DeltaInsert (tb_delta tb) row_id (txn_id txn) user_row\<rparr>))"

text \<open>The compare-exchange loop: raise an allocator past \<open>used\<close> unless it is there already.\<close>

definition bump :: "u64 \<Rightarrow> u64 \<Rightarrow> u64" where
  "bump expected used = (if expected \<le> used then used + 1 else expected)"

definition InsertWithRowId :: "Table \<Rightarrow> Transaction \<Rightarrow> u64 \<Rightarrow> Row \<Rightarrow> u64 \<times> Table" where
  "InsertWithRowId tb txn row_id user_row =
     (row_id, tb\<lparr>tb_delta := DeltaInsert (tb_delta tb) row_id (txn_id txn) user_row,
                 tb_next_row_id := bump (tb_next_row_id tb) row_id\<rparr>)"

fun find_row_id :: "i64 list \<Rightarrow> nat list \<Rightarrow> u64 \<Rightarrow> bool res" where
  "find_row_id ids [] row_id = Inr False"
| "find_row_id ids (r # rs) row_id =
     bind_res (vec_idx ids r) (\<lambda>i. if i = row_id then Inr True else find_row_id ids rs row_id)"

fun exists_in_segments :: "Segment list \<Rightarrow> u64 \<Rightarrow> bool res" where
  "exists_in_segments [] row_id = Inr False"
| "exists_in_segments (seg # segs) row_id =
     bind_res (seg_column seg kRowIdColumnIndex) (\<lambda>col.
     bind_res (find_row_id (col_int64 col) [0..<seg_num_rows seg] row_id) (\<lambda>found.
       if found then Inr True else exists_in_segments segs row_id))"

definition RowIdExistsInBase :: "Table \<Rightarrow> u64 \<Rightarrow> bool res" where
  "RowIdExistsInBase tb row_id = exists_in_segments (tb_base_segments tb) row_id"

definition TableUpdate :: "Table \<Rightarrow> Transaction \<Rightarrow> u64 \<Rightarrow> Row \<Rightarrow> (bool \<times> Table) res" where
  "TableUpdate tb txn row_id new_user_row =
     bind_res (RowIdExistsInBase tb row_id) (\<lambda>exists_in_base.
       let (result, recs) = ClaimOrInsertBaseTombstone (tb_delta tb) row_id txn (tb_txn_mgr tb) exists_in_base in
       if result \<noteq> kOk then Inr (False, tb\<lparr>tb_delta := recs\<rparr>)
       else Inr (True, tb\<lparr>tb_delta := DeltaInsert recs row_id (txn_id txn) new_user_row\<rparr>))"

definition TableDelete :: "Table \<Rightarrow> Transaction \<Rightarrow> u64 \<Rightarrow> (bool \<times> Table) res" where
  "TableDelete tb txn row_id =
     bind_res (RowIdExistsInBase tb row_id) (\<lambda>exists_in_base.
       let (result, recs) = ClaimOrInsertBaseTombstone (tb_delta tb) row_id txn (tb_txn_mgr tb) exists_in_base in
       Inr (result = kOk, tb\<lparr>tb_delta := recs\<rparr>))"

definition SnapshotForScan :: "Table \<Rightarrow> Transaction \<Rightarrow> ScanSnapshot" where
  "SnapshotForScan tb reader =
     \<lparr>ss_segments = tb_base_segments tb, ss_delta_records = DeltaSnapshot (tb_delta tb), ss_reader = reader\<rparr>"

text \<open>The first loop of \<^verbatim>\<open>MaterializeVisibleRows\<close>: the rows the delta supplies and the base rows it hides.\<close>

definition scan_record :: "TransactionManager \<Rightarrow> Transaction \<Rightarrow> DeltaRecord \<Rightarrow>
    (u64 \<times> Row) list \<times> u64 set \<Rightarrow> (u64 \<times> Row) list \<times> u64 set" where
  "scan_record tm reader r s =
     (let (from_delta, suppress_base) = s in
      if dr_is_base_tombstone r then
        let delete_visible =
          (if dr_deleted_txn r = txn_id reader then True
           else committed_by tm (dr_deleted_txn r) (snapshot_ts reader))
        in (from_delta, if delete_visible then insert (dr_row_id r) suppress_base else suppress_base)
      else if IsVisible r reader tm then
        (AList.update (dr_row_id r) (dr_row r) from_delta, insert (dr_row_id r) suppress_base)
      else (from_delta, suppress_base))"

text \<open>The second loop over one base segment: rows not hidden, without the leading row id column.\<close>

definition scan_base_row :: "u64 set \<Rightarrow> Segment \<Rightarrow> Column \<Rightarrow> nat \<Rightarrow> Row list \<Rightarrow> Row list res" where
  "scan_base_row suppress_base seg id_col r out =
     bind_res (vec_idx (col_int64 id_col) r) (\<lambda>row_id.
       if row_id \<in> suppress_base then Inr out
       else bind_res (ExtractFullRow seg r) (\<lambda>full. Inr (out @ [tl full])))"

definition scan_segment :: "u64 set \<Rightarrow> Segment \<Rightarrow> Row list \<Rightarrow> Row list res" where
  "scan_segment suppress_base seg out =
     bind_res (seg_column seg kRowIdColumnIndex) (\<lambda>id_col.
       fold_res (scan_base_row suppress_base seg id_col) [0..<seg_num_rows seg] out)"

definition MaterializeVisibleRows ::
  "((u64 \<times> Row) list \<Rightarrow> (u64 \<times> Row) list) \<Rightarrow> Table \<Rightarrow> ScanSnapshot \<Rightarrow> Row list res" where
  "MaterializeVisibleRows ord tb snap =
     (let (from_delta, suppress_base) =
        fold (scan_record (tb_txn_mgr tb) (ss_reader snap)) (ss_delta_records snap) ([], {})
      in fold_res (scan_segment suppress_base) (ss_segments snap) (map snd (ord from_delta)))"

subsection \<open>Compaction\<close>

text \<open>\<^verbatim>\<open>head_index\<close>: the position of the last record of every row.\<close>

definition head_index :: "DeltaRecord list \<Rightarrow> u64 \<Rightarrow> nat option" where
  "head_index recs = fold (\<lambda>i m. m(dr_row_id (recs ! i) \<mapsto> i)) [0..<length recs] Map.empty"

record CompactState =
  cs_live_stable_rows :: "(u64 \<times> Row) list"
  cs_stably_deleted :: "u64 set"
  cs_retained :: "DeltaRecord list"

definition retain :: "DeltaRecord \<Rightarrow> CompactState \<Rightarrow> CompactState" where
  "retain r s = s\<lparr>cs_retained := cs_retained s @ [r]\<rparr>"

definition compact_record :: "TransactionManager \<Rightarrow> u64 \<Rightarrow> bool \<Rightarrow> DeltaRecord \<Rightarrow> CompactState \<Rightarrow> CompactState" where
  "compact_record tm oldest_active is_head r s =
     (if \<not> dr_is_base_tombstone r \<and> st_state (GetStatus tm (dr_created_txn r)) = kAborted then s
      else if \<not> is_head then
        (if dr_deleted_txn r \<noteq> 0 \<and> committed_by tm (dr_deleted_txn r) oldest_active then s else retain r s)
      else if dr_is_base_tombstone r then
        (if committed_by tm (dr_deleted_txn r) oldest_active then
           s\<lparr>cs_stably_deleted := insert (dr_row_id r) (cs_stably_deleted s)\<rparr>
         else if st_state (GetStatus tm (dr_deleted_txn r)) = kAborted then s
         else retain r s)
      else if \<not> committed_by tm (dr_created_txn r) oldest_active then retain r s
      else if dr_deleted_txn r = 0 then
        s\<lparr>cs_live_stable_rows := AList.update (dr_row_id r) (dr_row r) (cs_live_stable_rows s)\<rparr>
      else if committed_by tm (dr_deleted_txn r) oldest_active then s
      else retain r s)"

definition compact_delta :: "TransactionManager \<Rightarrow> DeltaRecord list \<Rightarrow> CompactState" where
  "compact_delta tm recs =
     (let oldest_active = OldestActiveSnapshot tm; heads = head_index recs in
      fold (\<lambda>i s. let r = recs ! i in compact_record tm oldest_active (heads (dr_row_id r) = Some i) r s)
        [0..<length recs] \<lparr>cs_live_stable_rows = [], cs_stably_deleted = {}, cs_retained = []\<rparr>)"

text \<open>The base rows that survive: full rows of every segment except the stably deleted ones.\<close>

definition merge_row :: "u64 set \<Rightarrow> Segment \<Rightarrow> Column \<Rightarrow> nat \<Rightarrow> Row list \<Rightarrow> Row list res" where
  "merge_row deleted seg id_col r merged =
     bind_res (vec_idx (col_int64 id_col) r) (\<lambda>row_id.
       if row_id \<in> deleted then Inr merged
       else bind_res (ExtractFullRow seg r) (\<lambda>full. Inr (merged @ [full])))"

definition merge_segment :: "u64 set \<Rightarrow> Segment \<Rightarrow> Row list \<Rightarrow> Row list res" where
  "merge_segment deleted seg merged =
     bind_res (seg_column seg kRowIdColumnIndex) (\<lambda>id_col.
       fold_res (merge_row deleted seg id_col) [0..<seg_num_rows seg] merged)"

definition rebuild_base ::
  "((u64 \<times> Row) list \<Rightarrow> (u64 \<times> Row) list) \<Rightarrow> CompactState \<Rightarrow> Table \<Rightarrow> Table res" where
  "rebuild_base ord s tb =
     (if cs_live_stable_rows s \<noteq> [] \<or> cs_stably_deleted s \<noteq> {} then
        bind_res (fold_res (merge_segment (cs_stably_deleted s)) (tb_base_segments tb) []) (\<lambda>merged.
          let merged_rows = merged @ map (\<lambda>(row_id, user_row). VInt64 row_id # user_row) (ord (cs_live_stable_rows s));
              segment_id = tb_next_segment_id tb
          in bind_res (Build segment_id (tb_full_schema tb) merged_rows) (\<lambda>new_segment.
               Inr (tb\<lparr>tb_next_segment_id := segment_id + 1, tb_base_segments := [new_segment]\<rparr>)))
      else Inr tb)"

text \<open>
  \<^verbatim>\<open>Compact\<close>; \<open>duration\<close> is what the clock measures. If building the new segment throws, the exception
  leaves \<^verbatim>\<open>Compact\<close> with nothing changed but the segment id counter.
\<close>

definition Compact :: "((u64 \<times> Row) list \<Rightarrow> (u64 \<times> Row) list) \<Rightarrow> i64 \<Rightarrow> Table \<Rightarrow> Table res" where
  "Compact ord duration tb =
     (let recs = DeltaSnapshot (tb_delta tb);
          s = compact_delta (tb_txn_mgr tb) recs;
          rows_promoted = of_nat (length (cs_live_stable_rows s));
          rows_retired = of_nat (length recs) - of_nat (length (cs_retained s)) - rows_promoted
      in bind_res (rebuild_base ord s tb) (\<lambda>tb.
           let m = tb_metrics tb in
           Inr (tb\<lparr>tb_delta := ReplaceAll (tb_delta tb) (cs_retained s),
                   tb_metrics := m\<lparr>cm_runs := cm_runs m + 1,
                      cm_rows_promoted := cm_rows_promoted m + rows_promoted,
                      cm_rows_retired := cm_rows_retired m + rows_retired,
                      cm_last_duration := duration,
                      cm_total_duration := cm_total_duration m + duration\<rparr>\<rparr>)))"

subsection \<open>Accessors and checkpoint support\<close>

definition num_base_segments :: "Table \<Rightarrow> nat" where
  "num_base_segments tb = length (tb_base_segments tb)"

definition total_base_rows :: "Table \<Rightarrow> nat" where
  "total_base_rows tb = foldl (\<lambda>total seg. total + seg_num_rows seg) 0 (tb_base_segments tb)"

definition compaction_metrics :: "Table \<Rightarrow> CompactionMetrics" where
  "compaction_metrics tb = tb_metrics tb"

definition base_segments :: "Table \<Rightarrow> Segment list" where
  "base_segments tb = tb_base_segments tb"

definition load_segment_ids :: "Segment \<Rightarrow> Table \<Rightarrow> Table res" where
  "load_segment_ids seg tb =
     bind_res (seg_column seg kRowIdColumnIndex) (\<lambda>id_col.
     bind_res (fold_res (\<lambda>r tb. bind_res (vec_idx (col_int64 id_col) r) (\<lambda>row_id.
         Inr (tb\<lparr>tb_next_row_id := bump (tb_next_row_id tb) row_id\<rparr>))) [0..<seg_num_rows seg] tb) (\<lambda>tb.
       Inr (tb\<lparr>tb_next_segment_id := bump (tb_next_segment_id tb) (seg_id seg)\<rparr>)))"

definition LoadBaseSegments :: "Segment list \<Rightarrow> Table \<Rightarrow> Table res" where
  "LoadBaseSegments segments tb = fold_res load_segment_ids segments (tb\<lparr>tb_base_segments := segments\<rparr>)"

section \<open>Scans\<close>

text \<open>The rows a segment of the table holds, as pairs of row id and user row.\<close>

definition full_row :: "u64 \<times> Row \<Rightarrow> Row" where
  "full_row = (\<lambda>(row_id, user_row). VInt64 row_id # user_row)"

definition holds_rows :: "Segment \<Rightarrow> (u64 \<times> Row) list \<Rightarrow> bool" where
  "holds_rows seg irs \<longleftrightarrow> segment_holds seg (map full_row irs) \<and> seg_columns seg \<noteq> [] \<and>
     col_type (hd (seg_columns seg)) = kInt64 \<and> (\<forall>(i, row)\<in>set irs. Suc (length row) = length (seg_columns seg))"

definition base_holds :: "Segment list \<Rightarrow> (u64 \<times> Row) list \<Rightarrow> bool" where
  "base_holds segs irs \<longleftrightarrow> (\<exists>irss. list_all2 holds_rows segs irss \<and> irs = concat irss)"

lemma holds_rows_facts:
  assumes "holds_rows seg irs"
  shows "seg_num_rows seg = length irs"
    and "\<exists>col. seg_column seg kRowIdColumnIndex = Inr col \<and> (\<forall>r<length irs. vec_idx (col_int64 col) r = Inr (fst (irs ! r)))"
    and "r < length irs \<Longrightarrow> ExtractFullRow seg r = Inr (full_row (irs ! r))"
proof -
  let ?cols = "seg_columns seg"
  show n: "seg_num_rows seg = length irs" using assms by (simp add: holds_rows_def segment_holds_def)
  have cell: "ValueAt (?cols ! c) r = Inr (full_row (irs ! r) ! c)" if "c < length ?cols" "r < length irs" for c r
    using assms that by (simp add: holds_rows_def segment_holds_def column_holds_def)
  have ne: "0 < length ?cols" "col_type (?cols ! 0) = kInt64" using assms by (auto simp: holds_rows_def hd_conv_nth)
  have "vec_idx (col_int64 (?cols ! 0)) r = Inr (fst (irs ! r))" if "r < length irs" for r
    using cell [OF ne(1) that] ne(2)
    by (auto simp: ValueAt_def full_row_def split_beta split: if_splits)
  then show "\<exists>col. seg_column seg kRowIdColumnIndex = Inr col \<and> (\<forall>r<length irs. vec_idx (col_int64 col) r = Inr (fst (irs ! r)))"
    using ne(1) by (simp add: seg_column_def kRowIdColumnIndex_def)
  show "ExtractFullRow seg r = Inr (full_row (irs ! r))" if "r < length irs"
  proof -
    have "(fst (irs ! r), snd (irs ! r)) \<in> set irs" using that by simp
    then have len: "length (full_row (irs ! r)) = length ?cols"
      using assms unfolding holds_rows_def full_row_def by (fastforce simp: split_beta)
    have "map_res (\<lambda>c. bind_res (seg_column seg c) (\<lambda>col. ValueAt col r)) [0..<length ?cols] =
        Inr (map (\<lambda>c. full_row (irs ! r) ! c) [0..<length ?cols])"
      using cell that by (intro map_res_total) (simp add: seg_column_def)
    also have "map (\<lambda>c. full_row (irs ! r) ! c) [0..<length ?cols] = full_row (irs ! r)"
      unfolding len [symmetric] by (rule map_nth)
    finally show ?thesis by (simp add: ExtractFullRow_def)
  qed
qed

text \<open>Both loops over the base keep the rows outside a set of row ids, in one shape or another.\<close>

lemma base_loop:
  assumes "list_all2 holds_rows segs irss"
    and "\<And>seg irs out. holds_rows seg irs \<Longrightarrow> step seg out = Inr (out @ map f (filter (\<lambda>ir. fst ir \<notin> S) irs))"
  shows "fold_res step segs out = Inr (out @ map f (filter (\<lambda>ir. fst ir \<notin> S) (concat irss)))"
  using assms(1) by (induction arbitrary: out rule: list_all2_induct) (simp_all add: assms(2))

lemma row_loop:
  assumes "\<And>r out. r < length irs \<Longrightarrow> row_step r out = Inr (if fst (irs ! r) \<in> S then out else out @ [f (irs ! r)])"
    and "k \<le> length irs"
  shows "fold_res row_step [0..<k] out = Inr (out @ map f (filter (\<lambda>ir. fst ir \<notin> S) (take k irs)))"
  using assms(2) by (induction k) (auto simp: fold_res_append assms(1) take_Suc_conv_app_nth)

lemma scan_segment_rows:
  assumes "holds_rows seg irs"
  shows "scan_segment S seg out = Inr (out @ map snd (filter (\<lambda>ir. fst ir \<notin> S) irs))"
proof -
  obtain col where col: "seg_column seg kRowIdColumnIndex = Inr col" "\<forall>r<length irs. vec_idx (col_int64 col) r = Inr (fst (irs ! r))"
    using holds_rows_facts(2) [OF assms] by blast
  have "scan_base_row S seg col r out = Inr (if fst (irs ! r) \<in> S then out else out @ [snd (irs ! r)])" if "r < length irs" for r out
    using that col(2) holds_rows_facts(3) [OF assms that] by (simp add: scan_base_row_def full_row_def split_beta)
  from row_loop [where k = "length irs", OF this] col(1) holds_rows_facts(1) [OF assms] show ?thesis
    by (simp add: scan_segment_def)
qed

lemma merge_segment_rows:
  assumes "holds_rows seg irs"
  shows "merge_segment S seg out = Inr (out @ map full_row (filter (\<lambda>ir. fst ir \<notin> S) irs))"
proof -
  obtain col where col: "seg_column seg kRowIdColumnIndex = Inr col" "\<forall>r<length irs. vec_idx (col_int64 col) r = Inr (fst (irs ! r))"
    using holds_rows_facts(2) [OF assms] by blast
  have "merge_row S seg col r out = Inr (if fst (irs ! r) \<in> S then out else out @ [full_row (irs ! r)])" if "r < length irs" for r out
    using that col(2) holds_rows_facts(3) [OF assms that] by (simp add: merge_row_def)
  from row_loop [where k = "length irs", OF this] col(1) holds_rows_facts(1) [OF assms] show ?thesis
    by (simp add: merge_segment_def)
qed

lemma exists_in_segments_base:
  assumes "base_holds segs irs"
  shows "exists_in_segments segs x = Inr (x \<in> fst ` set irs)"
proof -
  have row: "find_row_id ids rs x = Inr (\<exists>r\<in>set rs. f r = x)" if "\<forall>r\<in>set rs. vec_idx ids r = Inr (f r)" for ids rs f
    using that by (induction rs) auto
  obtain irss where l: "list_all2 holds_rows segs irss" "irs = concat irss" using assms by (auto simp: base_holds_def)
  have "exists_in_segments segs x = Inr (x \<in> fst ` set (concat irss))" using l(1)
  proof (induction rule: list_all2_induct)
    case (Cons seg segs irs irss)
    obtain col where col: "seg_column seg kRowIdColumnIndex = Inr col" "\<forall>r<length irs. vec_idx (col_int64 col) r = Inr (fst (irs ! r))"
      using holds_rows_facts(2) [OF Cons(1)] by blast
    have "find_row_id (col_int64 col) [0..<seg_num_rows seg] x = Inr (\<exists>r<length irs. fst (irs ! r) = x)"
      using row [of "[0..<seg_num_rows seg]" "col_int64 col" "\<lambda>r. fst (irs ! r)"] col(2) holds_rows_facts(1) [OF Cons(1)]
      by (simp add: Bex_def)
    also have "(\<exists>r<length irs. fst (irs ! r) = x) \<longleftrightarrow> x \<in> fst ` set irs" by (force simp: in_set_conv_nth)
    finally show ?case using col(1) Cons.IH by auto
  qed simp
  with l(2) show ?thesis by simp
qed

text \<open>What a scan returns: the rows the delta supplies to the reader and the base rows it leaves.\<close>

definition apply_effect :: "u64 \<times> Row option \<Rightarrow> (u64 \<times> Row) list \<times> u64 set \<Rightarrow> (u64 \<times> Row) list \<times> u64 set" where
  "apply_effect e s =
     (case snd e of None \<Rightarrow> fst s | Some row \<Rightarrow> AList.update (fst e) row (fst s), insert (fst e) (snd s))"

lemma scan_records:
  "fold (scan_record tm reader) recs s = fold apply_effect (effects tm reader recs) s"
proof (induction recs arbitrary: s)
  case (Cons r recs)
  have "scan_record tm reader r s = (case effect tm reader r of None \<Rightarrow> s | Some e \<Rightarrow> apply_effect e s)"
    by (cases s) (auto simp: scan_record_def effect_def sees_def apply_effect_def Let_def)
  with Cons show ?case by (simp add: effects_Cons split: option.split)
qed simp

lemma Materialize_effects:
  assumes "base_holds (ss_segments snap) irs"
    and "fold apply_effect (effects (tb_txn_mgr tb) (ss_reader snap) (ss_delta_records snap)) ([], {}) = (d, S)"
  shows "MaterializeVisibleRows ord tb snap = Inr (map snd (ord d) @ map snd (filter (\<lambda>ir. fst ir \<notin> S) irs))"
proof -
  obtain irss where "list_all2 holds_rows (ss_segments snap) irss" "irs = concat irss" using assms(1) by (auto simp: base_holds_def)
  with base_loop [of "ss_segments snap" irss "scan_segment S" snd S] scan_segment_rows assms(2) show ?thesis
    by (simp add: MaterializeVisibleRows_def scan_records)
qed

section \<open>Concurrent executions\<close>

text \<open>
  Writers hold the table lock in shared mode, so their operations interleave at the steps the delta
  layer's own lock makes atomic: \<^verbatim>\<open>Update\<close> is a claim followed by an append, with steps of other
  transactions in between. The state is the table, the transactions in use and the claims whose append
  is still due, as pairs of transaction and row id. Each step is labelled with the transaction that
  takes it. Compaction holds the lock exclusively, so it finds no append due; it carries the label 0.
\<close>

type_synonym table_state = "Table \<times> Transaction list \<times> (u64 \<times> u64) list"

definition idle :: "Transaction \<Rightarrow> (u64 \<times> u64) list \<Rightarrow> bool" where
  "idle w pend \<longleftrightarrow> txn_id w \<notin> fst ` set pend"

inductive writer_step :: "u64 \<Rightarrow> table_state \<Rightarrow> table_state \<Rightarrow> bool" where
  ws_begin: "tm_next_id (tb_txn_mgr tb) \<noteq> - 1 \<Longrightarrow> TableBegin tb = (t, tb') \<Longrightarrow>
    writer_step (txn_id t) (tb, act, pend) (tb', t # act, pend)"
| ws_commit: "tm_next_id (tb_txn_mgr tb) \<noteq> - 1 \<Longrightarrow> w \<in> set act \<Longrightarrow> idle w pend \<Longrightarrow> TableCommit tb w = Inr (w', tb') \<Longrightarrow>
    writer_step (txn_id w) (tb, act, pend) (tb', remove1 w act, pend)"
| ws_abort: "w \<in> set act \<Longrightarrow> idle w pend \<Longrightarrow> TableAbort tb w = Inr (w', tb') \<Longrightarrow>
    writer_step (txn_id w) (tb, act, pend) (tb', remove1 w act, pend)"
| ws_insert: "w \<in> set act \<Longrightarrow> idle w pend \<Longrightarrow> tb_next_row_id tb \<noteq> - 1 \<Longrightarrow> TableInsert tb w row = (x, tb') \<Longrightarrow>
    writer_step (txn_id w) (tb, act, pend) (tb', act, pend)"
| ws_delete: "w \<in> set act \<Longrightarrow> idle w pend \<Longrightarrow> TableDelete tb w x = Inr (ok, tb') \<Longrightarrow>
    writer_step (txn_id w) (tb, act, pend) (tb', act, pend)"
| ws_update_claim: "w \<in> set act \<Longrightarrow> idle w pend \<Longrightarrow> RowIdExistsInBase tb x = Inr b \<Longrightarrow>
    ClaimOrInsertBaseTombstone (tb_delta tb) x w (tb_txn_mgr tb) b = (kOk, recs) \<Longrightarrow>
    writer_step (txn_id w) (tb, act, pend) (tb\<lparr>tb_delta := recs\<rparr>, act, (txn_id w, x) # pend)"
| ws_update_append: "w \<in> set act \<Longrightarrow> (txn_id w, x) \<in> set pend \<Longrightarrow>
    writer_step (txn_id w) (tb, act, pend)
      (tb\<lparr>tb_delta := DeltaInsert (tb_delta tb) x (txn_id w) row\<rparr>, act, remove1 (txn_id w, x) pend)"
| ws_update_refused: "w \<in> set act \<Longrightarrow> idle w pend \<Longrightarrow> RowIdExistsInBase tb x = Inr b \<Longrightarrow>
    ClaimOrInsertBaseTombstone (tb_delta tb) x w (tb_txn_mgr tb) b = (res, recs) \<Longrightarrow> res \<noteq> kOk \<Longrightarrow>
    writer_step (txn_id w) (tb, act, pend) (tb\<lparr>tb_delta := recs\<rparr>, act, pend)"

text \<open>\<^verbatim>\<open>Update\<close> is the claim and the append without a step in between.\<close>

lemma TableUpdate_steps:
  assumes "w \<in> set act" "idle w pend" "TableUpdate tb w x row = Inr (ok, tb')"
  shows "(writer_step (txn_id w))\<^sup>*\<^sup>* (tb, act, pend) (tb', act, pend)"
proof -
  obtain b where "RowIdExistsInBase tb x = Inr b" using assms(3) by (auto simp: TableUpdate_def)
  moreover obtain res recs where "ClaimOrInsertBaseTombstone (tb_delta tb) x w (tb_txn_mgr tb) b = (res, recs)" by fastforce
  ultimately have b: "RowIdExistsInBase tb x = Inr b"
    "ClaimOrInsertBaseTombstone (tb_delta tb) x w (tb_txn_mgr tb) b = (res, recs)" by simp_all
  show ?thesis
  proof (cases "res = kOk")
    case True
    with b assms(3) have tb': "tb' = (tb\<lparr>tb_delta := recs\<rparr>)\<lparr>tb_delta := DeltaInsert (tb_delta (tb\<lparr>tb_delta := recs\<rparr>)) x (txn_id w) row\<rparr>"
      by (simp add: TableUpdate_def)
    have "writer_step (txn_id w) (tb, act, pend) (tb\<lparr>tb_delta := recs\<rparr>, act, (txn_id w, x) # pend)"
      using assms b True by (intro ws_update_claim) auto
    moreover have "writer_step (txn_id w) (tb\<lparr>tb_delta := recs\<rparr>, act, (txn_id w, x) # pend) (tb', act, pend)"
      using ws_update_append [OF assms(1), of x "(txn_id w, x) # pend" "tb\<lparr>tb_delta := recs\<rparr>" row] tb' by simp
    ultimately show ?thesis by (rule converse_rtranclp_into_rtranclp [OF _ r_into_rtranclp])
  next
    case False
    with b assms(3) have "tb' = tb\<lparr>tb_delta := recs\<rparr>" by (simp add: TableUpdate_def)
    with False assms b ws_update_refused show ?thesis by (intro r_into_rtranclp) auto
  qed
qed

definition store_inv :: "table_state \<Rightarrow> bool" where
  "store_inv s \<longleftrightarrow> (let (tb, act, pend) = s in tm_inv (tb_txn_mgr tb, act) \<and> tombstones_ok (tb_delta tb))"

lemma TableDelete_claim:
  "TableDelete tb w x = Inr (ok, tb') \<longleftrightarrow>
     (\<exists>b res recs. RowIdExistsInBase tb x = Inr b \<and>
        ClaimOrInsertBaseTombstone (tb_delta tb) x w (tb_txn_mgr tb) b = (res, recs) \<and>
        ok = (res = kOk) \<and> tb' = tb\<lparr>tb_delta := recs\<rparr>)"
  by (auto simp: TableDelete_def split_beta; metis surjective_pairing)

lemma txn_steps:
  "tm_next_id tm \<noteq> - 1 \<Longrightarrow> TxnBegin tm = (t, tm') \<Longrightarrow> txn_step\<^sup>*\<^sup>* (tm, act) (tm', t # act)"
  "tm_next_id tm \<noteq> - 1 \<Longrightarrow> t \<in> set act \<Longrightarrow> TxnCommit tm t = Inr (t', tm') \<Longrightarrow> txn_step\<^sup>*\<^sup>* (tm, act) (tm', remove1 t act)"
  "t \<in> set act \<Longrightarrow> TxnAbort tm t = Inr (t', tm') \<Longrightarrow> txn_step\<^sup>*\<^sup>* (tm, act) (tm', remove1 t act)"
  by (rule r_into_rtranclp, auto intro: step_begin step_commit step_abort)+

text \<open>The transaction manager moves by its own steps; the other steps leave it alone.\<close>

lemma writer_step_txn:
  assumes "writer_step i (tb, act, pend) (tb', act', pend')"
  shows "txn_step\<^sup>*\<^sup>* (tb_txn_mgr tb, act) (tb_txn_mgr tb', act')"
  using assms
  by (cases rule: writer_step.cases)
    (auto simp: TableBegin_def TableCommit_def TableAbort_def TableInsert_def TableDelete_claim Let_def
      split: prod.splits intro: txn_steps)

lemma writer_step_base:
  assumes "writer_step i (tb, act, pend) (tb', act', pend')"
  shows "tb_base_segments tb' = tb_base_segments tb \<and> tb_full_schema tb' = tb_full_schema tb"
  using assms
  by (cases rule: writer_step.cases)
    (auto simp: TableBegin_def TableCommit_def TableAbort_def TableInsert_def TableDelete_claim Let_def split: prod.splits)

text \<open>Every step of a writer changes the records in one of three ways.\<close>

lemma writer_step_delta:
  assumes "writer_step i (tb, act, pend) (tb', act', pend')"
  obtains (same) "tb_delta tb' = tb_delta tb"
  | (appended) w x row where "w \<in> set act" "txn_id w = i" "tb_txn_mgr tb' = tb_txn_mgr tb" "act' = act"
      "tb_delta tb' = DeltaInsert (tb_delta tb) x (txn_id w) row"
  | (claimed) w x b res where "w \<in> set act" "txn_id w = i" "tb_txn_mgr tb' = tb_txn_mgr tb" "act' = act"
      "ClaimOrInsertBaseTombstone (tb_delta tb) x w (tb_txn_mgr tb) b = (res, tb_delta tb')"
  using assms
  by (cases rule: writer_step.cases)
    (auto simp: TableBegin_def TableCommit_def TableAbort_def TableInsert_def TableDelete_claim Let_def split: prod.splits)

lemma store_inv_step:
  assumes "writer_step i s s'" "store_inv s"
  shows "store_inv s'"
proof -
  obtain tb act pend tb' act' pend' where s: "s = (tb, act, pend)" "s' = (tb', act', pend')" by (metis prod_cases3)
  note st = assms(1) [unfolded s]
  have tm: "tm_inv (tb_txn_mgr tb, act)" and ok: "tombstones_ok (tb_delta tb)" using assms(2) by (simp_all add: store_inv_def s)
  have "tm_inv (tb_txn_mgr tb', act')"
    using writer_step_txn [OF st] tm by (induction rule: rtranclp_induct) (auto dest: tm_inv_step)
  moreover have "tombstones_ok (tb_delta tb')" using st
  proof (cases rule: writer_step_delta)
    case (claimed w x b res)
    then have "txn_id w \<noteq> 0" using tm by (auto simp: tm_inv_def)
    with claimed ok show ?thesis by (blast intro: tombstones_ok_claim)
  qed (simp_all add: ok)
  ultimately show ?thesis by (simp add: store_inv_def s)
qed

lemma writer_step_view:
  assumes "writer_step i (tb, act, pend) (tb', act', pend')" "store_inv (tb, act, pend)" "reader \<in> set act" "i \<noteq> txn_id reader"
  shows "effects (tb_txn_mgr tb') reader (tb_delta tb') = effects (tb_txn_mgr tb) reader (tb_delta tb) \<and> reader \<in> set act'"
proof -
  have tm: "tm_inv (tb_txn_mgr tb, act)" and ok: "tombstones_ok (tb_delta tb)" using assms(2) by (simp_all add: store_inv_def)
  have unseen: "unseen_writer (tb_txn_mgr tb) reader w" if "w \<in> set act" "txn_id w = i" for w
    using unseen_writer_active [OF tm assms(3) that(1)] that(2) assms(4) by auto
  have reader: "reader \<in> set act'" using assms(1,3,4)
    by (cases rule: writer_step.cases) (auto intro: in_set_remove1 [THEN iffD2])
  have snap: "snapshot_ts reader \<le> tm_last_commit_ts (tb_txn_mgr tb)" using tm assms(3) by (simp add: tm_inv_def)
  have "sees (tb_txn_mgr tb') reader = sees (tb_txn_mgr tb) reader"
    using committed_by_steps [OF writer_step_txn [OF assms(1)] tm snap] by (simp add: fun_eq_iff sees_def)
  then have "effect (tb_txn_mgr tb') reader = effect (tb_txn_mgr tb) reader" by (simp add: fun_eq_iff effect_def IsVisible_alt)
  then have "effects (tb_txn_mgr tb') reader (tb_delta tb) = effects (tb_txn_mgr tb) reader (tb_delta tb)"
    by (simp add: effects_def)
  moreover have "effects (tb_txn_mgr tb') reader (tb_delta tb') = effects (tb_txn_mgr tb') reader (tb_delta tb)"
    using assms(1)
  proof (cases rule: writer_step_delta)
    case (appended w x row)
    with unseen effects_DeltaInsert show ?thesis by metis
  next
    case (claimed w x b res)
    with unseen effects_claim ok show ?thesis by metis
  qed simp
  ultimately show ?thesis using reader by simp
qed

inductive other_step :: "Transaction \<Rightarrow> table_state \<Rightarrow> table_state \<Rightarrow> bool" where
  "writer_step i s s' \<Longrightarrow> i \<noteq> txn_id reader \<Longrightarrow> other_step reader s s'"

inductive_simps other_step_iff: "other_step reader s s'"

lemma other_steps_view:
  assumes "(other_step reader)\<^sup>*\<^sup>* (tb, act, pend) s'" "store_inv (tb, act, pend)" "reader \<in> set act"
  shows "store_inv s' \<and> reader \<in> set (fst (snd s')) \<and> tb_base_segments (fst s') = tb_base_segments tb \<and>
    effects (tb_txn_mgr (fst s')) reader (tb_delta (fst s')) = effects (tb_txn_mgr tb) reader (tb_delta tb)"
  using assms(1)
proof (induction rule: rtranclp_induct)
  case (step s1 s2)
  obtain tb1 act1 pend1 tb2 act2 pend2 where s: "s1 = (tb1, act1, pend1)" "s2 = (tb2, act2, pend2)" by (metis prod_cases3)
  from step(2) obtain i where "writer_step i (tb1, act1, pend1) (tb2, act2, pend2)" "i \<noteq> txn_id reader"
    by (auto simp: other_step_iff s)
  with writer_step_view [OF this(1)] writer_step_base [OF this(1)] store_inv_step [OF this(1)] step.IH
  show ?case by (simp add: s)
qed (use assms in auto)

section \<open>Properties\<close>

text \<open>
  C6: snapshot isolation. Whatever other transactions do after a reader began, in any interleaving of
  begins, inserts, deletes, the two halves of updates, commits and aborts, a scan of the reader returns
  the same rows, in the same order, as before.
\<close>

theorem snapshot_isolation:
  assumes "store_inv (tb, act, pend)" and "reader \<in> set act"
    and "(other_step reader)\<^sup>*\<^sup>* (tb, act, pend) (tb', act', pend')"
  shows "MaterializeVisibleRows ord tb' (SnapshotForScan tb' reader) = MaterializeVisibleRows ord tb (SnapshotForScan tb reader)"
  using other_steps_view [OF assms(3,1,2)]
  by (simp add: MaterializeVisibleRows_def SnapshotForScan_def DeltaSnapshot_def scan_records)

lemma store_inv_init: "store_inv (MakeTable name schema, [], [])"
  by (simp add: store_inv_def MakeTable_def tm_inv_def new_TransactionManager_def tombstones_ok_def)

theorem snapshot_isolation_witness:
  "let (r, tb1) = TableBegin (MakeTable ''t'' []); (w, tb2) = TableBegin tb1; (x, tb3) = TableInsert tb2 w [] in
     MaterializeVisibleRows id tb3 (SnapshotForScan tb3 r) = Inr []"
proof -
  obtain r tb1 w tb2 x tb3 where s: "TableBegin (MakeTable ''t'' []) = (r, tb1)" "TableBegin tb1 = (w, tb2)"
    "TableInsert tb2 w [] = (x, tb3)" by (metis surj_pair)
  note defs = TableBegin_def TxnBegin_def MakeTable_def new_TransactionManager_def TableInsert_def Let_def
  have "tm_next_id (tb_txn_mgr (MakeTable ''t'' [])) \<noteq> - 1" by (simp add: defs)
  from ws_begin [OF this s(1)] have "writer_step (txn_id r) (MakeTable ''t'' [], [], []) (tb1, [r], [])" .
  from store_inv_step [OF this store_inv_init] have inv: "store_inv (tb1, [r], [])" .
  have ids: "txn_id r \<noteq> txn_id w" "tm_next_id (tb_txn_mgr tb1) \<noteq> - 1" "tb_next_row_id tb2 \<noteq> - 1"
    using s(1,2) by (auto simp: defs)
  have "writer_step (txn_id w) (tb1, [r], []) (tb2, w # [r], [])" using ws_begin [OF ids(2) s(2)] .
  moreover have "writer_step (txn_id w) (tb2, w # [r], []) (tb3, w # [r], [])"
    using ids(3) s(3) by (intro ws_insert) (auto simp: idle_def)
  ultimately have "(other_step r)\<^sup>*\<^sup>* (tb1, [r], []) (tb3, w # [r], [])"
    using ids(1) by (metis (no_types) converse_rtranclp_into_rtranclp r_into_rtranclp other_step.intros)
  from snapshot_isolation [OF inv _ this, of id]
  have "MaterializeVisibleRows id tb3 (SnapshotForScan tb3 r) = MaterializeVisibleRows id tb1 (SnapshotForScan tb1 r)" by simp
  also have "\<dots> = Inr []"
    using s(1) by (auto simp: MaterializeVisibleRows_def SnapshotForScan_def DeltaSnapshot_def defs)
  finally show ?thesis using s by simp
qed

end
