(* ===== verification/Compaction.thy ===== *)
theory Compaction
  imports Table
begin

text \<open>
  What \<^verbatim>\<open>Table::Compact\<close> keeps. Compaction leaves the rows of every reader at or above the watermark
  alone as long as no settled tombstone of a base row is buried under a newer record of that row; when
  one is, the old base row comes back, which the last theorem shows on a run of the operations.
\<close>

section \<open>The pass over the records\<close>

definition is_last :: "DeltaRecord \<Rightarrow> DeltaRecord list \<Rightarrow> bool" where
  "is_last r newer \<longleftrightarrow> dr_row_id r \<notin> dr_row_id ` set newer"

fun compact_go :: "TransactionManager \<Rightarrow> u64 \<Rightarrow> DeltaRecord list \<Rightarrow> CompactState \<Rightarrow> CompactState" where
  "compact_go tm w [] s = s"
| "compact_go tm w (r # newer) s = compact_go tm w newer (compact_record tm w (is_last r newer) r s)"

lemma head_index_Some:
  "head_index recs x = Some i \<longleftrightarrow> i < length recs \<and> dr_row_id (recs ! i) = x \<and> (\<forall>j<length recs. i < j \<longrightarrow> dr_row_id (recs ! j) \<noteq> x)"
proof -
  have "fold (\<lambda>i m. m(dr_row_id (recs ! i) \<mapsto> i)) [0..<n] Map.empty x = Some i \<longleftrightarrow>
      i < n \<and> dr_row_id (recs ! i) = x \<and> (\<forall>j<n. i < j \<longrightarrow> dr_row_id (recs ! j) \<noteq> x)" for n
    by (induction n) (auto simp: less_Suc_eq)
  then show ?thesis by (simp add: head_index_def)
qed

lemma in_set_drop: "x \<in> set (drop n xs) \<longleftrightarrow> (\<exists>j. n \<le> j \<and> j < length xs \<and> xs ! j = x)"
proof
  assume "\<exists>j. n \<le> j \<and> j < length xs \<and> xs ! j = x"
  then obtain j where "n \<le> j" "j < length xs" "xs ! j = x" by blast
  then have "j - n < length (drop n xs)" "drop n xs ! (j - n) = x" by auto
  then show "x \<in> set (drop n xs)" using nth_mem by blast
next
  assume "x \<in> set (drop n xs)"
  then obtain i where "i < length xs - n" "xs ! (n + i) = x" by (auto simp: in_set_conv_nth)
  then show "\<exists>j. n \<le> j \<and> j < length xs \<and> xs ! j = x" by (intro exI [of _ "n + i"]) auto
qed

lemma head_index_is_last:
  assumes "k < length recs"
  shows "head_index recs (dr_row_id (recs ! k)) = Some k \<longleftrightarrow> is_last (recs ! k) (drop (Suc k) recs)"
  using assms by (auto simp: head_index_Some is_last_def image_iff Bex_def in_set_drop Suc_le_eq)

lemma compact_delta_go:
  "compact_delta tm recs = compact_go tm (OldestActiveSnapshot tm) recs \<lparr>cs_live_stable_rows = [], cs_stably_deleted = {}, cs_retained = []\<rparr>"
proof -
  let ?w = "OldestActiveSnapshot tm"
  have "fold (\<lambda>i s. let r = recs ! i in compact_record tm ?w (head_index recs (dr_row_id r) = Some i) r s) [k..<length recs] s =
      compact_go tm ?w (drop k recs) s" if "k \<le> length recs" for k s
    using that
  proof (induction "length recs - k" arbitrary: k s)
    case (Suc n)
    then have k: "k < length recs" by simp
    then have "drop k recs = recs ! k # drop (Suc k) recs" by (rule Cons_nth_drop_Suc [symmetric])
    with Suc(1) [of "Suc k"] Suc(2) k show ?case by (simp add: upt_conv_Cons Let_def head_index_is_last)
  qed simp
  from this [of 0] show ?thesis by (simp add: compact_delta_def Let_def)
qed

section \<open>The fate of a record\<close>

datatype fate = Dropped | Purged | Promoted | Retained

definition stable_txn :: "TransactionManager \<Rightarrow> u64 \<Rightarrow> bool" where
  "stable_txn tm i \<longleftrightarrow> committed_by tm i (OldestActiveSnapshot tm)"

definition aborted_txn :: "TransactionManager \<Rightarrow> u64 \<Rightarrow> bool" where
  "aborted_txn tm i \<longleftrightarrow> st_state (GetStatus tm i) = kAborted"

definition fate :: "TransactionManager \<Rightarrow> bool \<Rightarrow> DeltaRecord \<Rightarrow> fate" where
  "fate tm is_head r =
     (if \<not> dr_is_base_tombstone r \<and> aborted_txn tm (dr_created_txn r) then Dropped
      else if \<not> is_head then
        (if dr_deleted_txn r \<noteq> 0 \<and> stable_txn tm (dr_deleted_txn r) then Dropped else Retained)
      else if dr_is_base_tombstone r then
        (if stable_txn tm (dr_deleted_txn r) then Purged
         else if aborted_txn tm (dr_deleted_txn r) then Dropped else Retained)
      else if \<not> stable_txn tm (dr_created_txn r) then Retained
      else if dr_deleted_txn r = 0 then Promoted
      else if stable_txn tm (dr_deleted_txn r) then Dropped else Retained)"

lemma compact_record_fate:
  "compact_record tm (OldestActiveSnapshot tm) is_head r s =
     (case fate tm is_head r of
        Dropped \<Rightarrow> s
      | Purged \<Rightarrow> s\<lparr>cs_stably_deleted := insert (dr_row_id r) (cs_stably_deleted s)\<rparr>
      | Promoted \<Rightarrow> s\<lparr>cs_live_stable_rows := AList.update (dr_row_id r) (dr_row r) (cs_live_stable_rows s)\<rparr>
      | Retained \<Rightarrow> retain r s)"
  by (simp add: compact_record_def fate_def stable_txn_def aborted_txn_def)

text \<open>Each record with the answer to whether it is the last of its row.\<close>

fun with_last :: "DeltaRecord list \<Rightarrow> (DeltaRecord \<times> bool) list" where
  "with_last [] = []"
| "with_last (r # newer) = (r, is_last r newer) # with_last newer"

definition fated :: "TransactionManager \<Rightarrow> fate \<Rightarrow> DeltaRecord list \<Rightarrow> DeltaRecord list" where
  "fated tm f recs = map fst (filter (\<lambda>(r, l). fate tm l r = f) (with_last recs))"

lemma fated_simps [simp]:
  "fated tm f [] = []"
  "fated tm f (r # newer) = (if fate tm (is_last r newer) r = f then [r] else []) @ fated tm f newer"
  by (simp_all add: fated_def)

lemma compact_go_fated:
  "compact_go tm (OldestActiveSnapshot tm) recs s =
     \<lparr>cs_live_stable_rows = fold (\<lambda>r. AList.update (dr_row_id r) (dr_row r)) (fated tm Promoted recs) (cs_live_stable_rows s),
      cs_stably_deleted = dr_row_id ` set (fated tm Purged recs) \<union> cs_stably_deleted s,
      cs_retained = cs_retained s @ fated tm Retained recs\<rparr>"
  by (induction recs arbitrary: s) (auto simp: compact_record_fate retain_def split: fate.split)

lemma fated_subset: "set (fated tm f recs) \<subseteq> set recs"
  by (induction recs) auto

lemma fate_head: "f = Purged \<or> f = Promoted \<Longrightarrow> fate tm l r = f \<Longrightarrow> l"
  by (auto simp: fate_def split: if_splits)

lemma fated_distinct: "f = Purged \<or> f = Promoted \<Longrightarrow> distinct (map dr_row_id (fated tm f recs))"
proof (induction recs)
  case (Cons r recs)
  have "is_last r recs" if "fate tm (is_last r recs) r = f" using fate_head [OF Cons.prems that] .
  then have "dr_row_id r \<notin> dr_row_id ` set (fated tm f recs)" if "fate tm (is_last r recs) r = f"
    using that fated_subset [of tm f recs] by (auto simp: is_last_def)
  with Cons show ?case by auto
qed simp

lemma fold_update_distinct:
  "distinct (map dr_row_id rs) \<Longrightarrow> dr_row_id ` set rs \<inter> fst ` set al = {} \<Longrightarrow>
   fold (\<lambda>r. AList.update (dr_row_id r) (dr_row r)) rs al = al @ map (\<lambda>r. (dr_row_id r, dr_row r)) rs"
proof (induction rs arbitrary: al)
  case (Cons r rs)
  have "AList.update k v al = al @ [(k, v)]" if "k \<notin> fst ` set al" for k v
    using that by (induction al) auto
  with Cons show ?case by auto
qed simp

lemma compact_delta_fated:
  "compact_delta tm recs =
     \<lparr>cs_live_stable_rows = map (\<lambda>r. (dr_row_id r, dr_row r)) (fated tm Promoted recs),
      cs_stably_deleted = dr_row_id ` set (fated tm Purged recs),
      cs_retained = fated tm Retained recs\<rparr>"
  by (simp add: compact_delta_go compact_go_fated fold_update_distinct fated_distinct)

text \<open>The fate of a row's records is decided within that row.\<close>

definition of_row :: "u64 \<Rightarrow> DeltaRecord list \<Rightarrow> DeltaRecord list" where
  "of_row x recs = filter (\<lambda>r. dr_row_id r = x) recs"

lemma of_row_ids: "\<forall>r\<in>set (of_row x recs). dr_row_id r = x"
  by (simp add: of_row_def)

lemma of_row_fated: "of_row x (fated tm f recs) = fated tm f (of_row x recs)"
proof (induction recs)
  case (Cons r recs)
  have "dr_row_id r = x \<Longrightarrow> is_last r (of_row x recs) = is_last r recs" by (auto simp: is_last_def of_row_def image_iff)
  with Cons show ?case by (auto simp: of_row_def)
qed (simp add: of_row_def)

lemma fated_row:
  assumes "\<forall>r\<in>set (rs @ [h]). dr_row_id r = x"
  shows "fated tm f (rs @ [h]) = filter (\<lambda>r. fate tm False r = f) rs @ (if fate tm True h = f then [h] else [])"
  using assms
proof (induction rs)
  case (Cons r rs)
  have "dr_row_id r = dr_row_id h" using Cons.prems by simp
  then have "\<not> is_last r (rs @ [h])" by (simp add: is_last_def)
  moreover have "fated tm f (rs @ [h]) = filter (\<lambda>r. fate tm False r = f) rs @ (if fate tm True h = f then [h] else [])"
    using Cons.prems by (intro Cons.IH) auto
  ultimately show ?case by simp
qed (simp add: is_last_def)

section \<open>The rows a reader gets\<close>

definition supplied :: "(u64 \<times> Row option) list \<Rightarrow> u64 \<Rightarrow> Row option" where
  "supplied es x = foldl (\<lambda>acc e. if fst e = x \<and> snd e \<noteq> None then snd e else acc) None es"

lemma supplied_append:
  "supplied (es @ [e]) x = (if fst e = x \<and> snd e \<noteq> None then snd e else supplied es x)"
  by (auto simp: supplied_def)

lemma fold_apply_effect:
  "\<exists>d. fold apply_effect es ([], {}) = (d, fst ` set es) \<and> map_of d = supplied es \<and> distinct (map fst d)"
proof (induction es rule: rev_induct)
  case (snoc e es)
  then obtain d where d: "fold apply_effect es ([], {}) = (d, fst ` set es)" "map_of d = supplied es" "distinct (map fst d)" by blast
  show ?case
  proof (cases "snd e")
    case None
    then have "apply_effect e (d, fst ` set es) = (d, fst ` set (es @ [e]))" by (simp add: apply_effect_def)
    moreover have "supplied (es @ [e]) = supplied es" using None by (simp add: supplied_append fun_eq_iff)
    ultimately show ?thesis using d by simp
  next
    case (Some row)
    then have "apply_effect e (d, fst ` set es) = (AList.update (fst e) row d, fst ` set (es @ [e]))"
      by (simp add: apply_effect_def)
    moreover have "supplied (es @ [e]) = (supplied es)(fst e \<mapsto> row)" using Some by (auto simp: supplied_append fun_eq_iff)
    ultimately show ?thesis using d by (simp add: update_conv' distinct_update fun_upd_def)
  qed
qed (simp add: supplied_def fun_eq_iff)

definition rows_for :: "(u64 \<times> Row option) list \<Rightarrow> (u64 \<times> Row) list \<Rightarrow> u64 \<Rightarrow> Row multiset" where
  "rows_for es irs x =
     (case supplied es x of None \<Rightarrow> {#} | Some row \<Rightarrow> {#row#}) +
     (if x \<in> fst ` set es then {#} else mset (map snd (filter (\<lambda>ir. fst ir = x) irs)))"

lemma sum_alist:
  assumes "finite X" "fst ` set d \<subseteq> X" "distinct (map fst d)"
  shows "(\<Sum>x\<in>X. case map_of d x of None \<Rightarrow> {#} | Some row \<Rightarrow> {#row#}) = mset (map snd d)"
  using assms(2,3)
proof (induction d)
  case (Cons kv d)
  let ?f = "\<lambda>d x. case map_of d x of None \<Rightarrow> {#} | Some row \<Rightarrow> {#row#}"
  have k: "fst kv \<in> X" "map_of d (fst kv) = None" using Cons.prems by (auto simp: map_of_eq_None_iff)
  have "?f (kv # d) x = (if x = fst kv then {#snd kv#} else {#}) + ?f d x" for x using k(2) by (cases kv) auto
  then have "(\<Sum>x\<in>X. ?f (kv # d) x) = (\<Sum>x\<in>X. if x = fst kv then {#snd kv#} else {#}) + (\<Sum>x\<in>X. ?f d x)"
    by (simp only: sum.distrib)
  with Cons assms(1) k(1) show ?case by simp
qed simp

lemma sum_base:
  assumes "finite X" "fst ` set irs \<subseteq> X"
  shows "(\<Sum>x\<in>X. if x \<in> S then {#} else mset (map snd (filter (\<lambda>ir. fst ir = x) irs))) = mset (map snd (filter (\<lambda>ir. fst ir \<notin> S) irs))"
  using assms(2)
proof (induction irs)
  case (Cons ir irs)
  let ?f = "\<lambda>irs x. if x \<in> S then {#} else mset (map snd (filter (\<lambda>ir. fst ir = x) irs))"
  have "?f (ir # irs) x = (if x = fst ir then if fst ir \<in> S then {#} else {#snd ir#} else {#}) + ?f irs x" for x by auto
  then have "(\<Sum>x\<in>X. ?f (ir # irs) x) =
      (\<Sum>x\<in>X. if x = fst ir then if fst ir \<in> S then {#} else {#snd ir#} else {#}) + (\<Sum>x\<in>X. ?f irs x)"
    by (simp only: sum.distrib)
  with Cons assms(1) show ?case by simp
qed (simp add: sum.neutral)

lemma Materialize_rows_for:
  assumes "base_holds (ss_segments snap) irs" "\<And>xs. mset (ord xs) = mset xs"
    and "es = effects (tb_txn_mgr tb) (ss_reader snap) (ss_delta_records snap)"
    and "finite X" "fst ` set es \<union> fst ` set irs \<subseteq> X"
  shows "\<exists>rows. MaterializeVisibleRows ord tb snap = Inr rows \<and> mset rows = (\<Sum>x\<in>X. rows_for es irs x)"
proof -
  obtain d where d: "fold apply_effect es ([], {}) = (d, fst ` set es)" "map_of d = supplied es" "distinct (map fst d)"
    using fold_apply_effect by blast
  have "fst ` set d \<subseteq> fst ` set es"
  proof
    fix x assume "x \<in> fst ` set d"
    then have "supplied es x \<noteq> None" using d(2) by (metis map_of_eq_None_iff)
    then show "x \<in> fst ` set es" by (induction es rule: rev_induct) (auto simp: supplied_def split: if_splits)
  qed
  then have dX: "fst ` set d \<subseteq> X" using assms(5) by blast
  have "mset (map snd (ord d)) = mset (map snd d)" using assms(2) by (metis mset_map)
  also have "\<dots> = (\<Sum>x\<in>X. case supplied es x of None \<Rightarrow> {#} | Some row \<Rightarrow> {#row#})"
    using sum_alist [OF assms(4) dX d(3)] d(2) by simp
  finally have "mset (map snd (ord d) @ map snd (filter (\<lambda>ir. fst ir \<notin> fst ` set es) irs)) = (\<Sum>x\<in>X. rows_for es irs x)"
    using sum_base [OF assms(4), of irs "fst ` set es"] assms(5) by (simp add: rows_for_def sum.distrib)
  with Materialize_effects [OF assms(1), of tb d "fst ` set es" ord] d(1) assms(3) show ?thesis by simp
qed

section \<open>One row through a compaction\<close>

text \<open>A reader whose snapshot the watermark protects: not ended, at or above the watermark.\<close>

definition protected :: "TransactionManager \<Rightarrow> Transaction \<Rightarrow> bool" where
  "protected tm reader \<longleftrightarrow> tm_status tm (txn_id reader) = None \<and> OldestActiveSnapshot tm \<le> snapshot_ts reader"

text \<open>No settled tombstone of a base row has a newer record of that row behind it.\<close>

definition no_buried_tombstone :: "TransactionManager \<Rightarrow> DeltaRecord list \<Rightarrow> bool" where
  "no_buried_tombstone tm recs \<longleftrightarrow>
     (\<forall>(r, l)\<in>set (with_last recs). dr_is_base_tombstone r \<and> stable_txn tm (dr_deleted_txn r) \<longrightarrow> l)"

text \<open>
  When the newest version of a row is promoted, it is the only one left: the row is not in the base
  and its older versions are dropped.
\<close>

definition settled :: "TransactionManager \<Rightarrow> DeltaRecord list \<Rightarrow> (u64 \<times> Row) list \<Rightarrow> bool" where
  "settled tm recs irs \<longleftrightarrow>
     (\<forall>x older h. of_row x recs = older @ [h] \<and> fate tm True h = Promoted \<longrightarrow>
        x \<notin> fst ` set irs \<and> (\<forall>r\<in>set older. \<not> dr_is_base_tombstone r \<and> fate tm False r = Dropped))"

lemma stable_sees: "protected tm reader \<Longrightarrow> stable_txn tm i \<Longrightarrow> sees tm reader i"
  by (auto simp: protected_def stable_txn_def sees_def committed_by_def Let_def)

lemma aborted_not_sees: "protected tm reader \<Longrightarrow> aborted_txn tm i \<Longrightarrow> \<not> sees tm reader i"
  by (simp add: protected_def aborted_txn_def not_sees_aborted)

lemma aborted_not_zero: "aborted_txn tm i \<Longrightarrow> tm_status tm 0 = None \<Longrightarrow> i \<noteq> 0"
  by (auto simp: aborted_txn_def GetStatus_def)

lemma dropped_no_effect:
  assumes "protected tm reader" "tm_status tm 0 = None" "fate tm l r = Dropped" "dr_is_base_tombstone r \<longrightarrow> l"
  shows "effect tm reader r = None"
  using assms(3,4) stable_sees [OF assms(1)] aborted_not_sees [OF assms(1)] aborted_not_zero [OF _ assms(2)]
  by (auto simp: fate_def effect_def IsVisible_alt split: if_splits)

lemma fate_not_head: "fate tm False r = Dropped \<or> fate tm False r = Retained"
  by (simp add: fate_def)

lemma effects_filter_dropped:
  assumes "\<And>r. r \<in> set rs \<Longrightarrow> fate tm False r = Dropped \<Longrightarrow> effect tm reader r = None"
  shows "effects tm reader (filter (\<lambda>r. fate tm False r = Retained) rs) = effects tm reader rs"
  using assms
proof (induction rs)
  case (Cons r rs)
  then have IH: "effects tm reader (filter (\<lambda>r. fate tm False r = Retained) rs) = effects tm reader rs" by simp
  show ?case using fate_not_head [of tm r]
  proof
    assume "fate tm False r = Dropped"
    with Cons.prems [of r] IH show ?thesis by (simp add: effects_Cons)
  qed (simp add: effects_Cons IH split: option.split)
qed simp

lemma effects_of_row: "effects tm reader (of_row x recs) = filter (\<lambda>e. fst e = x) (effects tm reader recs)"
  by (induction recs) (auto simp: of_row_def effects_Cons effect_def split: option.splits)

lemma rows_for_filter: "rows_for es irs x = rows_for (filter (\<lambda>e. fst e = x) es) (filter (\<lambda>ir. fst ir = x) irs) x"
proof -
  have "supplied es x = supplied (filter (\<lambda>e. fst e = x) es) x"
    by (induction es rule: rev_induct) (auto simp: supplied_append)
  moreover have "x \<in> fst ` set es \<longleftrightarrow> x \<in> fst ` set (filter (\<lambda>e. fst e = x) es)" by force
  ultimately show ?thesis by (simp add: rows_for_def)
qed

lemma no_buried_row:
  assumes "no_buried_tombstone tm recs" "of_row x recs = older @ [h]" "r \<in> set older" "dr_is_base_tombstone r"
  shows "\<not> stable_txn tm (dr_deleted_txn r)"
proof -
  have "with_last (of_row x recs) = filter (\<lambda>(r, l). dr_row_id r = x) (with_last recs)"
  proof (induction recs)
    case (Cons r recs)
    have "dr_row_id r = x \<Longrightarrow> is_last r (of_row x recs) = is_last r recs" by (auto simp: is_last_def of_row_def image_iff)
    with Cons show ?case by (auto simp: of_row_def)
  qed (simp add: of_row_def)
  then have sub: "set (with_last (older @ [h])) \<subseteq> set (with_last recs)" using assms(2) by (metis filter_is_subset)
  have id: "\<forall>r\<in>set (older @ [h]). dr_row_id r = x" using of_row_ids [of x recs] unfolding assms(2) .
  have "(r, False) \<in> set (with_last (older @ [h]))" using id assms(3)
  proof (induction older)
    case (Cons a older)
    have "dr_row_id a = dr_row_id h" using Cons.prems(1) by simp
    then have nl: "\<not> is_last a (older @ [h])" by (simp add: is_last_def)
    show ?case
    proof (cases "r = a")
      case False
      have "\<forall>r\<in>set (older @ [h]). dr_row_id r = x" using Cons.prems(1) unfolding append_Cons list.set ball_simps by (rule conjunct2)
      moreover have "r \<in> set older" using Cons.prems(2) False by simp
      ultimately have "(r, False) \<in> set (with_last (older @ [h]))" by (rule Cons.IH)
      then show ?thesis by simp
    qed (simp add: nl)
  qed simp
  with sub assms(1,4) show ?thesis by (auto simp: no_buried_tombstone_def)
qed

text \<open>The base rows with a given id, and what a reader finds of one row.\<close>

definition base_of :: "u64 \<Rightarrow> (u64 \<times> Row) list \<Rightarrow> Row multiset" where
  "base_of x irs = image_mset snd (filter_mset (\<lambda>ir. fst ir = x) (mset irs))"

lemma rows_for_of_row: "rows_for (effects tm reader rs) irs x =
    (case supplied (effects tm reader (of_row x rs)) x of None \<Rightarrow> {#} | Some row \<Rightarrow> {#row#}) +
    (if effects tm reader (of_row x rs) = [] then base_of x irs else {#})"
proof -
  have "x \<in> fst ` set (filter (\<lambda>e. fst e = x) es) \<longleftrightarrow> filter (\<lambda>e. fst e = x) es \<noteq> []" for es :: "(u64 \<times> Row option) list"
    by (induction es) auto
  then show ?thesis by (subst rows_for_filter) (simp add: rows_for_def effects_of_row base_of_def)
qed

lemma base_of_rebuilt:
  assumes "mset irs' = mset (filter (\<lambda>ir. fst ir \<notin> dr_row_id ` set (fated tm Purged recs)) irs @
    map (\<lambda>r. (dr_row_id r, dr_row r)) (fated tm Promoted recs))"
  shows "base_of x irs' = (if fated tm Purged (of_row x recs) \<noteq> [] then {#} else base_of x irs) +
    mset (map dr_row (fated tm Promoted (of_row x recs)))"
proof -
  have "x \<in> dr_row_id ` set rs \<longleftrightarrow> of_row x rs \<noteq> []" for rs by (auto simp: of_row_def filter_empty_conv)
  then have purged: "x \<in> dr_row_id ` set (fated tm Purged recs) \<longleftrightarrow> fated tm Purged (of_row x recs) \<noteq> []" by (simp add: of_row_fated)
  have "filter (\<lambda>ir. fst ir = x) (filter (\<lambda>ir. fst ir \<notin> P) irs) = (if x \<in> P then [] else filter (\<lambda>ir. fst ir = x) irs)" for P
    by (induction irs) auto
  moreover have "filter (\<lambda>ir. fst ir = x) (map (\<lambda>r. (dr_row_id r, dr_row r)) rs) = map (\<lambda>r. (x, dr_row r)) (of_row x rs)" for rs
    by (induction rs) (auto simp: of_row_def)
  moreover have "base_of x irs' = mset (map snd (filter (\<lambda>ir. fst ir = x)
      (filter (\<lambda>ir. fst ir \<notin> dr_row_id ` set (fated tm Purged recs)) irs @
       map (\<lambda>r. (dr_row_id r, dr_row r)) (fated tm Promoted recs))))"
    unfolding base_of_def assms mset_map mset_filter ..
  ultimately show ?thesis by (simp add: base_of_def purged [symmetric] of_row_fated comp_def del: filter_filter)
qed

text \<open>Of the versions of one row, only the newest is promoted or purged.\<close>

lemma fated_snoc:
  assumes "of_row x recs = older @ [h]"
  shows "fated tm Retained (older @ [h]) = filter (\<lambda>r. fate tm False r = Retained) older @ (if fate tm True h = Retained then [h] else [])"
    "fated tm Purged (older @ [h]) = (if fate tm True h = Purged then [h] else [])"
    "fated tm Promoted (older @ [h]) = (if fate tm True h = Promoted then [h] else [])"
proof -
  have id: "\<forall>r\<in>set (older @ [h]). dr_row_id r = x" using of_row_ids [of x recs] assms by simp
  have "fate tm False r \<noteq> Purged" "fate tm False r \<noteq> Promoted" for r using fate_not_head [of tm r] by auto
  then have none: "filter (\<lambda>r. fate tm False r = Purged) older = []" "filter (\<lambda>r. fate tm False r = Promoted) older = []"
    by simp_all
  show "fated tm Retained (older @ [h]) = filter (\<lambda>r. fate tm False r = Retained) older @ (if fate tm True h = Retained then [h] else [])"
    "fated tm Purged (older @ [h]) = (if fate tm True h = Purged then [h] else [])"
    "fated tm Promoted (older @ [h]) = (if fate tm True h = Promoted then [h] else [])"
    unfolding fated_row [OF id] by (simp_all add: none)
qed

lemma older_effects:
  assumes "protected tm reader" "tm_status tm 0 = None" "no_buried_tombstone tm recs" "of_row x recs = older @ [h]"
  shows "effects tm reader (filter (\<lambda>r. fate tm False r = Retained) older) = effects tm reader older"
proof (rule effects_filter_dropped)
  fix r assume r: "r \<in> set older" "fate tm False r = Dropped"
  have "dr_is_base_tombstone r \<longrightarrow> False"
    using no_buried_row [OF assms(3,4) r(1)] r(2) by (auto simp: fate_def split: if_splits)
  then show "effect tm reader r = None" by (rule dropped_no_effect [OF assms(1,2) r(2)])
qed

lemma row_preserved:
  assumes R: "protected tm reader" "tm_status tm 0 = None" and nb: "no_buried_tombstone tm recs" and st: "settled tm recs irs"
    and irs': "mset irs' = mset (filter (\<lambda>ir. fst ir \<notin> dr_row_id ` set (fated tm Purged recs)) irs @
      map (\<lambda>r. (dr_row_id r, dr_row r)) (fated tm Promoted recs))"
  shows "rows_for (effects tm reader (fated tm Retained recs)) irs' x = rows_for (effects tm reader recs) irs x"
proof (cases "of_row x recs" rule: rev_cases)
  case Nil
  then show ?thesis by (simp add: rows_for_of_row of_row_fated base_of_rebuilt [OF irs'])
next
  case (snoc older h)
  then have id: "dr_row_id h = x" using of_row_ids [of x recs] by simp
  note older = older_effects [OF R nb snoc]
  note simps = rows_for_of_row of_row_fated base_of_rebuilt [OF irs'] fated_snoc [OF snoc] snoc older
  show ?thesis
  proof (cases "fate tm True h")
    case Dropped
    then have "effect tm reader h = None" by (intro dropped_no_effect [OF R]) auto
    with Dropped show ?thesis by (simp add: simps effects_Cons)
  next
    case Purged
    then have "dr_is_base_tombstone h" "stable_txn tm (dr_deleted_txn h)" by (auto simp: fate_def split: if_splits)
    then have "effect tm reader h = Some (x, None)" using stable_sees [OF R(1)] id by (simp add: effect_def)
    with Purged show ?thesis by (simp add: simps effects_Cons supplied_append)
  next
    case Promoted
    then have h: "effect tm reader h = Some (x, Some (dr_row h))" using stable_sees [OF R(1)] id
      by (auto simp: fate_def effect_def IsVisible_alt split: if_splits)
    from st snoc Promoted have s: "x \<notin> fst ` set irs" "\<forall>r\<in>set older. \<not> dr_is_base_tombstone r \<and> fate tm False r = Dropped"
      by (auto simp: settled_def)
    then have "filter (\<lambda>r. fate tm False r = Retained) older = []" by (simp add: filter_empty_conv)
    with older have "effects tm reader older = []" by simp
    moreover have "base_of x irs = {#}" using s(1) by (force simp: base_of_def)
    ultimately show ?thesis using Promoted h by (simp add: simps effects_Cons) (simp add: supplied_def)
  next
    case Retained
    then show ?thesis by (simp add: simps)
  qed
qed

section \<open>The rebuilt base\<close>

text \<open>A table whose base holds the rows \<open>irs\<close> and whose rows all match the user schema.\<close>

definition typed_table :: "Table \<Rightarrow> (u64 \<times> Row) list \<Rightarrow> bool" where
  "typed_table tb irs \<longleftrightarrow> base_holds (tb_base_segments tb) irs \<and>
     tb_full_schema tb = \<lparr>cs_name = kRowIdColumnName, cs_type = kInt64\<rparr> # tb_user_schema tb \<and>
     (\<forall>cs\<in>set (tb_user_schema tb). known_type (cs_type cs)) \<and>
     (\<forall>ir\<in>set irs. row_has_schema (tb_user_schema tb) (snd ir)) \<and>
     (\<forall>r\<in>set (tb_delta tb). \<not> dr_is_base_tombstone r \<longrightarrow> row_has_schema (tb_user_schema tb) (dr_row r)) \<and>
     length irs + length (tb_delta tb) \<le> 2 ^ 32"

lemma Build_holds_rows:
  assumes "\<forall>cs\<in>set schema. known_type (cs_type cs)" "\<forall>ir\<in>set irs. row_has_schema schema (snd ir)" "length irs \<le> 2 ^ 32"
  shows "\<exists>seg. Build sid (\<lparr>cs_name = kRowIdColumnName, cs_type = kInt64\<rparr> # schema) (map full_row irs) = Inr seg \<and>
    holds_rows seg irs \<and> seg_id seg = sid"
proof -
  let ?full = "\<lparr>cs_name = kRowIdColumnName, cs_type = kInt64\<rparr> # schema"
  have typed: "\<forall>row\<in>set (map full_row irs). row_has_schema ?full row"
    using assms(2) by (auto simp: full_row_def row_has_schema_def value_has_type_def)
  obtain seg where seg: "Build sid ?full (map full_row irs) = Inr seg" "wf_segment seg" "segment_holds seg (map full_row irs)"
    "seg_id seg = sid" "seg_schema seg = ?full" "length (seg_columns seg) = length ?full"
    using Build_ok [of ?full "map full_row irs" sid] assms(1,3) typed by (auto simp: known_type_def)
  have "col_type (hd (seg_columns seg)) = kInt64"
    using seg(2,5,6) by (cases "seg_columns seg") (auto simp: wf_segment_def)
  moreover have "Suc (length row) = length (seg_columns seg)" if "(i, row) \<in> set irs" for i row
  proof -
    from assms(2) that have "row_has_schema schema row" by fastforce
    then show ?thesis using seg(6) by (simp add: row_has_schema_def list_all2_lengthD [symmetric])
  qed
  ultimately have "holds_rows seg irs" using seg(3,6) by (auto simp: holds_rows_def)
  with seg(1,4) show ?thesis by blast
qed

lemma base_holds_single: "holds_rows seg irs \<Longrightarrow> base_holds [seg] irs"
  unfolding base_holds_def by (rule exI [of _ "[irs]"]) simp

lemma fated_length: "length (fated tm Promoted recs) + length (fated tm Retained recs) \<le> length recs"
  by (induction recs) auto

lemma fated_Promoted: "r \<in> set (fated tm Promoted recs) \<Longrightarrow> r \<in> set recs \<and> \<not> dr_is_base_tombstone r"
proof (induction recs)
  case (Cons a recs)
  have "fate tm l a = Promoted \<Longrightarrow> \<not> dr_is_base_tombstone a" for l by (auto simp: fate_def split: if_splits)
  with Cons show ?case by (auto split: if_splits)
qed simp

definition compacted_rows ::
  "((u64 \<times> Row) list \<Rightarrow> (u64 \<times> Row) list) \<Rightarrow> TransactionManager \<Rightarrow> DeltaRecord list \<Rightarrow> (u64 \<times> Row) list \<Rightarrow> (u64 \<times> Row) list" where
  "compacted_rows ord tm recs irs =
     filter (\<lambda>ir. fst ir \<notin> dr_row_id ` set (fated tm Purged recs)) irs @
     ord (map (\<lambda>r. (dr_row_id r, dr_row r)) (fated tm Promoted recs))"

lemma Compact_base:
  assumes typed: "typed_table tb irs" and ord: "\<And>xs. mset (ord xs) = mset xs"
  shows "\<exists>tb'. Compact ord dur tb = Inr tb' \<and> base_holds (tb_base_segments tb') (compacted_rows ord (tb_txn_mgr tb) (tb_delta tb) irs) \<and>
    tb_delta tb' = fated (tb_txn_mgr tb) Retained (tb_delta tb) \<and> tb_txn_mgr tb' = tb_txn_mgr tb \<and>
    typed_table tb' (compacted_rows ord (tb_txn_mgr tb) (tb_delta tb) irs) \<and>
    (tb_base_segments tb' = tb_base_segments tb \<or>
     (\<exists>sid seg. tb_base_segments tb' = [seg] \<and>
       Build sid (tb_full_schema tb) (map full_row (compacted_rows ord (tb_txn_mgr tb) (tb_delta tb) irs)) = Inr seg))"
proof -
  let ?recs = "tb_delta tb" and ?tm = "tb_txn_mgr tb" and ?sch = "tb_user_schema tb"
  let ?P = "dr_row_id ` set (fated ?tm Purged ?recs)" and ?L = "map (\<lambda>r. (dr_row_id r, dr_row r)) (fated ?tm Promoted ?recs)"
  let ?irs = "compacted_rows ord ?tm ?recs irs"
  have setord: "set (ord xs) = set xs" "length (ord xs) = length xs" for xs using ord [of xs] by (metis set_mset_mset) (metis ord size_mset)
  have rows: "\<forall>ir\<in>set ?irs. row_has_schema ?sch (snd ir)"
    using typed fated_Promoted by (fastforce simp: compacted_rows_def setord typed_table_def)
  have len: "length ?irs + length (fated ?tm Retained ?recs) \<le> 2 ^ 32"
    using typed fated_length [of ?tm ?recs] length_filter_le [of "\<lambda>ir. fst ir \<notin> ?P" irs]
    by (simp add: compacted_rows_def setord typed_table_def del: length_filter_le)
  have delta: "\<forall>r\<in>set (fated ?tm Retained ?recs). \<not> dr_is_base_tombstone r \<longrightarrow> row_has_schema ?sch (dr_row r)"
    using typed fated_subset [of ?tm Retained ?recs] by (auto simp: typed_table_def)
  obtain irss where irss: "list_all2 holds_rows (tb_base_segments tb) irss" "irs = concat irss"
    using typed by (auto simp: typed_table_def base_holds_def)
  have merged: "fold_res (merge_segment ?P) (tb_base_segments tb) [] = Inr (map full_row (filter (\<lambda>ir. fst ir \<notin> ?P) irs))"
    using base_loop [OF irss(1), of "merge_segment ?P" full_row ?P "[]"] merge_segment_rows irss(2) by simp
  have full: "map (\<lambda>(row_id, user_row). VInt64 row_id # user_row) xs = map full_row xs" for xs by (simp add: full_row_def)
  obtain tb1 where tb1: "rebuild_base ord (compact_delta ?tm ?recs) tb = Inr tb1" "base_holds (tb_base_segments tb1) ?irs"
    "tb_txn_mgr tb1 = ?tm" "tb_user_schema tb1 = ?sch" "tb_full_schema tb1 = tb_full_schema tb"
    "tb_base_segments tb1 = tb_base_segments tb \<or>
     (\<exists>sid seg. tb_base_segments tb1 = [seg] \<and> Build sid (tb_full_schema tb) (map full_row ?irs) = Inr seg)"
  proof (cases "?L \<noteq> [] \<or> ?P \<noteq> {}")
    case True
    obtain seg where seg: "Build (tb_next_segment_id tb) (tb_full_schema tb) (map full_row ?irs) = Inr seg" "holds_rows seg ?irs"
      using Build_holds_rows [OF _ rows, where sid = "tb_next_segment_id tb"] typed len by (auto simp: typed_table_def)
    let ?tb = "tb\<lparr>tb_next_segment_id := tb_next_segment_id tb + 1, tb_base_segments := [seg]\<rparr>"
    have "rebuild_base ord (compact_delta ?tm ?recs) tb = Inr ?tb"
      using True seg(1) by (auto simp: rebuild_base_def compact_delta_fated merged full compacted_rows_def Let_def)
    then show ?thesis using that [of ?tb] base_holds_single [OF seg(2)] seg(1) by auto
  next
    case False
    moreover have "ord [] = []" using setord(2) [of "[]"] by simp
    ultimately show ?thesis using that [of tb] typed
      by (simp add: rebuild_base_def compact_delta_fated compacted_rows_def typed_table_def)
  qed
  show ?thesis using tb1 rows len delta typed
    by (auto simp: Compact_def Let_def DeltaSnapshot_def ReplaceAll_def compact_delta_fated typed_table_def)
qed

section \<open>Properties\<close>

text \<open>
  C7: compaction is invisible. On a table whose rows match the schema, \<^verbatim>\<open>Compact\<close> succeeds, and a scan of
  any transaction that has not ended and whose snapshot is at or above the watermark returns the same rows, up to order, before and after it,
  provided that no settled tombstone of a base row is buried under a newer record and that every row
  whose newest version is promoted is absent from the base and has only older versions that are dropped.
\<close>

theorem Compact_preserves_scans:
  assumes "typed_table tb irs" and "\<forall>xs. mset (ord xs) = mset xs"
    and "protected (tb_txn_mgr tb) reader" and "tm_status (tb_txn_mgr tb) 0 = None"
    and "no_buried_tombstone (tb_txn_mgr tb) (tb_delta tb)" and "settled (tb_txn_mgr tb) (tb_delta tb) irs"
  shows "\<exists>tb' rows rows'. Compact ord dur tb = Inr tb' \<and>
    MaterializeVisibleRows ord tb (SnapshotForScan tb reader) = Inr rows \<and>
    MaterializeVisibleRows ord tb' (SnapshotForScan tb' reader) = Inr rows' \<and> mset rows' = mset rows"
proof -
  have ord: "\<And>xs. mset (ord xs) = mset xs" using assms(2) by blast
  let ?tm = "tb_txn_mgr tb" and ?recs = "tb_delta tb"
  let ?irs = "compacted_rows ord ?tm ?recs irs" and ?es = "effects ?tm reader ?recs"
  let ?es' = "effects ?tm reader (fated ?tm Retained ?recs)"
  obtain tb' where tb': "Compact ord dur tb = Inr tb'" "base_holds (tb_base_segments tb') ?irs"
    "tb_delta tb' = fated ?tm Retained ?recs" "tb_txn_mgr tb' = ?tm"
    using Compact_base [OF assms(1) ord] by blast
  define X where "X = fst ` set ?es \<union> fst ` set ?es' \<union> fst ` set irs \<union> fst ` set ?irs"
  have X: "finite X" "fst ` set ?es \<union> fst ` set irs \<subseteq> X" "fst ` set ?es' \<union> fst ` set ?irs \<subseteq> X" by (auto simp: X_def)
  have base: "base_holds (ss_segments (SnapshotForScan tb reader)) irs" "base_holds (ss_segments (SnapshotForScan tb' reader)) ?irs"
    using assms(1) tb'(2) by (simp_all add: SnapshotForScan_def typed_table_def)
  have es: "?es = effects (tb_txn_mgr tb) (ss_reader (SnapshotForScan tb reader)) (ss_delta_records (SnapshotForScan tb reader))"
    "?es' = effects (tb_txn_mgr tb') (ss_reader (SnapshotForScan tb' reader)) (ss_delta_records (SnapshotForScan tb' reader))"
    by (simp_all add: SnapshotForScan_def DeltaSnapshot_def tb')
  have "mset ?irs = mset (filter (\<lambda>ir. fst ir \<notin> dr_row_id ` set (fated ?tm Purged ?recs)) irs @
      map (\<lambda>r. (dr_row_id r, dr_row r)) (fated ?tm Promoted ?recs))"
    using ord by (simp add: compacted_rows_def)
  from row_preserved [OF assms(3-6) this] have "rows_for ?es' ?irs = rows_for ?es irs" by (simp add: fun_eq_iff)
  with Materialize_rows_for [OF base(1) ord es(1) X(1,2)] Materialize_rows_for [OF base(2) ord es(2) X(1,3)] tb'(1)
  show ?thesis by auto
qed

definition tm_after :: "u64 \<Rightarrow> u64 \<Rightarrow> (u64 \<times> u64) list \<Rightarrow> TransactionManager" where
  "tm_after next_id last_commit commits =
     \<lparr>tm_next_id = next_id, tm_last_commit_ts = last_commit, tm_active_snapshots = {#}, tm_active_txn_ids = {},
      tm_status = (\<lambda>i. map_option (\<lambda>ts. \<lparr>st_state = kCommitted, st_commit_ts = ts\<rparr>) (map_of commits i))\<rparr>"

theorem Compact_preserves_scans_witness:
  "\<exists>tb reader tb' rows rows'. tb_delta tb \<noteq> [] \<and> Compact id 0 tb = Inr tb' \<and>
    MaterializeVisibleRows id tb (SnapshotForScan tb reader) = Inr rows \<and>
    MaterializeVisibleRows id tb' (SnapshotForScan tb' reader) = Inr rows' \<and> mset rows' = mset rows"
proof -
  define r where "r = \<lparr>dr_row_id = 1, dr_created_txn = 1, dr_deleted_txn = 0, dr_row = [VInt64 10], dr_is_base_tombstone = False\<rparr>"
  define tb where "tb = (MakeTable ''t'' [\<lparr>cs_name = ''k'', cs_type = kInt64\<rparr>])\<lparr>tb_txn_mgr := tm_after 3 2 [(1, 2)], tb_delta := [r]\<rparr>"
  have typed: "typed_table tb []"
    by (simp add: tb_def r_def MakeTable_def typed_table_def base_holds_def known_type_def row_has_schema_def value_has_type_def)
  have prot: "protected (tb_txn_mgr tb) (fst (TxnBegin (tb_txn_mgr tb)))" "tm_status (tb_txn_mgr tb) 0 = None"
    by (simp_all add: tb_def protected_def TxnBegin_def tm_after_def OldestActiveSnapshot_def Let_def)
  have nb: "no_buried_tombstone (tb_txn_mgr tb) (tb_delta tb)" by (simp add: tb_def r_def no_buried_tombstone_def)
  have settled: "settled (tb_txn_mgr tb) (tb_delta tb) []"
  proof -
    have "older = []" if "of_row x (tb_delta tb) = older @ [h]" for x older h
      using that by (auto simp: tb_def of_row_def split: if_splits)
    then show ?thesis unfolding settled_def by fastforce
  qed
  have "\<forall>xs :: (u64 \<times> Row) list. mset (id xs) = mset xs" by simp
  note main = Compact_preserves_scans [OF typed this prot nb settled, of 0]
  have "tb_delta tb \<noteq> []" by (simp add: tb_def)
  with main show ?thesis by blast
qed

text \<open>Inserting a row, committing, compacting, then updating the row in a second transaction.\<close>

definition updated_base_row :: "Table res" where
  "updated_base_row =
     (let (t1, tb) = TableBegin (MakeTable ''t'' [\<lparr>cs_name = ''k'', cs_type = kInt64\<rparr>]);
          (x, tb) = TableInsert tb t1 [VInt64 10]
      in bind_res (TableCommit tb t1) (\<lambda>(t1, tb).
         bind_res (Compact id 0 tb) (\<lambda>tb.
         let (t2, tb) = TableBegin tb in
         bind_res (TableUpdate tb t2 x [VInt64 20]) (\<lambda>(ok, tb).
         bind_res (TableCommit tb t2) (\<lambda>(t2, tb). Inr tb)))))"

lemma updated_base_row_state:
  "\<exists>tb. updated_base_row = Inr tb \<and> typed_table tb [(1, [VInt64 10])] \<and> tb_txn_mgr tb = tm_after 5 4 [(3, 4), (1, 2)] \<and>
    tb_delta tb = [\<lparr>dr_row_id = 1, dr_created_txn = 0, dr_deleted_txn = 3, dr_row = [], dr_is_base_tombstone = True\<rparr>,
      \<lparr>dr_row_id = 1, dr_created_txn = 3, dr_deleted_txn = 0, dr_row = [VInt64 20], dr_is_base_tombstone = False\<rparr>]"
proof -
  let ?sch = "[\<lparr>cs_name = ''k'', cs_type = kInt64\<rparr>]" and ?irs = "[(1, [VInt64 10])] :: (u64 \<times> Row) list"
  note ops = TableBegin_def TxnBegin_def TableInsert_def DeltaInsert_def TableCommit_def TxnCommit_def erase_snapshot_def Let_def
  obtain t1 tb1 x tb2 where a: "TableBegin (MakeTable ''t'' ?sch) = (t1, tb1)" "TableInsert tb1 t1 [VInt64 10] = (x, tb2)"
    by (metis surj_pair)
  then have x: "x = 1" by (auto simp: ops MakeTable_def)
  obtain t1' tb3 where b: "TableCommit tb2 t1 = Inr (t1', tb3)" "typed_table tb3 []" "tb_txn_mgr tb3 = tm_after 3 2 [(1, 2)]"
    "tb_delta tb3 = [\<lparr>dr_row_id = 1, dr_created_txn = 1, dr_deleted_txn = 0, dr_row = [VInt64 10], dr_is_base_tombstone = False\<rparr>]"
    using a by (auto simp: ops MakeTable_def new_TransactionManager_def typed_table_def base_holds_def tm_after_def
        known_type_def row_has_schema_def value_has_type_def fun_eq_iff)
  have f: "fate (tm_after 3 2 [(1, 2)]) True (tb_delta tb3 ! 0) = Promoted"
    by (simp add: b(4) fate_def stable_txn_def aborted_txn_def committed_by_def GetStatus_def OldestActiveSnapshot_def tm_after_def)
  then have "compacted_rows id (tb_txn_mgr tb3) (tb_delta tb3) [] = ?irs" "fated (tb_txn_mgr tb3) Retained (tb_delta tb3) = []"
    by (simp_all add: b(3) compacted_rows_def) (simp_all add: b(4) is_last_def)
  with Compact_base [OF b(2), of id 0] obtain tb4 where c: "Compact id 0 tb3 = Inr tb4" "typed_table tb4 ?irs" "tb_delta tb4 = []"
    "tb_txn_mgr tb4 = tm_after 3 2 [(1, 2)]" by (auto simp: b(3))
  obtain t2 tb5 where d: "TableBegin tb4 = (t2, tb5)" by fastforce
  then have tb5: "tb_delta tb5 = []" "tb_base_segments tb5 = tb_base_segments tb4" "txn_id t2 = 3" "snapshot_ts t2 = 2"
    "tb_user_schema tb5 = tb_user_schema tb4" "tb_full_schema tb5 = tb_full_schema tb4"
    "tb_txn_mgr tb5 = (tm_after 4 2 [(1, 2)])\<lparr>tm_active_snapshots := {#2#}, tm_active_txn_ids := {3}\<rparr>"
    using c(3,4) by (auto simp: ops tm_after_def)
  have "base_holds (tb_base_segments tb5) ?irs" using c(2) tb5(2) by (simp add: typed_table_def)
  from exists_in_segments_base [OF this, of 1] have ex: "RowIdExistsInBase tb5 1 = Inr True" by (simp add: RowIdExistsInBase_def)
  define recs where "recs = [\<lparr>dr_row_id = 1, dr_created_txn = 0, dr_deleted_txn = 3, dr_row = [], dr_is_base_tombstone = True\<rparr>,
      \<lparr>dr_row_id = 1, dr_created_txn = 3, dr_deleted_txn = 0, dr_row = [VInt64 20], dr_is_base_tombstone = False\<rparr>]"
  define tb7 where "tb7 = tb5\<lparr>tb_delta := recs, tb_txn_mgr := tm_after 5 4 [(3, 4), (1, 2)]\<rparr>"
  have upd: "TableUpdate tb5 t2 1 [VInt64 20] = Inr (True, tb5\<lparr>tb_delta := recs\<rparr>)"
    by (simp add: TableUpdate_def ex tb5 ClaimOrInsertBaseTombstone_def base_tombstone_def DeltaInsert_def recs_def)
  have com: "\<exists>t2'. TableCommit (tb5\<lparr>tb_delta := recs\<rparr>) t2 = Inr (t2', tb7)"
    by (auto simp: TableCommit_def TxnCommit_def erase_snapshot_def tb5 tb7_def tm_after_def Let_def fun_eq_iff)
  have "row_has_schema (tb_user_schema tb4) [VInt64 20]"
    using c(2) by (auto simp: typed_table_def row_has_schema_def list_all2_Cons2 value_has_type_def)
  then have "typed_table tb7 ?irs" using c(2) tb5 by (simp add: typed_table_def tb7_def recs_def)
  moreover have "updated_base_row = Inr tb7"
    using a b(1) c(1) d upd com by (auto simp: updated_base_row_def x)
  moreover have "tb_txn_mgr tb7 = tm_after 5 4 [(3, 4), (1, 2)]" "tb_delta tb7 = recs" by (simp_all add: tb7_def)
  ultimately show ?thesis unfolding recs_def by blast
qed

text \<open>
  C32: the proviso is needed. After a row that compaction has moved to the base is updated and the
  update is committed, a reader sees the new row only; the next compaction makes the same reader, and
  every later one, see the old row next to the new one.
\<close>

theorem Compact_duplicates_updated_row:
  "\<exists>tb reader tb' tb''. updated_base_row = Inr tb \<and> TableBegin tb = (reader, tb') \<and>
    MaterializeVisibleRows id tb' (SnapshotForScan tb' reader) = Inr [[VInt64 20]] \<and>
    Compact id 0 tb' = Inr tb'' \<and>
    MaterializeVisibleRows id tb'' (SnapshotForScan tb'' reader) = Inr [[VInt64 10], [VInt64 20]]"
proof -
  let ?irs = "[(1, [VInt64 10])] :: (u64 \<times> Row) list" and ?new = "[(1, [VInt64 10]), (1, [VInt64 20])] :: (u64 \<times> Row) list"
  obtain tb where tb: "updated_base_row = Inr tb" "typed_table tb ?irs" "tb_txn_mgr tb = tm_after 5 4 [(3, 4), (1, 2)]"
    "tb_delta tb = [\<lparr>dr_row_id = 1, dr_created_txn = 0, dr_deleted_txn = 3, dr_row = [], dr_is_base_tombstone = True\<rparr>,
      \<lparr>dr_row_id = 1, dr_created_txn = 3, dr_deleted_txn = 0, dr_row = [VInt64 20], dr_is_base_tombstone = False\<rparr>]"
    using updated_base_row_state by blast
  obtain r tb' where r: "TableBegin tb = (r, tb')" by fastforce
  define tm where "tm = (tm_after 6 4 [(3, 4), (1, 2)])\<lparr>tm_active_snapshots := {#4#}, tm_active_txn_ids := {5}\<rparr>"
  have tb': "tb_txn_mgr tb' = tm" "tb_delta tb' = tb_delta tb" "typed_table tb' ?irs" "txn_id r = 5" "snapshot_ts r = 4"
    using r tb by (auto simp: TableBegin_def TxnBegin_def tm_after_def tm_def Let_def typed_table_def)
  have st: "stable_txn tm 3" "\<not> aborted_txn tm 3" "sees tm r 3"
    by (simp_all add: stable_txn_def aborted_txn_def sees_def committed_by_def GetStatus_def OldestActiveSnapshot_def
        tm_def tm_after_def tb')
  have fated: "fated tm Promoted (tb_delta tb) = [tb_delta tb ! 1]" "fated tm Purged (tb_delta tb) = []" "fated tm Retained (tb_delta tb) = []"
    by (simp_all add: tb(4) fate_def st is_last_def)
  have new: "compacted_rows id tm (tb_delta tb) ?irs = ?new" by (simp add: compacted_rows_def fated) (simp add: tb(4))
  obtain tb'' where tb'': "Compact id 0 tb' = Inr tb''" "base_holds (tb_base_segments tb'') ?new" "tb_delta tb'' = []" "tb_txn_mgr tb'' = tm"
    using Compact_base [OF tb'(3), of id 0] by (auto simp: tb' new fated)
  have es: "effects tm r (tb_delta tb) = [(1, None), (1, Some [VInt64 20])]"
    by (simp add: tb(4) effects_Cons effect_def IsVisible_alt st)
  have "MaterializeVisibleRows id tb' (SnapshotForScan tb' r) = Inr [[VInt64 20]]"
    using Materialize_effects [of "SnapshotForScan tb' r" ?irs tb' "[(1, [VInt64 20])]" "{1}" id] tb' es
    by (simp add: SnapshotForScan_def DeltaSnapshot_def typed_table_def apply_effect_def)
  moreover have "MaterializeVisibleRows id tb'' (SnapshotForScan tb'' r) = Inr [[VInt64 10], [VInt64 20]]"
    using Materialize_effects [of "SnapshotForScan tb'' r" ?new tb'' "[]" "{}" id] tb''
    by (simp add: SnapshotForScan_def DeltaSnapshot_def)
  ultimately show ?thesis using tb(1) r tb''(1) by blast
qed

end
