(* ===== verification/Compactor.thy ===== *)
theory Compactor
  imports Compaction
begin

text \<open>
  The background compactor: \<^verbatim>\<open>compaction/compactor.h\<close> and \<^verbatim>\<open>compaction/compactor.cpp\<close>. A thread polls the size of
  the delta layer and compacts the table; \<^verbatim>\<open>Stop\<close> raises a flag and joins the thread. The threads are a step
  relation on the program counters of the worker and of the stopping client, the flag and the table.
\<close>

section \<open>The code\<close>

record CompactorConfig =
  cc_delta_row_threshold :: nat
  cc_poll_interval :: nat

definition default_CompactorConfig :: CompactorConfig where
  "default_CompactorConfig = \<lparr>cc_delta_row_threshold = 1000, cc_poll_interval = 20\<rparr>"

text \<open>Where the worker stands in \<^verbatim>\<open>Run\<close>, and where a client stands in \<^verbatim>\<open>Stop\<close>.\<close>

datatype worker_pc = AtTest | AtPoll | AtSleep | Exited | Crashed

datatype stop_pc = NotStopping | AtExchange | AtJoin | Returned

record BackgroundCompactor =
  bc_table :: Table
  bc_config :: CompactorConfig
  bc_stop :: bool
  bc_worker :: worker_pc
  bc_stopper :: stop_pc

definition MakeCompactor :: "Table \<Rightarrow> CompactorConfig \<Rightarrow> BackgroundCompactor" where
  "MakeCompactor tb config =
     \<lparr>bc_table = tb, bc_config = config, bc_stop = False, bc_worker = AtTest, bc_stopper = NotStopping\<rparr>"

text \<open>
  One step of \<^verbatim>\<open>Run\<close>: the loop test, the poll with the compaction, the sleep. An exception that leaves \<^verbatim>\<open>Compact\<close>
  leaves the thread function and ends the process.
\<close>

fun run_step :: "((u64 \<times> Row) list \<Rightarrow> (u64 \<times> Row) list) \<Rightarrow> i64 \<Rightarrow> BackgroundCompactor \<Rightarrow> BackgroundCompactor" where
  "run_step ord duration bc =
     (case bc_worker bc of
        AtTest \<Rightarrow> bc\<lparr>bc_worker := if bc_stop bc then Exited else AtPoll\<rparr>
      | AtPoll \<Rightarrow>
          if DeltaSize (tb_delta (bc_table bc)) \<ge> cc_delta_row_threshold (bc_config bc) then
            (case Compact ord duration (bc_table bc) of
               Inl _ \<Rightarrow> bc\<lparr>bc_worker := Crashed\<rparr>
             | Inr tb \<Rightarrow> bc\<lparr>bc_table := tb, bc_worker := AtSleep\<rparr>)
          else bc\<lparr>bc_worker := AtSleep\<rparr>
      | AtSleep \<Rightarrow> bc\<lparr>bc_worker := AtTest\<rparr>
      | _ \<Rightarrow> bc)"

text \<open>One step of \<^verbatim>\<open>Stop\<close>: the exchange, which returns at once if the flag was up, and the join.\<close>

fun stop_step :: "BackgroundCompactor \<Rightarrow> BackgroundCompactor" where
  "stop_step bc =
     (case bc_stopper bc of
        NotStopping \<Rightarrow> bc\<lparr>bc_stopper := AtExchange\<rparr>
      | AtExchange \<Rightarrow> bc\<lparr>bc_stop := True, bc_stopper := if bc_stop bc then Returned else AtJoin\<rparr>
      | AtJoin \<Rightarrow> if bc_worker bc = Exited then bc\<lparr>bc_stopper := Returned\<rparr> else bc
      | Returned \<Rightarrow> bc)"

section \<open>Interleavings\<close>

text \<open>What can happen next: a step of the worker, a step of the stopping client, another client's change of the table.\<close>

datatype bc_action = Worker "(u64 \<times> Row) list \<Rightarrow> (u64 \<times> Row) list" i64 | Stopper | Client Table

fun act_step :: "bc_action \<Rightarrow> BackgroundCompactor \<Rightarrow> BackgroundCompactor" where
  "act_step (Worker ord duration) bc = run_step ord duration bc"
| "act_step Stopper bc = stop_step bc"
| "act_step (Client tb) bc = bc\<lparr>bc_table := tb\<rparr>"

definition is_worker :: "bc_action \<Rightarrow> bool" where
  "is_worker a \<longleftrightarrow> (case a of Worker _ _ \<Rightarrow> True | _ \<Rightarrow> False)"

abbreviation exec :: "bc_action list \<Rightarrow> BackgroundCompactor \<Rightarrow> BackgroundCompactor" where
  "exec acts bc \<equiv> fold act_step acts bc"

text \<open>How many of its own steps the worker still makes once the flag is up.\<close>

fun steps_left :: "worker_pc \<Rightarrow> nat" where
  "steps_left AtTest = 1"
| "steps_left AtSleep = 2"
| "steps_left AtPoll = 3"
| "steps_left Exited = 0"
| "steps_left Crashed = 0"

lemma act_step_stopped:
  assumes "bc_stop bc"
  shows "bc_stop (act_step a bc) \<and>
    steps_left (bc_worker (act_step a bc)) \<le> steps_left (bc_worker bc) - (if is_worker a then 1 else 0) \<and>
    (bc_worker bc = Exited \<longrightarrow> bc_worker (act_step a bc) = Exited) \<and>
    (bc_worker bc = Crashed \<longrightarrow> bc_worker (act_step a bc) = Crashed) \<and>
    (bc_stopper bc = AtJoin \<longrightarrow> bc_stopper (act_step a bc) \<in> {AtJoin, Returned})"
proof (cases a)
  case (Worker ord duration)
  with assms show ?thesis by (cases "bc_worker bc") (auto simp: is_worker_def split: sum.splits)
next
  case Stopper
  with assms show ?thesis by (cases "bc_stopper bc") (auto simp: is_worker_def)
qed (use assms in \<open>simp add: is_worker_def\<close>)

lemma exec_stopped:
  assumes "bc_stop bc" "bc_stopper bc \<in> {AtJoin, Returned}"
  shows "bc_stop (exec acts bc) \<and> steps_left (bc_worker (exec acts bc)) \<le> steps_left (bc_worker bc) - length (filter is_worker acts) \<and>
    bc_stopper (exec acts bc) \<in> {AtJoin, Returned}"
  using assms
proof (induction acts arbitrary: bc)
  case (Cons a acts)
  let ?bc = "act_step a bc"
  note S = act_step_stopped [OF Cons.prems(1), of a]
  have "bc_stopper ?bc \<in> {AtJoin, Returned}"
    using Cons.prems(2) S by (cases a) (auto split: worker_pc.splits sum.splits)
  from Cons.IH [OF conjunct1 [OF S] this] S show ?case by (auto split: if_splits)
qed simp

section \<open>Properties\<close>

text \<open>
  C39: \<^verbatim>\<open>Stop\<close> is answered. Once it has raised the flag, then in every interleaving in which the worker gets three
  more steps, and unless an exception ends the process, the worker has left its loop and the join
  returns; from then on the worker never touches the table again.
\<close>

theorem Stop_returns:
  assumes "bc_stop bc" and "bc_stopper bc = AtJoin" and "3 \<le> length (filter is_worker acts)" and "bc_worker (exec acts bc) \<noteq> Crashed"
  shows "bc_worker (exec acts bc) = Exited \<and> bc_stopper (exec (acts @ [Stopper]) bc) = Returned \<and>
    run_step ord dur (exec acts bc) = exec acts bc"
proof -
  let ?bc = "exec acts bc"
  have "bc_stopper bc \<in> {AtJoin, Returned}" using assms(2) by simp
  note E = exec_stopped [OF assms(1) this, of acts]
  moreover have "steps_left (bc_worker bc) \<le> 3" by (cases "bc_worker bc") simp_all
  ultimately have "steps_left (bc_worker ?bc) = 0" using assms(3) by simp
  then have x: "bc_worker ?bc = Exited" using assms(4) by (cases "bc_worker ?bc") simp_all
  with E show ?thesis by auto
qed

theorem Stop_returns_witness:
  "bc_stopper (exec ([Worker id 0, Worker id 0, Worker id 0] @ [Stopper])
     (exec [Worker id 0, Stopper, Stopper] (MakeCompactor (MakeTable ''t'' []) default_CompactorConfig))) = Returned"
proof -
  let ?bc = "exec [Worker id 0, Stopper, Stopper] (MakeCompactor (MakeTable ''t'' []) default_CompactorConfig)"
  let ?acts = "[Worker id 0, Worker id 0, Worker id 0]"
  have bc: "?bc = (MakeCompactor (MakeTable ''t'' []) default_CompactorConfig)
      \<lparr>bc_worker := AtPoll, bc_stop := True, bc_stopper := AtJoin\<rparr>"
    by (simp add: MakeCompactor_def)
  have "bc_worker (exec ?acts ?bc) \<noteq> Crashed"
    unfolding bc by (simp add: MakeCompactor_def MakeTable_def DeltaSize_def default_CompactorConfig_def)
  moreover have "bc_stop ?bc" "bc_stopper ?bc = AtJoin" "3 \<le> length (filter is_worker ?acts)" unfolding bc by (simp_all add: is_worker_def)
  ultimately show ?thesis using Stop_returns [of ?bc ?acts id 0] by blast
qed

end
