(* ===== verification/Checkpoint.thy ===== *)
theory Checkpoint
  imports SegmentFile Table Text
begin

text \<open>
  Checkpoints: \<^verbatim>\<open>recovery/checkpoint.h\<close> and \<^verbatim>\<open>recovery/checkpoint.cpp\<close>. \<open>WriteCheckpoint\<close> compacts the table, saves
  every base segment under a name derived from its identifier and writes the manifest, a text file with the
  log position and the names; \<open>LoadManifest\<close> reads it back with the stream extraction rules of the
  standard library.
\<close>

text \<open>\<^verbatim>\<open>fs::path(dir) / leaf\<close> in its POSIX form.\<close>

definition JoinPath :: "path \<Rightarrow> string \<Rightarrow> path" where
  "JoinPath dir leaf =
     (if leaf \<noteq> [] \<and> hd leaf = CHR ''/'' then leaf
      else if dir = [] \<or> last dir = CHR ''/'' then dir @ leaf
      else dir @ ''/'' @ leaf)"

section \<open>The manifest\<close>

record CheckpointManifest =
  mf_last_lsn :: u64
  mf_segment_files :: "string list"

datatype ManifestError = NoManifest | EmptyManifest | MissingLsnHeader

definition manifest_text :: "CheckpointManifest \<Rightarrow> string" where
  "manifest_text m = ''LSN '' @ to_string (mf_last_lsn m) @ [newline] @ concat (map (\<lambda>f. f @ [newline]) (mf_segment_files m))"

definition LoadManifest :: "files \<Rightarrow> path \<Rightarrow> ManifestError + CheckpointManifest" where
  "LoadManifest fs p =
     (case fs p of
        None \<Rightarrow> Inl NoManifest
      | Some bs \<Rightarrow>
          (case getlines (bytes_text bs) of
             [] \<Rightarrow> Inl EmptyManifest
           | first_line # ls \<Rightarrow>
               let s = dropWhile is_space first_line;
                   tag = takeWhile (\<lambda>c. \<not> is_space c) s;
                   lsn = extract_u64 (dropWhile (\<lambda>c. \<not> is_space c) s)
               in if tag \<noteq> ''LSN'' then Inl MissingLsnHeader
                  else Inr \<lparr>mf_last_lsn = lsn, mf_segment_files = filter (\<lambda>l. l \<noteq> []) ls\<rparr>))"

section \<open>Writing a checkpoint\<close>

definition segment_filename :: "u64 \<Rightarrow> string" where
  "segment_filename i = ''segment_'' @ to_string i @ ''.seg''"

datatype CheckpointError = DirectoryFailed | SegmentFailed write_status | ManifestOpenFailed | ManifestWriteFailed

text \<open>
  The loop over the segments: the files written and the names collected, or the first failure. \<open>mkdir_fails\<close>
  and \<open>env\<close> are the answers of the file system, \<open>ord\<close> and \<open>duration\<close> the inputs of the compaction.
\<close>

fun save_segments :: "io_env \<Rightarrow> path \<Rightarrow> Segment list \<Rightarrow> files \<times> string list \<Rightarrow>
    (CheckpointError option \<times> files \<times> string list) res" where
  "save_segments env dir [] (fs, names) = Inr (None, fs, names)"
| "save_segments env dir (seg # segs) (fs, names) =
     (let filename = segment_filename (seg_id seg) in
      bind_res (SaveToFile env seg (JoinPath dir filename) fs) (\<lambda>(fs, status).
        if status \<noteq> WriteOk then Inr (Some (SegmentFailed status), fs, names)
        else save_segments env dir segs (fs, names @ [filename])))"

definition WriteCheckpoint ::
  "((u64 \<times> Row) list \<Rightarrow> (u64 \<times> Row) list) \<Rightarrow> i64 \<Rightarrow> (path \<Rightarrow> bool) \<Rightarrow> io_env \<Rightarrow> Table \<Rightarrow> path \<Rightarrow> path \<Rightarrow> u64 \<Rightarrow> files \<Rightarrow>
   (CheckpointError option \<times> Table \<times> files) res" where
  "WriteCheckpoint ord duration mkdir_fails env tb dir manifest_path wal_lsn fs =
     (if mkdir_fails dir then Inr (Some DirectoryFailed, tb, fs)
      else
        bind_res (Compact ord duration tb) (\<lambda>tb.
        bind_res (save_segments env dir (tb_base_segments tb) (fs, [])) (\<lambda>(failure, fs, names).
          case failure of
            Some e \<Rightarrow> Inr (Some e, tb, fs)
          | None \<Rightarrow>
              let (fs, status) = write_file env manifest_path
                    (text_bytes (manifest_text \<lparr>mf_last_lsn = wal_lsn, mf_segment_files = names\<rparr>)) fs
              in Inr (case status of CannotOpen \<Rightarrow> Some ManifestOpenFailed | WriteError \<Rightarrow> Some ManifestWriteFailed | WriteOk \<Rightarrow> None,
                      tb, fs))))"

text \<open>The names a checkpoint records.\<close>

definition plain_name :: "string \<Rightarrow> bool" where
  "plain_name f \<longleftrightarrow> f \<noteq> [] \<and> newline \<notin> set f"

lemma plain_segment_filename: "plain_name (segment_filename i)"
  using to_string_no_newline [of i] by (simp add: plain_name_def segment_filename_def)

lemma LoadManifest_text:
  assumes "\<forall>f\<in>set (mf_segment_files m). plain_name f" "fs p = Some (text_bytes (manifest_text m))"
  shows "LoadManifest fs p = Inr m"
proof -
  let ?first = "''LSN '' @ to_string (mf_last_lsn m)"
  have "newline \<notin> set ?first" using to_string_no_newline by simp
  then have ls: "getlines (manifest_text m) = ?first # mf_segment_files m"
    using getlines_line [of ?first] getlines_lines [of "mf_segment_files m"] assms(1)
    by (simp add: manifest_text_def plain_name_def)
  have "\<forall>f\<in>set (mf_segment_files m). f \<noteq> []" using assms(1) by (simp add: plain_name_def)
  then have "filter (\<lambda>l. l \<noteq> []) (mf_segment_files m) = mf_segment_files m" by (simp add: filter_id_conv)
  then show ?thesis
    using assms(2) ls extract_to_string [of "mf_last_lsn m"]
    by (simp add: LoadManifest_def Let_def is_space_def)
qed

section \<open>Saved segments\<close>

lemma segment_filename_inj: "segment_filename i = segment_filename j \<longleftrightarrow> i = j"
proof
  assume "segment_filename i = segment_filename j"
  then have "decimal (unat i) = decimal (unat j)" by (simp add: segment_filename_def to_string_def)
  then have "unat i = unat j" by (metis number_of_decimal)
  then show "i = j" by (simp add: word_unat_eq_iff)
qed simp

lemma JoinPath_segment_inj: "JoinPath dir (segment_filename i) = JoinPath dir (segment_filename j) \<longleftrightarrow> i = j"
proof -
  have "hd (segment_filename k) \<noteq> CHR ''/'' \<and> segment_filename k \<noteq> []" for k by (simp add: segment_filename_def)
  then have "JoinPath dir (segment_filename i) = JoinPath dir (segment_filename j) \<longleftrightarrow> segment_filename i = segment_filename j"
    by (simp add: JoinPath_def)
  then show ?thesis by (simp add: segment_filename_inj)
qed

lemma save_segments_files:
  assumes "\<forall>seg\<in>set segs. savable seg \<and> seg_schema seg = schema" "distinct (map seg_id segs)"
    and "\<forall>seg\<in>set segs. env (JoinPath dir (segment_filename (seg_id seg))) = Written"
  shows "\<exists>fs'. save_segments env dir segs (fs, names) = Inr (None, fs', names @ map (segment_filename \<circ> seg_id) segs) \<and>
    (\<forall>seg\<in>set segs. LoadFromFile fs' (JoinPath dir (segment_filename (seg_id seg))) schema = Inr seg) \<and>
    (\<forall>p. p \<notin> (JoinPath dir \<circ> segment_filename \<circ> seg_id) ` set segs \<longrightarrow> fs' p = fs p)"
  using assms
proof (induction segs arbitrary: fs names)
  case (Cons seg segs)
  let ?p = "JoinPath dir (segment_filename (seg_id seg))"
  have seg: "savable seg" "seg_schema seg = schema" "env ?p = Written" using Cons.prems by simp_all
  obtain bs where bs: "segment_bytes seg = Inr bs" "\<And>rest. load_segment schema (bs @ rest) = Inr (seg, rest)"
    using savable_bytes [OF seg(1)] seg(2) by blast
  have save: "SaveToFile env seg ?p fs = Inr (fs(?p \<mapsto> bs), WriteOk)" using bs(1) seg(3) by (simp add: SaveToFile_def)
  let ?names = "names @ [segment_filename (seg_id seg)]"
  have "\<exists>fs'. save_segments env dir segs (fs(?p \<mapsto> bs), ?names) = Inr (None, fs', ?names @ map (segment_filename \<circ> seg_id) segs) \<and>
      (\<forall>s\<in>set segs. LoadFromFile fs' (JoinPath dir (segment_filename (seg_id s))) schema = Inr s) \<and>
      (\<forall>p. p \<notin> (JoinPath dir \<circ> segment_filename \<circ> seg_id) ` set segs \<longrightarrow> fs' p = (fs(?p \<mapsto> bs)) p)"
    by (rule Cons.IH) (use Cons.prems in simp_all)
  then obtain fs' where
    fs': "save_segments env dir segs (fs(?p \<mapsto> bs), ?names) = Inr (None, fs', ?names @ map (segment_filename \<circ> seg_id) segs)"
      "\<forall>s\<in>set segs. LoadFromFile fs' (JoinPath dir (segment_filename (seg_id s))) schema = Inr s"
      "\<forall>p. p \<notin> (JoinPath dir \<circ> segment_filename \<circ> seg_id) ` set segs \<longrightarrow> fs' p = (fs(?p \<mapsto> bs)) p" by blast
  have "?p \<notin> (JoinPath dir \<circ> segment_filename \<circ> seg_id) ` set segs"
    using Cons.prems(2) by (auto simp: JoinPath_segment_inj)
  with fs'(3) have "fs' ?p = Some bs" by simp
  with bs(2) [of "[]"] have "LoadFromFile fs' ?p schema = Inr seg" by (simp add: LoadFromFile_def)
  with save fs' show ?case by simp
qed simp

lemma WriteCheckpoint_loads:
  assumes "Compact ord dur tb = Inr tb'" and "\<not> mkdir_fails dir" and "\<forall>p. env p = Written"
    and "\<forall>seg\<in>set (tb_base_segments tb'). savable seg \<and> seg_schema seg = schema" and "distinct (map seg_id (tb_base_segments tb'))"
    and "\<forall>seg\<in>set (tb_base_segments tb'). JoinPath dir (segment_filename (seg_id seg)) \<noteq> manifest"
  shows "\<exists>fs' names. WriteCheckpoint ord dur mkdir_fails env tb dir manifest lsn fs = Inr (None, tb', fs') \<and>
    LoadManifest fs' manifest = Inr \<lparr>mf_last_lsn = lsn, mf_segment_files = names\<rparr> \<and>
    map_res (\<lambda>f. LoadFromFile fs' (JoinPath dir f) schema) names = Inr (tb_base_segments tb') \<and>
    names = map (segment_filename \<circ> seg_id) (tb_base_segments tb')"
proof -
  let ?segs = "tb_base_segments tb'"
  let ?names = "map (segment_filename \<circ> seg_id) ?segs"
  have "\<forall>seg\<in>set ?segs. env (JoinPath dir (segment_filename (seg_id seg))) = Written" using assms(3) by simp
  from save_segments_files [OF assms(4,5) this, of fs "[]"] obtain fs1 where
    fs1: "save_segments env dir ?segs (fs, []) = Inr (None, fs1, ?names)"
      "\<forall>seg\<in>set ?segs. LoadFromFile fs1 (JoinPath dir (segment_filename (seg_id seg))) schema = Inr seg" by auto
  let ?m = "\<lparr>mf_last_lsn = lsn, mf_segment_files = ?names\<rparr>"
  let ?fs = "fs1(manifest \<mapsto> text_bytes (manifest_text ?m))"
  have "WriteCheckpoint ord dur mkdir_fails env tb dir manifest lsn fs = Inr (None, tb', ?fs)"
    using assms(1-3) fs1(1) by (simp add: WriteCheckpoint_def)
  moreover have "LoadManifest ?fs manifest = Inr ?m"
    by (rule LoadManifest_text) (auto simp: plain_segment_filename)
  moreover have "list_all2 (\<lambda>f seg. LoadFromFile ?fs (JoinPath dir f) schema = Inr seg) ?names ?segs"
    using fs1(2) assms(6) by (auto simp: list_all2_conv_all_nth LoadFromFile_def)
  then have "map_res (\<lambda>f. LoadFromFile ?fs (JoinPath dir f) schema) ?names = Inr ?segs" by (simp add: map_res_eq_Inr)
  ultimately show ?thesis by blast
qed

section \<open>Properties\<close>

text \<open>
  A checkpoint written without a failure of the file system reads back. If the compacted base has
  segments with distinct identifiers that the file format can hold, and the manifest is not one of
  their files, then \<^verbatim>\<open>WriteCheckpoint\<close> reports success, the manifest loads with the log position and the
  names, and every name loads to its segment.
\<close>

theorem WriteCheckpoint_reads_back:
  assumes "Compact ord dur tb = Inr tb'" and "\<not> mkdir_fails dir" and "\<forall>p. env p = Written"
    and "\<forall>seg\<in>set (tb_base_segments tb'). savable seg \<and> seg_schema seg = schema" and "distinct (map seg_id (tb_base_segments tb'))"
    and "\<forall>seg\<in>set (tb_base_segments tb'). JoinPath dir (segment_filename (seg_id seg)) \<noteq> manifest"
  shows "\<exists>fs' names. WriteCheckpoint ord dur mkdir_fails env tb dir manifest lsn fs = Inr (None, tb', fs') \<and>
    LoadManifest fs' manifest = Inr \<lparr>mf_last_lsn = lsn, mf_segment_files = names\<rparr> \<and>
    map_res (\<lambda>f. LoadFromFile fs' (JoinPath dir f) schema) names = Inr (tb_base_segments tb')"
  using WriteCheckpoint_loads [of ord dur tb tb' mkdir_fails dir env schema manifest lsn fs] assms by blast

text \<open>A table with one segment in the base and nothing to compact.\<close>

definition sample_table :: Table where
  "sample_table = (MakeTable ''t'' (tl (seg_schema sample_segment)))\<lparr>tb_base_segments := [sample_segment]\<rparr>"

theorem WriteCheckpoint_reads_back_witness:
  "\<exists>fs' names. WriteCheckpoint id 0 (\<lambda>_. False) (\<lambda>_. Written) sample_table ''c'' ''c/manifest.txt'' 9 Map.empty = Inr (None, sample_table
      \<lparr>tb_metrics := \<lparr>cm_runs = 1, cm_rows_promoted = 0, cm_rows_retired = 0, cm_last_duration = 0, cm_total_duration = 0\<rparr>\<rparr>, fs') \<and>
    LoadManifest fs' ''c/manifest.txt'' = Inr \<lparr>mf_last_lsn = 9, mf_segment_files = names\<rparr> \<and>
    map_res (\<lambda>f. LoadFromFile fs' (JoinPath ''c'' f) (seg_schema sample_segment)) names = Inr [sample_segment]"
proof -
  let ?tb = "sample_table\<lparr>tb_metrics := \<lparr>cm_runs = 1, cm_rows_promoted = 0, cm_rows_retired = 0, cm_last_duration = 0, cm_total_duration = 0\<rparr>\<rparr>"
  have c: "Compact id 0 sample_table = Inr ?tb"
    by (simp add: Compact_def sample_table_def MakeTable_def DeltaSnapshot_def ReplaceAll_def compact_delta_def rebuild_base_def Let_def)
  have segs: "tb_base_segments ?tb = [sample_segment]" by (simp add: sample_table_def)
  have "JoinPath ''c'' (segment_filename i) \<noteq> ''c/manifest.txt''" for i
  proof
    assume "JoinPath ''c'' (segment_filename i) = ''c/manifest.txt''"
    then have "last (JoinPath ''c'' (segment_filename i)) = last ''c/manifest.txt''" by (rule arg_cong)
    then show False by (simp add: JoinPath_def segment_filename_def)
  qed
  with WriteCheckpoint_reads_back [OF c, of "\<lambda>_. False" "''c''" "\<lambda>_. Written" "seg_schema sample_segment" "''c/manifest.txt''" 9 Map.empty]
  show ?thesis using sample_segment_savable by (simp add: segs)
qed

end
