(* ===== verification/Recovery.thy ===== *)
theory Recovery
  imports Checkpoint Wal
begin

text \<open>
  Crash recovery: \<^verbatim>\<open>recovery/recovery_manager.h\<close> and \<^verbatim>\<open>recovery/recovery_manager.cpp\<close>. \<open>Recover\<close> loads the
  checkpoint if there is one, reads the log, keeps the operations of committed transactions after the
  checkpoint, distributes them over workers by row id, and verifies the segments. The workers are threads: their
  actions interleave as a schedule says, and they are shown to finish.
\<close>

section \<open>The code\<close>

record RecoveryConfig =
  rc_wal_path :: path
  rc_checkpoint_manifest_path :: path
  rc_segment_dir :: path
  rc_num_workers :: u32

datatype RecoveryError = NoError | CheckpointLoadFailed LoadError | VerifyFailed "nat \<times> u32 \<times> u32"

record RecoveryStats =
  rs_checkpoint_found :: bool
  rs_checkpoint_lsn :: u64
  rs_records_read :: u64
  rs_committed_transactions :: u64
  rs_operations_replayed :: u64
  rs_truncated_tail :: bool
  rs_corrupt_tail :: bool
  rs_last_wal_lsn :: u64
  rs_num_workers :: u32
  rs_duration :: i64
  rs_checksum_verification_passed :: bool
  rs_error :: RecoveryError

definition default_RecoveryStats :: RecoveryStats where
  "default_RecoveryStats =
     \<lparr>rs_checkpoint_found = False, rs_checkpoint_lsn = 0, rs_records_read = 0, rs_committed_transactions = 0,
      rs_operations_replayed = 0, rs_truncated_tail = False, rs_corrupt_tail = False, rs_last_wal_lsn = 0,
      rs_num_workers = 1, rs_duration = 0, rs_checksum_verification_passed = True, rs_error = NoError\<rparr>"

text \<open>
  \<open>ApplyOp\<close>, taken apart into the actions that run under one mutex or as one atomic instruction: begin; append the
  version of an insertion and raise the row counter; claim the old version of an update or a deletion (the base
  does not change during recovery, so that looking the row up in it belongs to the claim) and append the new
  version of an update; commit. A worker is how far it is with its operation, and the operations that follow.
\<close>

datatype progress =
    Next
  | Began Transaction WalRecord
  | Stored Transaction u64
  | Claimed Transaction WalRecord
  | Applied Transaction

type_synonym worker = "progress \<times> WalRecord list"

definition append_version :: "Table \<Rightarrow> Transaction \<Rightarrow> WalRecord \<Rightarrow> Table" where
  "append_version tb txn op = tb\<lparr>tb_delta := DeltaInsert (tb_delta tb) (rec_row_id op) (txn_id txn) (rec_row op)\<rparr>"

definition claim_version :: "Table \<Rightarrow> Transaction \<Rightarrow> WalRecord \<Rightarrow> (bool \<times> Table) res" where
  "claim_version tb txn op =
     bind_res (RowIdExistsInBase tb (rec_row_id op)) (\<lambda>exists_in_base.
       let (result, recs) = ClaimOrInsertBaseTombstone (tb_delta tb) (rec_row_id op) txn (tb_txn_mgr tb) exists_in_base
       in Inr (result = kOk, tb\<lparr>tb_delta := recs\<rparr>))"

fun ApplyOp :: "worker \<Rightarrow> Table \<Rightarrow> (worker \<times> Table) res" where
  "ApplyOp (Next, []) tb = Inr ((Next, []), tb)"
| "ApplyOp (Next, op # ops) tb = (let (txn, tb) = TableBegin tb in Inr ((Began txn op, ops), tb))"
| "ApplyOp (Began txn op, ops) tb =
     (case rec_type op of
        kInsert \<Rightarrow> Inr ((Stored txn (rec_row_id op), ops), append_version tb txn op)
      | kUpdate \<Rightarrow> bind_res (claim_version tb txn op) (\<lambda>(ok, tb). Inr ((if ok then Claimed txn op else Applied txn, ops), tb))
      | kDelete \<Rightarrow> bind_res (claim_version tb txn op) (\<lambda>(_, tb). Inr ((Applied txn, ops), tb))
      | _ \<Rightarrow> Inr ((Applied txn, ops), tb))"
| "ApplyOp (Stored txn row_id, ops) tb = Inr ((Applied txn, ops), tb\<lparr>tb_next_row_id := bump (tb_next_row_id tb) row_id\<rparr>)"
| "ApplyOp (Claimed txn op, ops) tb = Inr ((Applied txn, ops), append_version tb txn op)"
| "ApplyOp (Applied txn, ops) tb = bind_res (TableCommit tb txn) (\<lambda>(_, tb). Inr ((Next, ops), tb))"

text \<open>The actions of an operation are those of the table's own operations.\<close>

lemma apply_parts:
  "snd (InsertWithRowId tb txn (rec_row_id op) (rec_row op)) =
    (append_version tb txn op)\<lparr>tb_next_row_id := bump (tb_next_row_id tb) (rec_row_id op)\<rparr>"
  "TableUpdate tb txn (rec_row_id op) (rec_row op) =
    bind_res (claim_version tb txn op) (\<lambda>(ok, tb). Inr (ok, if ok then append_version tb txn op else tb))"
  "TableDelete tb txn (rec_row_id op) = claim_version tb txn op"
  by (cases "RowIdExistsInBase tb (rec_row_id op)";
      simp add: InsertWithRowId_def append_version_def TableUpdate_def TableDelete_def claim_version_def Let_def split_beta)+

text \<open>
  The worker threads, from their start until all have been joined. The scheduler names the worker that acts next;
  when it names none that still has something to do, the first such worker acts.
\<close>

definition busy :: "worker \<Rightarrow> bool" where
  "busy w \<longleftrightarrow> w \<noteq> (Next, [])"

definition first_busy :: "worker list \<Rightarrow> nat option" where
  "first_busy ws = find (\<lambda>i. busy (ws ! i)) [0..<length ws]"

fun pick_worker :: "nat list \<Rightarrow> worker list \<Rightarrow> nat \<Rightarrow> nat" where
  "pick_worker [] ws i = i"
| "pick_worker (j # js) ws i = (if j < length ws \<and> busy (ws ! j) then j else i)"

fun actions_left :: "worker \<Rightarrow> nat" where
  "actions_left (Next, ops) = 4 * length ops"
| "actions_left (Began _ _, ops) = 4 * length ops + 3"
| "actions_left (Stored _ _, ops) = 4 * length ops + 2"
| "actions_left (Claimed _ _, ops) = 4 * length ops + 2"
| "actions_left (Applied _, ops) = 4 * length ops + 1"

lemma actions_left_step: "ApplyOp w tb = Inr (w', tb') \<Longrightarrow> busy w \<Longrightarrow> actions_left w' < actions_left w"
  by (cases "(w, tb)" rule: ApplyOp.cases) (auto simp: busy_def split: prod.splits WalRecordType.splits)

lemma first_busy_Some: "first_busy ws = Some i \<Longrightarrow> i < length ws \<and> busy (ws ! i)"
  by (auto simp: first_busy_def find_Some_iff)

lemma first_busy_None: "first_busy ws = None \<Longrightarrow> w \<in> set ws \<Longrightarrow> \<not> busy w"
  by (auto simp: first_busy_def find_None_iff in_set_conv_nth)

lemma pick_busy: "first_busy ws = Some i \<Longrightarrow> pick_worker sched ws i < length ws \<and> busy (ws ! pick_worker sched ws i)"
  by (cases sched) (auto dest: first_busy_Some)

function run_workers :: "nat list \<Rightarrow> worker list \<Rightarrow> Table \<Rightarrow> Table res" where
  "run_workers sched ws tb =
     (case first_busy ws of
        None \<Rightarrow> Inr tb
      | Some i \<Rightarrow>
          let w = pick_worker sched ws i in
          bind_res (ApplyOp (ws ! w) tb) (\<lambda>r. run_workers (tl sched) (ws[w := fst r]) (snd r)))"
  by pat_completeness auto
termination
proof (relation "measure (\<lambda>(sched, ws, tb). sum_list (map actions_left ws))", goal_cases)
  case (2 sched ws tb i w r)
  then have w: "w < length ws" "busy (ws ! w)" using pick_busy by auto
  have "actions_left (fst r) < actions_left (ws ! w)" using actions_left_step [OF _ w(2)] 2(3) by (cases r) auto
  moreover have "actions_left (ws ! w) \<le> sum_list (map actions_left ws)"
    using w(1) by (intro member_le_sum_list) auto
  ultimately show ?case using w(1) by (simp add: map_update sum_list_update)
qed simp

declare run_workers.simps [simp del]

text \<open>The segments of a checkpoint: all of them, or the first error.\<close>

fun load_segments :: "files \<Rightarrow> path \<Rightarrow> Schema \<Rightarrow> string list \<Rightarrow> LoadError failure + Segment list" where
  "load_segments fs dir schema [] = Inr []"
| "load_segments fs dir schema (filename # names) =
     bind_res (LoadFromFile fs (JoinPath dir filename) schema) (\<lambda>seg.
     bind_res (load_segments fs dir schema names) (\<lambda>segs. Inr (seg # segs)))"

definition committed_ids :: "WalRecord list \<Rightarrow> u64 list" where
  "committed_ids recs = remdups (map rec_txn_id (filter (\<lambda>r. rec_type r = kCommit) recs))"

definition replayed_ops :: "u64 \<Rightarrow> WalRecord list \<Rightarrow> WalRecord list" where
  "replayed_ops checkpoint_lsn recs =
     filter (\<lambda>r. \<not> rec_lsn r \<le> checkpoint_lsn \<and> rec_type r \<in> {kInsert, kUpdate, kDelete} \<and>
       rec_txn_id r \<in> set (committed_ids recs)) recs"

definition shard_ops :: "u32 \<Rightarrow> WalRecord list \<Rightarrow> WalRecord list list" where
  "shard_ops num_workers ops =
     foldl (\<lambda>shards op. let w = unat (rec_row_id op mod ucast num_workers) in shards[w := shards ! w @ [op]])
       (replicate (unat num_workers) []) ops"

definition verify_segment :: "Segment \<Rightarrow> RecoveryStats \<Rightarrow> RecoveryStats res" where
  "verify_segment seg stats =
     bind_res (VerifyIntegrity seg) (\<lambda>bad.
       case bad of
         None \<Rightarrow> Inr stats
       | Some e \<Rightarrow> Inr (stats\<lparr>rs_checksum_verification_passed := False, rs_error := VerifyFailed e\<rparr>))"

text \<open>
  After the checkpoint has been dealt with: read the log, replay, verify. \<open>sched\<close> is the order in which the
  worker threads act.
\<close>

definition replay_log ::
  "nat list \<Rightarrow> bool \<Rightarrow> files \<Rightarrow> i64 \<Rightarrow> RecoveryConfig \<Rightarrow> u64 \<Rightarrow> RecoveryStats \<Rightarrow> Table \<Rightarrow>
   (RecoveryStats \<times> Table) res" where
  "replay_log sched size_ec fs duration config checkpoint_lsn stats tb =
     (let wal_result = ReadAll size_ec fs (rc_wal_path config);
          recs = wr_records wal_result;
          ops = replayed_ops checkpoint_lsn recs;
          stats = stats\<lparr>rs_records_read := of_nat (length recs),
                        rs_truncated_tail := wr_truncated_tail wal_result,
                        rs_corrupt_tail := wr_corrupt_record wal_result,
                        rs_last_wal_lsn := max (wr_last_valid_lsn wal_result) checkpoint_lsn,
                        rs_committed_transactions := of_nat (length (committed_ids recs)),
                        rs_operations_replayed := of_nat (length ops)\<rparr>
      in bind_res (run_workers sched (map (Pair Next) (shard_ops (rs_num_workers stats) ops)) tb) (\<lambda>tb.
         bind_res (fold_res verify_segment (tb_base_segments tb) stats) (\<lambda>stats.
           Inr (stats\<lparr>rs_duration := duration\<rparr>, tb))))"

definition Recover ::
  "nat list \<Rightarrow> bool \<Rightarrow> files \<Rightarrow> i64 \<Rightarrow> RecoveryConfig \<Rightarrow> Table \<Rightarrow> (RecoveryStats \<times> Table) res" where
  "Recover sched size_ec fs duration config tb =
     (let stats = default_RecoveryStats\<lparr>rs_num_workers := max 1 (rc_num_workers config)\<rparr> in
      case LoadManifest fs (rc_checkpoint_manifest_path config) of
        Inl _ \<Rightarrow> replay_log sched size_ec fs duration config 0 stats tb
      | Inr m \<Rightarrow>
          let stats = stats\<lparr>rs_checkpoint_found := True, rs_checkpoint_lsn := mf_last_lsn m\<rparr> in
          (case load_segments fs (rc_segment_dir config) (tb_full_schema tb) (mf_segment_files m) of
             Inl (Throws e) \<Rightarrow> Inl e
           | Inl (Rejects err) \<Rightarrow> Inr (stats\<lparr>rs_error := CheckpointLoadFailed err\<rparr>, tb)
           | Inr segs \<Rightarrow>
               bind_res (LoadBaseSegments segs tb) (replay_log sched size_ec fs duration config (mf_last_lsn m) stats)))"

end
