(* ===== verification/Replay.thy ===== *)
theory Replay
  imports Recovery Compaction
begin

text \<open>
  What recovery computes. A table represents a map from row ids to rows. Worker threads apply logged operations to
  it, in actions that interleave; no two workers have operations on the same row. The laws of such a store
  are a locale, from which follows that every schedule leads to the same map: the one that the
  operations in log order lead to. The table under recovery interprets it.
\<close>

section \<open>Replay of keyed operations\<close>

fun log_ok :: "('op \<Rightarrow> 'v option \<Rightarrow> 'v option) \<Rightarrow> ('op \<Rightarrow> 'v option \<Rightarrow> bool) \<Rightarrow> 'op list \<Rightarrow> 'v option \<Rightarrow> bool" where
  "log_ok cell adm [] c = True"
| "log_ok cell adm (op # ops) c = (adm op c \<and> log_ok cell adm ops (cell op c))"

definition replay_map :: "('op \<Rightarrow> 'k) \<Rightarrow> ('op \<Rightarrow> 'v option \<Rightarrow> 'v option) \<Rightarrow> 'op list \<Rightarrow> ('k \<Rightarrow> 'v option) \<Rightarrow> 'k \<Rightarrow> 'v option" where
  "replay_map key cell ops m x = fold cell (filter (\<lambda>op. key op = x) ops) (m x)"

lemma replay_map_Nil [simp]: "replay_map key cell [] m = m"
  by (simp add: replay_map_def fun_eq_iff)

lemma replay_map_Cons:
  "replay_map key cell (op # ops) m = replay_map key cell ops (m(key op := cell op (m (key op))))"
  by (simp add: replay_map_def fun_eq_iff)

text \<open>
  A store that several workers replay into. A worker has operations left to apply; no two workers have operations
  on the same key left. The law: an action of a worker that is not finished succeeds, and for every key
  the operations left lead from the new content to where they led from the old one; keys on
  which the worker has nothing left are not touched.
\<close>

locale replay_store =
  fixes act :: "'w \<Rightarrow> 's \<Rightarrow> ('w \<times> 's) res" and unfinished :: "'w \<Rightarrow> bool" and left :: "'w \<Rightarrow> 'op list" and key :: "'op \<Rightarrow> 'k"
    and cell :: "'op \<Rightarrow> 'v option \<Rightarrow> 'v option" and adm :: "'op \<Rightarrow> 'v option \<Rightarrow> bool"
    and ok :: "'w list \<Rightarrow> 's \<Rightarrow> bool" and view :: "'s \<Rightarrow> 'k \<Rightarrow> 'v option"
  assumes act_refines: "ok ws s \<Longrightarrow> i < length ws \<Longrightarrow> unfinished (ws ! i) \<Longrightarrow>
      (\<And>x. log_ok cell adm (filter (\<lambda>op. key op = x) (left (ws ! i))) (view s x)) \<Longrightarrow>
      \<exists>w' s'. act (ws ! i) s = Inr (w', s') \<and> ok (ws[i := w']) s' \<and>
        (\<forall>x. log_ok cell adm (filter (\<lambda>op. key op = x) (left w')) (view s' x) \<and>
           fold cell (filter (\<lambda>op. key op = x) (left w')) (view s' x) =
             fold cell (filter (\<lambda>op. key op = x) (left (ws ! i))) (view s x)) \<and>
        (\<forall>x. x \<notin> key ` set (left (ws ! i)) \<longrightarrow> x \<notin> key ` set (left w') \<and> view s' x = view s x)"
    and ok_apart: "ok ws s \<Longrightarrow> i < length ws \<Longrightarrow> j < length ws \<Longrightarrow> i \<noteq> j \<Longrightarrow>
      key ` set (left (ws ! i)) \<inter> key ` set (left (ws ! j)) = {}"
    and finished_left: "\<not> unfinished w \<Longrightarrow> left w = []"
begin

text \<open>The store is on its way to a given content.\<close>

definition heading :: "('k \<Rightarrow> 'v option) \<Rightarrow> 'w list \<Rightarrow> 's \<Rightarrow> bool" where
  "heading goal ws s \<longleftrightarrow>
     (\<forall>i<length ws. \<forall>x. log_ok cell adm (filter (\<lambda>op. key op = x) (left (ws ! i))) (view s x) \<and>
        (x \<in> key ` set (left (ws ! i)) \<longrightarrow> fold cell (filter (\<lambda>op. key op = x) (left (ws ! i))) (view s x) = goal x)) \<and>
     (\<forall>x. (\<forall>w\<in>set ws. x \<notin> key ` set (left w)) \<longrightarrow> view s x = goal x)"

lemma heading_act:
  assumes "ok ws s" "heading goal ws s" "i < length ws" "unfinished (ws ! i)"
  shows "\<exists>w' s'. act (ws ! i) s = Inr (w', s') \<and> ok (ws[i := w']) s' \<and> heading goal (ws[i := w']) s'"
proof -
  let ?at = "\<lambda>x w. filter (\<lambda>op. key op = x) (left w)" and ?keys = "\<lambda>w. key ` set (left w)"
  have "\<And>x. log_ok cell adm (?at x (ws ! i)) (view s x)" using assms(2,3) by (simp add: heading_def)
  from act_refines [OF assms(1,3,4) this] obtain w' s' where a: "act (ws ! i) s = Inr (w', s')" "ok (ws[i := w']) s'"
    "\<And>x. log_ok cell adm (?at x w') (view s' x)" "\<And>x. fold cell (?at x w') (view s' x) = fold cell (?at x (ws ! i)) (view s x)"
    "\<And>x. x \<notin> ?keys (ws ! i) \<Longrightarrow> x \<notin> ?keys w' \<and> view s' x = view s x" by auto
  have none: "?at x w = []" if "x \<notin> ?keys w" for x w using that by (auto simp: filter_empty_conv)
  have others: "log_ok cell adm (?at x (ws ! j)) (view s' x) \<and> (x \<in> ?keys (ws ! j) \<longrightarrow> fold cell (?at x (ws ! j)) (view s' x) = goal x)"
    if "j < length ws" "j \<noteq> i" for j x
  proof (cases "x \<in> ?keys (ws ! j)")
    case True
    then have "view s' x = view s x" using ok_apart [OF assms(1,3) that(1)] that(2) a(5) by blast
    then show ?thesis using assms(2) that(1) by (simp add: heading_def)
  next
    case False
    with none show ?thesis by simp
  qed
  have self: "fold cell (?at x w') (view s' x) = goal x" if "x \<in> ?keys (ws ! i)" for x
    using assms(2,3) that a(4) by (simp add: heading_def)
  have "view s' x = goal x" if "\<forall>w\<in>set (ws[i := w']). x \<notin> ?keys w" for x
  proof (cases "x \<in> ?keys (ws ! i)")
    case True
    have "x \<notin> ?keys w'" using that assms(3) by (meson set_update_memI)
    with self [OF True] none show ?thesis by simp
  next
    case False
    have "x \<notin> ?keys w" if w: "w \<in> set ws" for w
    proof -
      obtain j where j: "j < length ws" "w = ws ! j" using w by (auto simp: in_set_conv_nth)
      then have "j \<noteq> i \<Longrightarrow> w \<in> set (ws[i := w'])" by (metis length_list_update nth_list_update_neq nth_mem)
      with False j \<open>\<forall>w\<in>set (ws[i := w']). x \<notin> ?keys w\<close> show ?thesis by blast
    qed
    with False a(5) assms(2) show ?thesis by (auto simp: heading_def)
  qed
  moreover have "log_ok cell adm (?at x (ws[i := w'] ! j)) (view s' x) \<and>
      (x \<in> ?keys (ws[i := w'] ! j) \<longrightarrow> fold cell (?at x (ws[i := w'] ! j)) (view s' x) = goal x)" if "j < length ws" for j x
  proof (cases "j = i")
    case True
    have "x \<in> ?keys w' \<Longrightarrow> x \<in> ?keys (ws ! i)" using a(5) by blast
    with True that a(3) self show ?thesis by simp
  next
    case False
    with others [OF that] show ?thesis by simp
  qed
  ultimately have "heading goal (ws[i := w']) s'" by (simp add: heading_def)
  with a show ?thesis by blast
qed

lemma heading_done: "heading goal ws s \<Longrightarrow> (\<And>w. w \<in> set ws \<Longrightarrow> \<not> unfinished w) \<Longrightarrow> view s = goal"
  using finished_left by (fastforce simp: heading_def)

end

section \<open>Workers\<close>

lemma shard_index: "0 < num_workers \<Longrightarrow> unat (x mod ucast num_workers) < unat num_workers" for num_workers :: u32 and x :: u64
proof -
  assume "0 < num_workers"
  have "unat num_workers < 2 ^ LENGTH(32)" by (rule unsigned_less)
  then have "unat num_workers < 2 ^ 64" by simp
  then have "take_bit 64 (unat num_workers) = unat num_workers" by (rule take_bit_nat_eq_self)
  with \<open>0 < num_workers\<close> show ?thesis by (simp add: unat_mod_distrib unsigned_ucast_eq word_less_nat_alt)
qed

lemma shard_ops_snoc:
  "shard_ops nw (ops @ [op]) =
    (let w = unat (rec_row_id op mod ucast nw) in (shard_ops nw ops)[w := shard_ops nw ops ! w @ [op]])"
  by (simp add: shard_ops_def Let_def)

lemma shard_ops_length [simp]: "length (shard_ops nw ops) = unat nw"
  by (induction ops rule: rev_induct) (simp_all add: shard_ops_snoc Let_def, simp add: shard_ops_def)

lemma shard_ops_nth:
  assumes "0 < nw" "w < unat nw"
  shows "shard_ops nw ops ! w = filter (\<lambda>op. unat (rec_row_id op mod ucast nw) = w) ops"
proof (induction ops rule: rev_induct)
  case (snoc op ops)
  then show ?case using shard_index [OF assms(1), of "rec_row_id op"] assms(2) by (auto simp: shard_ops_snoc Let_def nth_list_update)
qed (use assms(2) in \<open>simp add: shard_ops_def\<close>)

lemma shard_ops_size: "0 < nw \<Longrightarrow> sum_list (map length (shard_ops nw ops)) = length ops"
proof (induction ops rule: rev_induct)
  case (snoc op ops)
  let ?w = "unat (rec_row_id op mod ucast nw)" and ?n = "map length (shard_ops nw ops)"
  have w: "?w < length ?n" using shard_index [OF snoc.prems] by simp
  then have "?n ! ?w \<le> sum_list ?n" by (intro elem_le_sum_list)
  with w snoc show ?case by (simp add: shard_ops_snoc Let_def map_update sum_list_update)
qed (simp add: shard_ops_def map_replicate_const sum_list_replicate)

section \<open>Tables at rest\<close>

abbreviation committed :: "TransactionManager \<Rightarrow> u64 \<Rightarrow> bool" where
  "committed tm i \<equiv> st_state (GetStatus tm i) = kCommitted"

definition live :: "DeltaRecord \<Rightarrow> bool" where
  "live r \<longleftrightarrow> \<not> dr_is_base_tombstone r \<and> dr_deleted_txn r = 0"

definition live_of :: "DeltaRecord list \<Rightarrow> u64 \<Rightarrow> DeltaRecord list" where
  "live_of recs x = filter (\<lambda>r. live r \<and> dr_row_id r = x) recs"

definition buried :: "DeltaRecord list \<Rightarrow> u64 \<Rightarrow> bool" where
  "buried recs x \<longleftrightarrow> (\<exists>r\<in>set recs. dr_is_base_tombstone r \<and> dr_row_id r = x)"

definition row_view :: "(u64 \<times> Row) list \<Rightarrow> DeltaRecord list \<Rightarrow> u64 \<Rightarrow> Row option" where
  "row_view irs recs x =
     (if live_of recs x \<noteq> [] then Some (dr_row (last (live_of recs x)))
      else if buried recs x then None else map_of irs x)"

definition resolved_by :: "(u64 \<Rightarrow> bool) \<Rightarrow> DeltaRecord \<Rightarrow> bool" where
  "resolved_by ended r \<longleftrightarrow>
     (if dr_is_base_tombstone r then dr_created_txn r = 0 \<and> dr_deleted_txn r \<noteq> 0
      else dr_created_txn r \<noteq> 0 \<and> ended (dr_created_txn r)) \<and>
     (dr_deleted_txn r \<noteq> 0 \<longrightarrow> ended (dr_deleted_txn r))"

abbreviation resolved :: "TransactionManager \<Rightarrow> DeltaRecord \<Rightarrow> bool" where
  "resolved tm \<equiv> resolved_by (committed tm)"

lemma resolved_by_mono: "resolved_by P r \<Longrightarrow> (\<And>i. P i \<Longrightarrow> Q i) \<Longrightarrow> resolved_by Q r"
  by (auto simp: resolved_by_def split: if_splits)

text \<open>Versions of a row: at most one is live, and a touched base row has its tombstone.\<close>

definition versions_ok :: "(u64 \<times> Row) list \<Rightarrow> DeltaRecord list \<Rightarrow> bool" where
  "versions_ok irs recs \<longleftrightarrow>
     (\<forall>x. length (live_of recs x) \<le> 1) \<and>
     (\<forall>r\<in>set recs. dr_row_id r \<in> fst ` set irs \<longrightarrow> buried recs (dr_row_id r))"

definition table_at_rest :: "(u64 \<times> Row) list \<Rightarrow> nat \<Rightarrow> Table \<Rightarrow> bool" where
  "table_at_rest irs n tb \<longleftrightarrow>
     tm_inv (tb_txn_mgr tb, []) \<and> unat (tm_next_id (tb_txn_mgr tb)) + 2 * n < 2 ^ 64 - 1 \<and>
     base_holds (tb_base_segments tb) irs \<and> distinct (map fst irs) \<and>
     (\<forall>r\<in>set (tb_delta tb). resolved (tb_txn_mgr tb) r) \<and> versions_ok irs (tb_delta tb)"

lemma live_of_append [simp]: "live_of (xs @ ys) x = live_of xs x @ live_of ys x"
  by (simp add: live_of_def)

lemma live_of_Cons: "live_of (r # rs) x = (if live r \<and> dr_row_id r = x then r # live_of rs x else live_of rs x)"
  by (simp add: live_of_def)

lemma live_of_Nil [simp]: "live_of [] x = []"
  by (simp add: live_of_def)

lemma buried_append [simp]: "buried (xs @ ys) x \<longleftrightarrow> buried xs x \<or> buried ys x"
  by (auto simp: buried_def)

lemma view_insert:
  assumes "live_of recs x = []" "i \<noteq> 0"
  shows "row_view irs (DeltaInsert recs x i row) = (row_view irs recs)(x \<mapsto> row)"
  using assms by (auto simp: row_view_def DeltaInsert_def live_of_Cons live_def buried_def fun_eq_iff)

lemma versions_insert:
  assumes "versions_ok irs recs" "live_of recs x = []" "x \<in> fst ` set irs \<Longrightarrow> buried recs x"
  shows "versions_ok irs (DeltaInsert recs x i row)"
  using assms by (auto simp: versions_ok_def DeltaInsert_def live_of_Cons buried_def)

text \<open>The judgement of a fresh writer on resolved versions.\<close>

lemma fresh_writer:
  assumes "tm_inv (tm, act)" "tm_next_id tm \<noteq> - 1" "TxnBegin tm = (w, tm1)"
  shows "tm_inv (tm1, w # act)" "txn_id w = tm_next_id tm" "tm_next_id tm1 = tm_next_id tm + 1"
    "committed tm1 i = committed tm i" "committed_by tm1 i (snapshot_ts w) = committed tm i"
    "committed tm i \<Longrightarrow> i \<noteq> txn_id w" "txn_id w \<noteq> 0"
proof -
  have "txn_step (tm, act) (tm1, w # act)" using step_begin [OF assms(2,3), of act] .
  with assms(1) show "tm_inv (tm1, w # act)" by (rule tm_inv_step [rotated])
  show w: "txn_id w = tm_next_id tm" "tm_next_id tm1 = tm_next_id tm + 1"
    using assms(3) by (auto simp: TxnBegin_def Let_def)
  have st: "tm_status tm1 = tm_status tm" "snapshot_ts w = tm_last_commit_ts tm"
    using assms(3) by (auto simp: TxnBegin_def Let_def)
  show "committed tm1 i = committed tm i" by (simp add: GetStatus_def st)
  show "committed_by tm1 i (snapshot_ts w) = committed tm i"
    using assms(1) by (auto simp: committed_by_def GetStatus_def st tm_inv_def split: option.splits)
  show "committed tm i \<Longrightarrow> i \<noteq> txn_id w" using assms(1) by (auto simp: w GetStatus_def tm_inv_def split: option.splits)
  show "txn_id w \<noteq> 0" using assms(1) by (auto simp: w tm_inv_def)
qed

text \<open>A writer whose snapshot covers the versions of a row takes the live one and passes over the others.\<close>

abbreviation covered :: "TransactionManager \<Rightarrow> Transaction \<Rightarrow> DeltaRecord \<Rightarrow> bool" where
  "covered tm w \<equiv> resolved_by (\<lambda>i. committed_by tm i (snapshot_ts w))"

lemma committed_by_committed: "committed_by tm i ts \<Longrightarrow> committed tm i"
  by (simp add: committed_by_def Let_def)

lemma covered_judge:
  assumes "covered tm w r" "tm_status tm (txn_id w) = None" "txn_id w \<noteq> 0"
  shows "judge r w tm = (if live r then Claim else Skip)"
proof -
  have other: "i \<noteq> txn_id w" if "committed tm i" for i using that assms(2) by (auto simp: GetStatus_def)
  show ?thesis
  proof (cases "dr_deleted_txn r = 0")
    case True
    with assms(1) have r: "\<not> dr_is_base_tombstone r" "committed_by tm (dr_created_txn r) (snapshot_ts w)"
      by (auto simp: resolved_by_def split: if_splits)
    then have "IsVisible r w tm" using True by (simp add: IsVisible_alt sees_def)
    with True r assms(3) show ?thesis by (simp add: judge_def live_def)
  next
    case False
    with assms(1) have "committed tm (dr_deleted_txn r)" by (auto simp: resolved_by_def intro: committed_by_committed)
    with False other show ?thesis by (auto simp: judge_def live_def)
  qed
qed

text \<open>The two ways to remove a row from the view: burying the base row, or deleting the live version.\<close>

lemma view_buried:
  assumes "versions_ok irs recs" "\<forall>r\<in>set recs. dr_row_id r \<noteq> x" "live_of recs x = []" "recs' = recs @ [base_tombstone x w]"
  shows "row_view irs recs' = (row_view irs recs)(x := None)" "live_of recs' x = []" "versions_ok irs recs'" "buried recs' x"
proof -
  have bur: "buried recs' y \<longleftrightarrow> buried recs y \<or> y = x" for y by (auto simp: assms(4) buried_def base_tombstone_def)
  have "\<not> live (base_tombstone x w)" by (simp add: live_def base_tombstone_def)
  then have liv: "live_of recs' y = live_of recs y" for y by (simp add: assms(4) live_of_Cons)
  show "row_view irs recs' = (row_view irs recs)(x := None)"
    using assms(3) unfolding row_view_def fun_upd_def liv bur fun_eq_iff by auto
  show "live_of recs' x = []" "buried recs' x" using assms(3) unfolding liv bur by simp_all
  show "versions_ok irs recs'" using assms(1) unfolding versions_ok_def liv bur by (auto simp: assms(4) base_tombstone_def)
qed

lemma view_deleted:
  assumes "versions_ok irs recs" "recs = older @ r # newer" "live r" "dr_row_id r = x" "i \<noteq> 0"
    and "recs' = older @ r\<lparr>dr_deleted_txn := i\<rparr> # newer"
  shows "row_view irs recs' = (row_view irs recs)(x := None)" "live_of recs' x = []" "versions_ok irs recs'"
    "x \<in> fst ` set irs \<Longrightarrow> buried recs' x"
proof -
  have "length (live_of recs x) \<le> 1" using assms(1) by (simp add: versions_ok_def)
  then have "live_of older x = []" "live_of newer x = []" using assms(2-4) by (auto simp: live_of_Cons)
  then have liv: "live_of recs' y = (if y = x then [] else live_of recs y)" for y
    using assms(2-6) by (auto simp: live_of_Cons live_def)
  have bur: "buried recs' y = buried recs y" for y using assms(2,6) by (auto simp: buried_def)
  have base: "x \<in> fst ` set irs \<Longrightarrow> buried recs x" using assms(1,2,4) by (auto simp: versions_ok_def)
  then show "x \<in> fst ` set irs \<Longrightarrow> buried recs' x" by (simp add: bur)
  show "row_view irs recs' = (row_view irs recs)(x := None)"
    using base by (auto simp: row_view_def fun_eq_iff liv bur map_of_eq_None_iff)
  show "live_of recs' x = []" by (simp add: liv)
  have ids: "dr_row_id ` set recs' = dr_row_id ` set recs" using assms(2,6) by auto
  have "buried recs (dr_row_id q)" if "q \<in> set recs'" "dr_row_id q \<in> fst ` set irs" for q
  proof -
    from that(1) have "dr_row_id q \<in> dr_row_id ` set recs" unfolding ids [symmetric] by (rule imageI)
    then obtain r' where "r' \<in> set recs" "dr_row_id r' = dr_row_id q" by auto
    with assms(1) that(2) show ?thesis unfolding versions_ok_def by metis
  qed
  then show "versions_ok irs recs'" using assms(1) unfolding versions_ok_def liv bur by simp
qed

lemma view_none:
  assumes "versions_ok irs recs" "live_of recs x = []" "(\<exists>r\<in>set recs. dr_row_id r = x) \<or> x \<notin> fst ` set irs"
  shows "row_view irs recs x = None"
proof (cases "x \<in> fst ` set irs")
  case True
  with assms(1,3) have "buried recs x" unfolding versions_ok_def by blast
  with assms(2) show ?thesis by (simp add: row_view_def)
next
  case False
  then have "map_of irs x = None" by (simp add: map_of_eq_None_iff)
  with assms(2) show ?thesis by (simp add: row_view_def)
qed

text \<open>What such a writer's claim does, with and without a live version of the row.\<close>

lemma covered_claim_dead:
  assumes "tm_status tm (txn_id w) = None" "txn_id w \<noteq> 0" "\<forall>r\<in>set recs. dr_row_id r = x \<longrightarrow> covered tm w r" "live_of recs x = []"
  shows "ClaimOrInsertBaseTombstone recs x w tm b =
    (if \<not> (\<exists>r\<in>set recs. dr_row_id r = x) \<and> b then (kOk, recs @ [base_tombstone x w]) else (kNotFound, recs))"
proof -
  have "\<forall>r\<in>set (rev recs). passed_over x w tm r"
    using assms(3,4) covered_judge [OF _ assms(1,2)] by (auto simp: passed_over_def live_of_def filter_empty_conv)
  then have d: "dropWhile (passed_over x w tm) (rev recs) = []" by (simp only: dropWhile_eq_Nil_conv)
  show ?thesis unfolding ClaimOrInsertBaseTombstone_def claim_loop_cases d by simp
qed

lemma covered_claim_live:
  assumes "tm_status tm (txn_id w) = None" "txn_id w \<noteq> 0" "\<forall>r\<in>set recs. dr_row_id r = x \<longrightarrow> covered tm w r" "live_of recs x \<noteq> []"
  obtains older r newer where "recs = older @ r # newer" "live r" "dr_row_id r = x"
    "ClaimOrInsertBaseTombstone recs x w tm b = (kOk, older @ r\<lparr>dr_deleted_txn := txn_id w\<rparr> # newer)"
proof -
  have judge: "judge r w tm = (if live r then Claim else Skip)" if "r \<in> set recs" "dr_row_id r = x" for r
    using covered_judge [OF _ assms(1,2)] assms(3) that by blast
  obtain r where r: "r \<in> set recs" "live r" "dr_row_id r = x" using assms(4) by (auto simp: live_of_def filter_empty_conv)
  have "\<not> passed_over x w tm r" using r judge by (simp add: passed_over_def)
  with r(1) have "dropWhile (passed_over x w tm) (rev recs) \<noteq> []" by (auto simp: dropWhile_eq_Nil_conv)
  then obtain r0 older where d: "dropWhile (passed_over x w tm) (rev recs) = r0 # older" by (meson neq_Nil_conv)
  then have "r0 \<in> set recs" by (metis set_dropWhileD list.set_intros(1) set_rev)
  moreover have "\<not> passed_over x w tm r0" using d by (simp add: dropWhile_eq_Cons_conv)
  ultimately have "judge r0 w tm = Claim" using judge by (auto simp: passed_over_def split: if_splits)
  with d obtain recs' where claim: "ClaimOrInsertBaseTombstone recs x w tm b = (kOk, recs')"
    by (simp add: ClaimOrInsertBaseTombstone_def claim_loop_cases)
  then show thesis
  proof (cases rule: claim_ok_cases)
    case (claimed older r1 newer)
    moreover have "live r1" using judge [of r1] claimed by (auto split: if_splits)
    ultimately show thesis using claim by (intro that [of older r1 newer]) simp_all
  next
    case tombstone
    with r show thesis by auto
  qed
qed

lemma covered_claim:
  assumes "tm_status tm (txn_id w) = None" "txn_id w \<noteq> 0" "\<forall>r\<in>set recs. dr_row_id r = x \<longrightarrow> covered tm w r"
    and "versions_ok irs recs" "b \<longleftrightarrow> x \<in> fst ` set irs"
  obtains (refused) "ClaimOrInsertBaseTombstone recs x w tm b = (kNotFound, recs)" "row_view irs recs x = None" "live_of recs x = []"
  | (granted) recs' where "ClaimOrInsertBaseTombstone recs x w tm b = (kOk, recs')" "row_view irs recs x \<noteq> None"
      "row_view irs recs' = (row_view irs recs)(x := None)" "live_of recs' x = []" "versions_ok irs recs'"
      "x \<in> fst ` set irs \<Longrightarrow> buried recs' x"
      "\<forall>r\<in>set recs'. dr_row_id r = x \<longrightarrow> resolved_by (\<lambda>i. committed tm i \<or> i = txn_id w) r"
      "\<forall>r\<in>set recs'. dr_row_id r \<noteq> x \<longrightarrow> r \<in> set recs"
proof (cases "live_of recs x = []")
  case True
  note claim = covered_claim_dead [OF assms(1-3) True, of b]
  show thesis
  proof (cases "(\<exists>r\<in>set recs. dr_row_id r = x) \<or> \<not> b")
    case refuse: True
    with view_none [OF assms(4) True] assms(5) claim True refused show thesis by auto
  next
    case False
    then have f: "\<forall>r\<in>set recs. dr_row_id r \<noteq> x" "x \<in> fst ` set irs" using assms(5) by auto
    have "map_of irs x \<noteq> None" using f(2) by (simp add: map_of_eq_None_iff)
    then have view: "row_view irs recs x \<noteq> None" using True f(1) by (auto simp: row_view_def buried_def)
    have "resolved_by (\<lambda>i. committed tm i \<or> i = txn_id w) (base_tombstone x w)"
      using assms(2) by (simp add: resolved_by_def base_tombstone_def)
    then have "\<forall>r\<in>set (recs @ [base_tombstone x w]). dr_row_id r = x \<longrightarrow> resolved_by (\<lambda>i. committed tm i \<or> i = txn_id w) r"
      using f(1) by auto
    moreover have "dr_row_id (base_tombstone x w) = x" by (simp add: base_tombstone_def)
    ultimately show thesis using view_buried [OF assms(4) f(1) True refl] view claim False by (intro granted) auto
  qed
next
  case False
  obtain older r newer where r: "recs = older @ r # newer" "live r" "dr_row_id r = x"
    and claim: "ClaimOrInsertBaseTombstone recs x w tm b = (kOk, older @ r\<lparr>dr_deleted_txn := txn_id w\<rparr> # newer)"
    using covered_claim_live [OF assms(1-3) False] by blast
  have "resolved_by (\<lambda>i. committed tm i \<or> i = txn_id w) (r\<lparr>dr_deleted_txn := txn_id w\<rparr>)"
    using assms(3) r by (auto simp: resolved_by_def live_def intro: committed_by_committed)
  moreover have "resolved_by (\<lambda>i. committed tm i \<or> i = txn_id w) q" if "covered tm w q" for q
    using that by (rule resolved_by_mono) (simp add: committed_by_committed)
  ultimately have res: "\<forall>q\<in>set (older @ r\<lparr>dr_deleted_txn := txn_id w\<rparr> # newer). dr_row_id q = x \<longrightarrow>
      resolved_by (\<lambda>i. committed tm i \<or> i = txn_id w) q"
    using assms(3) r(1) by auto
  have "row_view irs recs x \<noteq> None" using False by (simp add: row_view_def)
  from granted [OF claim this view_deleted [OF assms(4) r assms(2) refl] res] r show thesis by simp
qed

section \<open>One logged operation\<close>

definition row_cell :: "WalRecord \<Rightarrow> Row option \<Rightarrow> Row option" where
  "row_cell op c =
     (case rec_type op of
        kInsert \<Rightarrow> Some (rec_row op)
      | kUpdate \<Rightarrow> (case c of None \<Rightarrow> None | Some _ \<Rightarrow> Some (rec_row op))
      | kDelete \<Rightarrow> None
      | _ \<Rightarrow> c)"

definition row_adm :: "WalRecord \<Rightarrow> Row option \<Rightarrow> bool" where
  "row_adm op c \<longleftrightarrow> (rec_type op = kInsert \<longrightarrow> c = None)"

lemma unat_next: "unat x < 2 ^ 64 - 1 \<Longrightarrow> x \<noteq> - 1 \<and> unat (x + 1) = unat x + 1" for x :: u64
proof -
  assume "unat x < 2 ^ 64 - 1"
  moreover have "unat (- 1 :: u64) = 2 ^ 64 - 1" by (simp add: unsigned_minus_1_eq_mask mask_eq_exp_minus_1)
  ultimately have "x \<noteq> - 1" by (metis less_irrefl)
  then show ?thesis by (metis add.commute add_eq_0_iff Suc_eq_plus1 unatSuc)
qed

text \<open>
  A worker between its actions: the transaction it holds, the operations it has left (an update that has
  claimed the old version has an insertion left), the transactions whose writes to the rows of those
  operations have ended for it, and the identifiers it still needs.
\<close>

fun handles :: "progress \<Rightarrow> Transaction list" where
  "handles Next = []"
| "handles (Began t _) = [t]"
| "handles (Stored t _) = [t]"
| "handles (Claimed t _) = [t]"
| "handles (Applied t) = [t]"

fun left :: "worker \<Rightarrow> WalRecord list" where
  "left (Began _ op, ops) = op # ops"
| "left (Claimed _ op, ops) = op\<lparr>rec_type := kInsert\<rparr> # ops"
| "left (_, ops) = ops"

fun ended :: "TransactionManager \<Rightarrow> progress \<Rightarrow> u64 \<Rightarrow> bool" where
  "ended tm Next i = committed tm i"
| "ended tm (Began t _) i = committed_by tm i (snapshot_ts t)"
| "ended tm (Stored t _) i = (committed tm i \<or> i = txn_id t)"
| "ended tm (Claimed t _) i = (committed tm i \<or> i = txn_id t)"
| "ended tm (Applied t) i = (committed tm i \<or> i = txn_id t)"

definition ids_needed :: "worker \<Rightarrow> nat" where
  "ids_needed w = 2 * length (snd w) + length (handles (fst w))"

abbreviation rows_left :: "worker \<Rightarrow> u64 set" where
  "rows_left w \<equiv> rec_row_id ` set (left w)"

definition active :: "worker list \<Rightarrow> Transaction list" where
  "active ws = concat (map (\<lambda>w. handles (fst w)) ws)"

definition replaying :: "(u64 \<times> Row) list \<Rightarrow> worker list \<Rightarrow> Table \<Rightarrow> bool" where
  "replaying irs ws tb \<longleftrightarrow>
     tm_inv (tb_txn_mgr tb, active ws) \<and> unat (tm_next_id (tb_txn_mgr tb)) + sum_list (map ids_needed ws) < 2 ^ 64 - 1 \<and>
     base_holds (tb_base_segments tb) irs \<and> distinct (map fst irs) \<and> versions_ok irs (tb_delta tb) \<and>
     (\<forall>r\<in>set (tb_delta tb). resolved_by (\<lambda>i. committed (tb_txn_mgr tb) i \<or> i \<in> txn_id ` set (active ws)) r) \<and>
     (\<forall>w\<in>set ws. \<forall>r\<in>set (tb_delta tb). dr_row_id r \<in> rows_left w \<longrightarrow> resolved_by (ended (tb_txn_mgr tb) (fst w)) r) \<and>
     (\<forall>i<length ws. \<forall>j<length ws. i \<noteq> j \<longrightarrow> rows_left (ws ! i) \<inter> rows_left (ws ! j) = {})"

lemma tm_inv_perm: "mset act = mset act' \<Longrightarrow> tm_inv (tm, act) \<longleftrightarrow> tm_inv (tm, act')"
proof -
  assume m: "mset act = mset act'"
  then have "set act = set act'" by (rule mset_eq_setD)
  moreover have "distinct (map txn_id act) \<longleftrightarrow> distinct (map txn_id act')"
    using m by (metis mset_map mset_eq_imp_distinct_iff)
  ultimately show ?thesis using m by (simp add: tm_inv_def)
qed

lemma active_update:
  assumes "i < length ws"
  shows "mset (active (ws[i := w'])) = mset (active ws) - mset (handles (fst (ws ! i))) + mset (handles (fst w'))"
proof -
  have ws: "ws = take i ws @ ws ! i # drop (Suc i) ws" using assms by (rule id_take_nth_drop)
  have "mset (active ws) = mset (active (take i ws)) + mset (handles (fst (ws ! i))) + mset (active (drop (Suc i) ws))"
    by (subst ws) (simp add: active_def)
  then show ?thesis using assms by (simp add: upd_conv_take_nth_drop active_def)
qed

text \<open>What is left to show for an action of one worker.\<close>

lemma replaying_update:
  assumes "replaying irs ws tb" "i < length ws" "tm_inv (tb_txn_mgr tb', active (ws[i := w']))"
    and "unat (tm_next_id (tb_txn_mgr tb')) + ids_needed w' \<le> unat (tm_next_id (tb_txn_mgr tb)) + ids_needed (ws ! i)"
    and "tb_base_segments tb' = tb_base_segments tb" "versions_ok irs (tb_delta tb')" "rows_left w' \<subseteq> rows_left (ws ! i)"
    and "\<forall>r\<in>set (tb_delta tb'). resolved_by (\<lambda>j. committed (tb_txn_mgr tb') j \<or> j \<in> txn_id ` set (active (ws[i := w']))) r"
    and "\<forall>r\<in>set (tb_delta tb'). dr_row_id r \<in> rows_left w' \<longrightarrow> resolved_by (ended (tb_txn_mgr tb') (fst w')) r"
    and "\<forall>r\<in>set (tb_delta tb'). dr_row_id r \<notin> rows_left (ws ! i) \<longrightarrow> r \<in> set (tb_delta tb)"
    and "\<And>w j. w \<in> set ws \<Longrightarrow> ended (tb_txn_mgr tb) (fst w) j \<Longrightarrow> ended (tb_txn_mgr tb') (fst w) j"
  shows "replaying irs (ws[i := w']) tb'"
proof -
  note R = assms(1) [unfolded replaying_def]
  have apart: "rows_left (ws ! j) \<inter> rows_left (ws ! k) = {}" if "j < length ws" "k < length ws" "j \<noteq> k" for j k
    using R that by blast
  have "ids_needed (ws ! i) \<le> sum_list (map ids_needed ws)" using assms(2) by (intro member_le_sum_list) auto
  then have "sum_list (map ids_needed (ws[i := w'])) + ids_needed (ws ! i) = sum_list (map ids_needed ws) + ids_needed w'"
    using assms(2) by (simp add: map_update sum_list_update)
  then have "unat (tm_next_id (tb_txn_mgr tb')) + sum_list (map ids_needed (ws[i := w'])) < 2 ^ 64 - 1" using R assms(4) by linarith
  moreover have "resolved_by (ended (tb_txn_mgr tb') (fst w)) r"
    if "w \<in> set (ws[i := w'])" "r \<in> set (tb_delta tb')" "dr_row_id r \<in> rows_left w" for w r
  proof -
    from that(1) obtain j where "j < length (ws[i := w'])" "ws[i := w'] ! j = w" unfolding in_set_conv_nth by blast
    then have j: "j < length ws" "w = ws[i := w'] ! j" by simp_all
    show ?thesis
    proof (cases "j = i")
      case True
      with j that assms(9) show ?thesis by simp
    next
      case False
      with j have w: "w = ws ! j" "w \<in> set ws" by auto
      have "dr_row_id r \<notin> rows_left (ws ! i)" using apart [OF j(1) assms(2) False] that(3) w(1) by blast
      then have "r \<in> set (tb_delta tb)" using assms(10) that(2) by blast
      then have "resolved_by (ended (tb_txn_mgr tb) (fst w)) r" using R w(2) that(3) by blast
      then show ?thesis using assms(11) [OF w(2)] by (rule resolved_by_mono)
    qed
  qed
  moreover have "rows_left (ws[i := w'] ! j) \<inter> rows_left (ws[i := w'] ! k) = {}" if "j < length ws" "k < length ws" "j \<noteq> k" for j k
  proof -
    have "rows_left (ws[i := w'] ! l) \<subseteq> rows_left (ws ! l)" if "l < length ws" for l using assms(7) that by (cases "l = i") auto
    then show ?thesis using apart [OF that] that by (meson disjoint_iff subsetD)
  qed
  ultimately show ?thesis using R assms(3,5,6,8) by (simp add: replaying_def)
qed

lemma replaying_begin:
  assumes "replaying irs ws tb" "i < length ws" "ws ! i = (Next, op # ops)" "TableBegin tb = (t, tb')"
  shows "replaying irs (ws[i := (Began t op, ops)]) tb'" "tb_delta tb' = tb_delta tb"
proof -
  let ?tm = "tb_txn_mgr tb" and ?w = "(Began t op, ops)"
  note R = assms(1) [unfolded replaying_def]
  obtain tm1 where t: "TxnBegin ?tm = (t, tm1)" "tb' = tb\<lparr>tb_txn_mgr := tm1\<rparr>" using assms(4) by (auto simp: TableBegin_def split: prod.splits)
  have "unat (tm_next_id ?tm) < 2 ^ 64 - 1" using R by linarith
  note n = unat_next [OF this]
  have "tm_inv (?tm, active ws)" using R by blast
  note F = fresh_writer [OF this conjunct1 [OF n] t(1)]
  have m: "mset (active (ws[i := ?w])) = mset (t # active ws)" using active_update [OF assms(2), of ?w] assms(3) by simp
  have "tm_status tm1 = tm_status ?tm" using t(1) by (auto simp: TxnBegin_def Let_def)
  then have e: "ended tm1 p = ended ?tm p" for p by (cases p) (auto simp: GetStatus_def committed_by_def)
  have s: "ended tm1 (Began t op) = ended ?tm Next" using F(5) by auto
  have w: "ws ! i \<in> set ws" using assms(2) by simp
  show "tb_delta tb' = tb_delta tb" by (simp add: t(2))
  show "replaying irs (ws[i := ?w]) tb'"
  proof (rule replaying_update [OF assms(1,2)])
    show "tm_inv (tb_txn_mgr tb', active (ws[i := ?w]))" unfolding tm_inv_perm [OF m] using F(1) by (simp add: t(2))
    show "\<forall>r\<in>set (tb_delta tb'). resolved_by (\<lambda>j. committed (tb_txn_mgr tb') j \<or> j \<in> txn_id ` set (active (ws[i := ?w]))) r"
      using R F(4) mset_eq_setD [OF m] by (auto simp: t(2) elim!: resolved_by_mono)
    show "\<forall>r\<in>set (tb_delta tb'). dr_row_id r \<in> rows_left ?w \<longrightarrow> resolved_by (ended (tb_txn_mgr tb') (fst ?w)) r"
      using R w assms(3) by (auto simp: t(2) s)
  qed (use R n F(3) assms(3) e in \<open>simp_all add: t(2) ids_needed_def\<close>)
qed

lemma replaying_write:
  assumes "replaying irs ws tb" "i < length ws" "ws ! i = (p, ops)" "handles p = [t]" "x \<in> rows_left (ws ! i)"
    and "handles p' = [t]" "ended (tb_txn_mgr tb) p' = (\<lambda>j. committed (tb_txn_mgr tb) j \<or> j = txn_id t)" "rows_left (p', ops) \<subseteq> rows_left (ws ! i)"
    and "versions_ok irs recs" "\<forall>r\<in>set recs. dr_row_id r = x \<longrightarrow> resolved_by (\<lambda>j. committed (tb_txn_mgr tb) j \<or> j = txn_id t) r"
    and "\<forall>r\<in>set recs. dr_row_id r \<noteq> x \<longrightarrow> r \<in> set (tb_delta tb)"
  shows "replaying irs (ws[i := (p', ops)]) (tb\<lparr>tb_delta := recs\<rparr>)"
proof -
  let ?tm = "tb_txn_mgr tb" and ?w = "(p', ops)"
  note R = assms(1) [unfolded replaying_def]
  have w: "ws ! i \<in> set ws" using assms(2) by simp
  have t: "t \<in> set (active ws)" using w assms(3,4) by (force simp: active_def)
  then have m: "mset (active (ws[i := ?w])) = mset (active ws)" using active_update [OF assms(2), of ?w] assms(3,4,6) by simp
  have later: "ended ?tm p j \<Longrightarrow> ended ?tm p' j" for j using assms(4) unfolding assms(7) by (cases p) (auto intro: committed_by_committed)
  show ?thesis
  proof (rule replaying_update [OF assms(1,2)])
    show "tm_inv (tb_txn_mgr (tb\<lparr>tb_delta := recs\<rparr>), active (ws[i := ?w]))" unfolding tm_inv_perm [OF m] using R by simp
    show "\<forall>r\<in>set (tb_delta (tb\<lparr>tb_delta := recs\<rparr>)).
        resolved_by (\<lambda>j. committed (tb_txn_mgr (tb\<lparr>tb_delta := recs\<rparr>)) j \<or> j \<in> txn_id ` set (active (ws[i := ?w]))) r"
    proof
      fix r assume r: "r \<in> set (tb_delta (tb\<lparr>tb_delta := recs\<rparr>))"
      show "resolved_by (\<lambda>j. committed (tb_txn_mgr (tb\<lparr>tb_delta := recs\<rparr>)) j \<or> j \<in> txn_id ` set (active (ws[i := ?w]))) r"
      proof (cases "dr_row_id r = x")
        case True
        with r assms(10) have "resolved_by (\<lambda>j. committed ?tm j \<or> j = txn_id t) r" by simp
        then show ?thesis by (rule resolved_by_mono) (use t mset_eq_setD [OF m] in auto)
      next
        case False
        with r assms(11) R have "resolved_by (\<lambda>j. committed ?tm j \<or> j \<in> txn_id ` set (active ws)) r" by simp
        then show ?thesis using mset_eq_setD [OF m] by simp
      qed
    qed
    show "\<forall>r\<in>set (tb_delta (tb\<lparr>tb_delta := recs\<rparr>)). dr_row_id r \<in> rows_left ?w \<longrightarrow>
        resolved_by (ended (tb_txn_mgr (tb\<lparr>tb_delta := recs\<rparr>)) (fst ?w)) r"
    proof (intro ballI impI)
      fix r assume r: "r \<in> set (tb_delta (tb\<lparr>tb_delta := recs\<rparr>))" "dr_row_id r \<in> rows_left ?w"
      show "resolved_by (ended (tb_txn_mgr (tb\<lparr>tb_delta := recs\<rparr>)) (fst ?w)) r"
      proof (cases "dr_row_id r = x")
        case True
        with r assms(10) show ?thesis by (simp add: assms(7))
      next
        case False
        then have "r \<in> set (tb_delta tb)" "dr_row_id r \<in> rows_left (ws ! i)" using r assms(8,11) by auto
        then have "resolved_by (ended ?tm p) r" using R w assms(3) by fastforce
        then show ?thesis by (simp add: resolved_by_mono [OF _ later])
      qed
    qed
  qed (use R assms in \<open>auto simp: ids_needed_def\<close>)
qed

lemma replaying_turn:
  assumes "replaying irs ws tb" "i < length ws" "ws ! i = (p, ops)" "handles p = [t]"
    and "handles p' = [t]" "ended (tb_txn_mgr tb) p' = (\<lambda>j. committed (tb_txn_mgr tb) j \<or> j = txn_id t)" "rows_left (p', ops) \<subseteq> rows_left (ws ! i)"
  shows "replaying irs (ws[i := (p', ops)]) tb"
proof -
  let ?tm = "tb_txn_mgr tb" and ?w = "(p', ops)"
  note R = assms(1) [unfolded replaying_def]
  have w: "ws ! i \<in> set ws" using assms(2) by simp
  have "t \<in> set (active ws)" using w assms(3,4) by (force simp: active_def)
  then have m: "mset (active (ws[i := ?w])) = mset (active ws)" using active_update [OF assms(2), of ?w] assms(3-5) by simp
  have later: "ended ?tm p j \<Longrightarrow> ended ?tm p' j" for j using assms(4) unfolding assms(6) by (cases p) (auto intro: committed_by_committed)
  have "\<forall>r\<in>set (tb_delta tb). dr_row_id r \<in> rows_left (ws ! i) \<longrightarrow> resolved_by (ended ?tm p) r" using R w assms(3) by fastforce
  then have own: "\<forall>r\<in>set (tb_delta tb). dr_row_id r \<in> rows_left ?w \<longrightarrow> resolved_by (ended ?tm (fst ?w)) r"
    using assms(7) later resolved_by_mono by (metis fst_conv subsetD)
  have inv: "tm_inv (?tm, active (ws[i := ?w]))" unfolding tm_inv_perm [OF m] using R by blast
  have set: "set (active (ws[i := ?w])) = set (active ws)" by (rule mset_eq_setD [OF m])
  show ?thesis
    by (rule replaying_update [OF assms(1,2) inv _ refl _ assms(7) _ own])
      (use R assms(3-5) in \<open>simp_all add: set ids_needed_def\<close>)
qed

lemma replaying_commit:
  assumes "replaying irs ws tb" "i < length ws" "ws ! i = (Applied t, ops)"
  shows "\<exists>t' tb'. TableCommit tb t = Inr (t', tb') \<and> tb_delta tb' = tb_delta tb \<and> replaying irs (ws[i := (Next, ops)]) tb'"
proof -
  let ?tm = "tb_txn_mgr tb" and ?w = "(Next, ops)"
  note R = assms(1) [unfolded replaying_def]
  have w: "ws ! i \<in> set ws" using assms(2) by simp
  have inv: "tm_inv (?tm, active ws)" using R by blast
  have t: "t \<in> set (active ws)" using w assms(3) by (force simp: active_def)
  have "unat (tm_next_id ?tm) < 2 ^ 64 - 1" using R by linarith
  note n = unat_next [OF this]
  from TxnCommit_active [OF inv t] obtain t' tm2 where c: "TxnCommit ?tm t = Inr (t', tm2)"
    "tm_status tm2 = (tm_status ?tm)(txn_id t \<mapsto> \<lparr>st_state = kCommitted, st_commit_ts = tm_next_id ?tm\<rparr>)" by auto
  have step: "txn_step (?tm, active ws) (tm2, remove1 t (active ws))" using step_commit [OF conjunct1 [OF n] t c(1)] .
  have nxt: "tm_next_id tm2 = tm_next_id ?tm + 1"
    using c(1) by (auto simp: TxnCommit_def Let_def erase_snapshot_def split: if_splits)
  have m: "mset (active (ws[i := ?w])) = mset (remove1 t (active ws))" using active_update [OF assms(2), of ?w] assms(3) by simp
  have com: "committed tm2 j \<longleftrightarrow> committed ?tm j \<or> j = txn_id t" for j by (simp add: GetStatus_def c(2))
  have later: "ended tm2 (fst v) j" if "v \<in> set ws" "ended ?tm (fst v) j" for v j
  proof (cases "fst v")
    case (Began u op)
    then have "u \<in> set (active ws)" using that(1) by (force simp: active_def)
    then have "snapshot_ts u \<le> tm_last_commit_ts ?tm" using inv by (simp add: tm_inv_def)
    from committed_by_step [OF step inv this] Began that(2) show ?thesis by simp
  qed (use that(2) com in auto)
  have "txn_id ` set (active ws) \<subseteq> insert (txn_id t) (txn_id ` set (remove1 t (active ws)))"
    using set_remove1_eq remove_handle(3) [of "active ws" t] inv t by (auto simp: tm_inv_def)
  then have keep: "committed ?tm j \<or> j \<in> txn_id ` set (active ws) \<Longrightarrow> committed tm2 j \<or> j \<in> txn_id ` set (active (ws[i := ?w]))" for j
    using com mset_eq_setD [OF m] by auto
  have all: "\<forall>r\<in>set (tb_delta tb). resolved_by (\<lambda>j. committed tm2 j \<or> j \<in> txn_id ` set (active (ws[i := ?w]))) r"
  proof
    fix r assume "r \<in> set (tb_delta tb)"
    then have "resolved_by (\<lambda>j. committed ?tm j \<or> j \<in> txn_id ` set (active ws)) r" using R by blast
    then show "resolved_by (\<lambda>j. committed tm2 j \<or> j \<in> txn_id ` set (active (ws[i := ?w]))) r" by (rule resolved_by_mono) (rule keep)
  qed
  have "\<forall>r\<in>set (tb_delta tb). dr_row_id r \<in> rows_left (ws ! i) \<longrightarrow> resolved_by (ended ?tm (Applied t)) r" using R w assms(3) by fastforce
  then have own: "\<forall>r\<in>set (tb_delta tb). dr_row_id r \<in> rows_left ?w \<longrightarrow> resolved_by (ended tm2 (fst ?w)) r"
    using com assms(3) by (auto elim!: resolved_by_mono)
  have "tm_inv (tm2, active (ws[i := ?w]))" unfolding tm_inv_perm [OF m] by (rule tm_inv_step [OF step inv])
  then have "replaying irs (ws[i := ?w]) (tb\<lparr>tb_txn_mgr := tm2\<rparr>)"
    by (intro replaying_update [OF assms(1,2)]) (use R all own later nxt n assms(3) in \<open>simp_all add: ids_needed_def\<close>)
  with c(1) show ?thesis by (simp add: TableCommit_def)
qed

text \<open>How an action may change the rows: not at all, by applying the operation, or by claiming the old version.\<close>

definition advances :: "worker \<Rightarrow> (u64 \<Rightarrow> Row option) \<Rightarrow> worker \<Rightarrow> (u64 \<Rightarrow> Row option) \<Rightarrow> bool" where
  "advances w m w' m' \<longleftrightarrow>
     (\<forall>x. log_ok row_cell row_adm (filter (\<lambda>op. rec_row_id op = x) (left w')) (m' x) \<and>
        fold row_cell (filter (\<lambda>op. rec_row_id op = x) (left w')) (m' x) = fold row_cell (filter (\<lambda>op. rec_row_id op = x) (left w)) (m x)) \<and>
     (\<forall>x. x \<notin> rows_left w \<longrightarrow> x \<notin> rows_left w' \<and> m' x = m x)"

abbreviation orderly :: "worker \<Rightarrow> (u64 \<Rightarrow> Row option) \<Rightarrow> bool" where
  "orderly w m \<equiv> \<forall>x. log_ok row_cell row_adm (filter (\<lambda>op. rec_row_id op = x) (left w)) (m x)"

lemma advances_idle: "orderly w m \<Longrightarrow> left w' = left w \<Longrightarrow> advances w m w' m"
  by (simp add: advances_def)

lemma advances_apply:
  assumes "orderly w m" "left w = op # left w'" "m' = m(rec_row_id op := row_cell op (m (rec_row_id op)))"
  shows "advances w m w' m'"
proof -
  have "log_ok row_cell row_adm (filter (\<lambda>op. rec_row_id op = x) (left w')) (m' x)" for x
    using assms(1) [rule_format, of x] by (auto simp: assms(2,3) split: if_splits)
  then show ?thesis by (auto simp: advances_def assms(2,3))
qed

lemma advances_claim:
  assumes "orderly w m" "left w = op # ops" "left w' = op\<lparr>rec_type := kInsert\<rparr> # ops" "rec_type op = kUpdate" "m (rec_row_id op) \<noteq> None"
    and "m' = m(rec_row_id op := None)"
  shows "advances w m w' m'"
proof -
  obtain row where row: "m (rec_row_id op) = Some row" using assms(5) by blast
  have c: "row_cell op (Some row) = Some (rec_row op)" "row_cell (op\<lparr>rec_type := kInsert\<rparr>) c = Some (rec_row op)" for c
    using assms(4) by (simp_all add: row_cell_def)
  have "log_ok row_cell row_adm (filter (\<lambda>op. rec_row_id op = x) (left w')) (m' x)" for x
    using assms(1) [rule_format, of x] by (auto simp: assms(2,3,6) row c row_adm_def split: if_splits)
  then show ?thesis by (auto simp: advances_def assms(2,3,6) row c)
qed

text \<open>Appending the version of an insertion, or of an update that has claimed the old one.\<close>

lemma append_refines:
  assumes "replaying irs ws tb" "i < length ws" "ws ! i = (p, ops)" "handles p = [t]" "left (ws ! i) = op' # ops"
    and "rec_type op' = kInsert" "rec_row_id op' = rec_row_id op" "rec_row op' = rec_row op" "orderly (ws ! i) (row_view irs (tb_delta tb))"
    and "handles p' = [t]" "ended (tb_txn_mgr tb) p' = (\<lambda>j. committed (tb_txn_mgr tb) j \<or> j = txn_id t)" "left (p', ops) = ops"
  shows "replaying irs (ws[i := (p', ops)]) (append_version tb t op) \<and>
    advances (ws ! i) (row_view irs (tb_delta tb)) (p', ops) (row_view irs (tb_delta (append_version tb t op)))"
proof -
  let ?recs = "tb_delta tb" and ?x = "rec_row_id op"
  note R = assms(1) [unfolded replaying_def]
  have w: "ws ! i \<in> set ws" using assms(2) by simp
  have "t \<in> set (active ws)" using w assms(3,4) by (force simp: active_def)
  then have t0: "txn_id t \<noteq> 0" using R by (auto simp: tm_inv_def)
  have none: "row_view irs ?recs ?x = None" using assms(5-7) assms(9) [rule_format, of ?x] by (simp add: row_adm_def)
  then have l: "live_of ?recs ?x = []" by (simp add: row_view_def split: if_splits)
  have b: "?x \<in> fst ` set irs \<Longrightarrow> buried ?recs ?x" using none by (auto simp: row_view_def map_of_eq_None_iff split: if_splits)
  have "versions_ok irs ?recs" using R by blast
  note v = versions_insert [OF this l b, of "txn_id t" "rec_row op"]
  have later: "ended (tb_txn_mgr tb) p j \<Longrightarrow> committed (tb_txn_mgr tb) j \<or> j = txn_id t" for j
    using assms(4) by (cases p) (auto intro: committed_by_committed)
  have x: "?x \<in> rows_left (ws ! i)" by (simp add: assms(5,7))
  have "\<forall>r\<in>set ?recs. dr_row_id r = ?x \<longrightarrow> resolved_by (ended (tb_txn_mgr tb) p) r" using R w x assms(3) by fastforce
  then have "\<forall>r\<in>set (DeltaInsert ?recs ?x (txn_id t) (rec_row op)). dr_row_id r = ?x \<longrightarrow>
      resolved_by (\<lambda>j. committed (tb_txn_mgr tb) j \<or> j = txn_id t) r"
    using t0 later by (auto simp: DeltaInsert_def resolved_by_def)
  moreover have "\<forall>r\<in>set (DeltaInsert ?recs ?x (txn_id t) (rec_row op)). dr_row_id r \<noteq> ?x \<longrightarrow> r \<in> set ?recs" by (auto simp: DeltaInsert_def)
  moreover have "rows_left (p', ops) \<subseteq> rows_left (ws ! i)" by (auto simp: assms(5,12))
  ultimately have "replaying irs (ws[i := (p', ops)]) (append_version tb t op)"
    unfolding append_version_def by (intro replaying_write [OF assms(1-4) x assms(10,11) _ v])
  moreover have "row_view irs (tb_delta (append_version tb t op)) = (row_view irs ?recs)(?x \<mapsto> rec_row op)"
    unfolding append_version_def using view_insert [OF l t0] by simp
  then have "advances (ws ! i) (row_view irs ?recs) (p', ops) (row_view irs (tb_delta (append_version tb t op)))"
    using assms(5-9,12) by (intro advances_apply [where op = op']) (simp_all add: row_cell_def)
  ultimately show ?thesis ..
qed

text \<open>Claiming the old version of an update or a deletion.\<close>

lemma claim_refines:
  assumes "replaying irs ws tb" "i < length ws" "ws ! i = (Began t op, ops)" "rec_type op = kUpdate \<or> rec_type op = kDelete"
    and "orderly (ws ! i) (row_view irs (tb_delta tb))"
  obtains ok tb' where "claim_version tb t op = Inr (ok, tb')"
    "replaying irs (ws[i := (if rec_type op = kUpdate \<and> ok then Claimed t op else Applied t, ops)]) tb'"
    "advances (ws ! i) (row_view irs (tb_delta tb)) (if rec_type op = kUpdate \<and> ok then Claimed t op else Applied t, ops)
      (row_view irs (tb_delta tb'))"
proof -
  let ?tm = "tb_txn_mgr tb" and ?recs = "tb_delta tb" and ?x = "rec_row_id op"
  note R = assms(1) [unfolded replaying_def]
  have w: "ws ! i \<in> set ws" using assms(2) by simp
  have l: "left (ws ! i) = op # ops" and h: "handles (Began t op) = [t]" by (simp_all add: assms(3))
  have "t \<in> set (active ws)" using w assms(3) by (force simp: active_def)
  then have t: "tm_status ?tm (txn_id t) = None" "txn_id t \<noteq> 0" using R by (auto simp: tm_inv_def)
  have x: "?x \<in> rows_left (ws ! i)" by (simp add: l)
  have "ended ?tm (Began t op) = (\<lambda>j. committed_by ?tm j (snapshot_ts t))" by auto
  then have cov: "\<forall>r\<in>set ?recs. dr_row_id r = ?x \<longrightarrow> covered ?tm t r" using R w x assms(3) by fastforce
  have ver: "versions_ok irs ?recs" using R by blast
  have base: "RowIdExistsInBase tb ?x = Inr (?x \<in> fst ` set irs)" using exists_in_segments_base R by (simp add: RowIdExistsInBase_def)
  show thesis
  proof (cases rule: covered_claim [OF t cov ver refl, case_names refused granted])
    case refused
    then have "claim_version tb t op = Inr (False, tb)" by (simp add: claim_version_def base)
    moreover have "replaying irs (ws[i := (Applied t, ops)]) tb"
      by (rule replaying_turn [OF assms(1-3) h]) (auto simp: l)
    moreover have "row_cell op None = None" using assms(4) by (auto simp: row_cell_def)
    then have "advances (ws ! i) (row_view irs ?recs) (Applied t, ops) (row_view irs ?recs)"
      using refused(2) by (intro advances_apply [OF assms(5), where op = op]) (auto simp: l)
    ultimately show thesis by (intro that [of False tb]) simp_all
  next
    case (granted recs')
    let ?p = "if rec_type op = kUpdate \<and> True then Claimed t op else Applied t"
    have "claim_version tb t op = Inr (True, tb\<lparr>tb_delta := recs'\<rparr>)" using granted(1) by (simp add: claim_version_def base)
    moreover have "replaying irs (ws[i := (?p, ops)]) (tb\<lparr>tb_delta := recs'\<rparr>)"
      by (rule replaying_write [OF assms(1-3) h x _ _ _ granted(5,7,8)]) (auto simp: l)
    moreover have "advances (ws ! i) (row_view irs ?recs) (?p, ops) (row_view irs recs')"
    proof (cases "rec_type op = kUpdate")
      case True
      with granted(2,3) l show ?thesis by (intro advances_claim [OF assms(5), where op = op and ops = ops]) simp_all
    next
      case False
      with granted(3) l assms(4) show ?thesis by (intro advances_apply [OF assms(5), where op = op]) (simp_all add: row_cell_def)
    qed
    ultimately show thesis by (intro that [of True "tb\<lparr>tb_delta := recs'\<rparr>"]) simp_all
  qed
qed

lemma replaying_next_row_id [simp]: "replaying irs ws (tb\<lparr>tb_next_row_id := n\<rparr>) \<longleftrightarrow> replaying irs ws tb"
  by (simp add: replaying_def)

lemma ApplyOp_refines:
  assumes "replaying irs ws tb" "i < length ws" "busy (ws ! i)" "orderly (ws ! i) (row_view irs (tb_delta tb))"
  shows "\<exists>w' tb'. ApplyOp (ws ! i) tb = Inr (w', tb') \<and> replaying irs (ws[i := w']) tb' \<and>
    advances (ws ! i) (row_view irs (tb_delta tb)) w' (row_view irs (tb_delta tb'))"
proof (cases "(ws ! i, tb)" rule: ApplyOp.cases)
  case (1 tb)
  with assms(3) show ?thesis by (simp add: busy_def)
next
  case (2 op ops tb')
  obtain t tb1 where t: "TableBegin tb = (t, tb1)" by fastforce
  have "advances (ws ! i) (row_view irs (tb_delta tb)) (Began t op, ops) (row_view irs (tb_delta tb))"
    using 2 by (intro advances_idle [OF assms(4)]) simp
  with 2 t replaying_begin [OF assms(1,2) _ t] show ?thesis by simp
next
  case (3 t op ops tb')
  then have w: "ws ! i = (Began t op, ops)" by simp
  consider "rec_type op = kInsert" | "rec_type op = kUpdate \<or> rec_type op = kDelete" | "rec_type op \<notin> {kInsert, kUpdate, kDelete}" by blast
  then show ?thesis
  proof cases
    case 1
    have "replaying irs (ws[i := (Stored t (rec_row_id op), ops)]) (append_version tb t op) \<and>
        advances (ws ! i) (row_view irs (tb_delta tb)) (Stored t (rec_row_id op), ops) (row_view irs (tb_delta (append_version tb t op)))"
      by (rule append_refines [OF assms(1,2) w _ _ 1 _ _ assms(4)]) (auto simp: w)
    with w 1 show ?thesis by simp
  next
    case 2
    obtain ok tb' where "claim_version tb t op = Inr (ok, tb')"
      "replaying irs (ws[i := (if rec_type op = kUpdate \<and> ok then Claimed t op else Applied t, ops)]) tb'"
      "advances (ws ! i) (row_view irs (tb_delta tb)) (if rec_type op = kUpdate \<and> ok then Claimed t op else Applied t, ops)
        (row_view irs (tb_delta tb'))"
      by (rule claim_refines [OF assms(1,2) w 2 assms(4)])
    with w 2 show ?thesis by auto
  next
    case 3
    then have "ApplyOp (ws ! i) tb = Inr ((Applied t, ops), tb)" "row_cell op c = c" for c
      by (cases "rec_type op"; simp add: w row_cell_def)+
    moreover have "replaying irs (ws[i := (Applied t, ops)]) tb" by (rule replaying_turn [OF assms(1,2) w]) (auto simp: w)
    ultimately show ?thesis using advances_apply [OF assms(4), of op "(Applied t, ops)"] by (simp add: w)
  qed
next
  case (4 t x ops tb')
  then have w: "ws ! i = (Stored t x, ops)" by simp
  have "replaying irs (ws[i := (Applied t, ops)]) tb" by (rule replaying_turn [OF assms(1,2) w]) (auto simp: w)
  with w advances_idle [OF assms(4), of "(Applied t, ops)"] show ?thesis by simp
next
  case (5 t op ops tb')
  then have w: "ws ! i = (Claimed t op, ops)" by simp
  have "replaying irs (ws[i := (Applied t, ops)]) (append_version tb t op) \<and>
      advances (ws ! i) (row_view irs (tb_delta tb)) (Applied t, ops) (row_view irs (tb_delta (append_version tb t op)))"
    by (rule append_refines [OF assms(1,2) w _ _ _ _ _ assms(4), where op' = "op\<lparr>rec_type := kInsert\<rparr>"]) (auto simp: w)
  with w show ?thesis by simp
next
  case (6 t ops tb')
  then have w: "ws ! i = (Applied t, ops)" by simp
  from replaying_commit [OF assms(1,2) w] w advances_idle [OF assms(4), of "(Next, ops)"] show ?thesis by auto
qed

interpretation table_store: replay_store ApplyOp busy left rec_row_id row_cell row_adm "replaying irs" "\<lambda>tb. row_view irs (tb_delta tb)"
proof
  fix ws i and tb :: Table
  assume r: "replaying irs ws tb" "i < length ws"
  show "rec_row_id ` set (left (ws ! i)) \<inter> rec_row_id ` set (left (ws ! j)) = {}" if "j < length ws" "i \<noteq> j" for j
    using r that by (simp add: replaying_def)
  assume "busy (ws ! i)" "\<And>x. log_ok row_cell row_adm (filter (\<lambda>op. rec_row_id op = x) (left (ws ! i))) (row_view irs (tb_delta tb) x)"
  with r show "\<exists>w' tb'. ApplyOp (ws ! i) tb = Inr (w', tb') \<and> replaying irs (ws[i := w']) tb' \<and>
      (\<forall>x. log_ok row_cell row_adm (filter (\<lambda>op. rec_row_id op = x) (left w')) (row_view irs (tb_delta tb') x) \<and>
         fold row_cell (filter (\<lambda>op. rec_row_id op = x) (left w')) (row_view irs (tb_delta tb') x) =
           fold row_cell (filter (\<lambda>op. rec_row_id op = x) (left (ws ! i))) (row_view irs (tb_delta tb) x)) \<and>
      (\<forall>x. x \<notin> rec_row_id ` set (left (ws ! i)) \<longrightarrow>
         x \<notin> rec_row_id ` set (left w') \<and> row_view irs (tb_delta tb') x = row_view irs (tb_delta tb) x)"
    using ApplyOp_refines [of irs ws tb i] unfolding advances_def by blast
qed (auto simp: busy_def)

text \<open>The workers finish, and the table is at rest with the content it was heading for.\<close>

lemma run_workers_replays:
  assumes "replaying irs ws tb" "table_store.heading irs goal ws tb"
  shows "\<exists>tb'. run_workers sched ws tb = Inr tb' \<and> table_at_rest irs 0 tb' \<and> row_view irs (tb_delta tb') = goal"
  using assms
proof (induction sched ws tb rule: run_workers.induct)
  case (1 sched ws tb)
  show ?case
  proof (cases "first_busy ws")
    case None
    then have idle: "\<not> busy w" if "w \<in> set ws" for w using first_busy_None that by blast
    have "handles (fst w) = []" if "w \<in> set ws" for w using idle [OF that] by (cases w) (simp add: busy_def)
    then have "active ws = []" by (auto simp: active_def)
    then have "table_at_rest irs 0 tb" using 1(2) by (auto simp: replaying_def table_at_rest_def elim!: resolved_by_mono)
    with None table_store.heading_done [OF 1(3) idle] show ?thesis by (simp add: run_workers.simps)
  next
    case (Some i)
    let ?w = "pick_worker sched ws i"
    from pick_busy [OF Some, of sched] table_store.heading_act [OF 1(2,3), of ?w] obtain w' tb' where
      a: "ApplyOp (ws ! ?w) tb = Inr (w', tb')" "replaying irs (ws[?w := w']) tb'" "table_store.heading irs goal (ws[?w := w']) tb'" by blast
    from 1(1) [OF Some refl a(1)] a show ?thesis by (subst run_workers.simps) (simp add: Some)
  qed
qed

section \<open>What a new reader finds\<close>

definition visible_rows :: "(u64 \<Rightarrow> Row option) \<Rightarrow> Row multiset" where
  "visible_rows m = image_mset (\<lambda>x. the (m x)) (mset_set (dom m))"

definition new_reader_rows :: "((u64 \<times> Row) list \<Rightarrow> (u64 \<times> Row) list) \<Rightarrow> Table \<Rightarrow> Row list res" where
  "new_reader_rows ord tb = (let (reader, tb) = TableBegin tb in MaterializeVisibleRows ord tb (SnapshotForScan tb reader))"

lemma sum_visible:
  assumes "finite X" "dom m \<subseteq> X"
  shows "(\<Sum>x\<in>X. case m x of None \<Rightarrow> {#} | Some row \<Rightarrow> {#row#}) = visible_rows m"
proof -
  have "(\<Sum>x\<in>X. case m x of None \<Rightarrow> {#} | Some row \<Rightarrow> {#row#}) = (\<Sum>x\<in>dom m. {#the (m x)#})"
    using assms by (intro sum.mono_neutral_cong_right) (auto split: option.splits)
  also have "\<dots> = visible_rows m"
    unfolding visible_rows_def using finite_subset [OF assms(2,1)]
  proof (induction "dom m" rule: finite_induct)
    case empty
    then show ?case by simp
  next
    case (insert x F)
    have "(\<Sum>x\<in>G. {#f x#}) = image_mset f (mset_set G)" if "finite G" for f :: "u64 \<Rightarrow> Row" and G
      using that by (induction G rule: finite_induct) simp_all
    with insert show ?case by (metis finite.insertI)
  qed
  finally show ?thesis .
qed

lemma rest_effect:
  assumes "tm_inv (tm, [])" "tm_next_id tm \<noteq> - 1" "TxnBegin tm = (reader, tm1)" "resolved tm r"
  shows "effect tm1 reader r =
    (if dr_is_base_tombstone r then Some (dr_row_id r, None) else if live r then Some (dr_row_id r, Some (dr_row r)) else None)"
proof -
  have "sees tm1 reader i \<longleftrightarrow> committed tm i \<or> i = txn_id reader" for i
    using fresh_writer(5) [OF assms(1-3)] by (auto simp: sees_def)
  with assms(4) show ?thesis by (auto simp: effect_def IsVisible_alt resolved_by_def live_def split: if_splits)
qed

lemma rest_effects:
  assumes "\<forall>r\<in>set recs. effect tm1 reader r =
    (if dr_is_base_tombstone r then Some (dr_row_id r, None) else if live r then Some (dr_row_id r, Some (dr_row r)) else None)"
  shows "supplied (effects tm1 reader recs) x = (if live_of recs x = [] then None else Some (dr_row (last (live_of recs x)))) \<and>
    (x \<in> fst ` set (effects tm1 reader recs) \<longleftrightarrow> buried recs x \<or> live_of recs x \<noteq> [])"
  using assms
proof (induction recs rule: rev_induct)
  case Nil
  show ?case by (simp add: supplied_def buried_def)
next
  case (snoc r recs)
  have e: "effects tm1 reader [r] = (if dr_is_base_tombstone r then [(dr_row_id r, None)]
      else if live r then [(dr_row_id r, Some (dr_row r))] else [])"
    using snoc.prems by (simp add: effects_Cons)
  have b: "buried (recs @ [r]) x \<longleftrightarrow> buried recs x \<or> dr_is_base_tombstone r \<and> dr_row_id r = x"
    by (simp add: buried_def [of "[r]"])
  show ?case using snoc e unfolding b by (auto simp: supplied_append live_of_Cons live_def)
qed

lemma at_rest_rows:
  assumes "table_at_rest irs n tb" "\<And>xs. mset (ord xs) = mset xs"
  shows "\<exists>rows. new_reader_rows ord tb = Inr rows \<and> mset rows = visible_rows (row_view irs (tb_delta tb))"
proof -
  let ?tm = "tb_txn_mgr tb" and ?recs = "tb_delta tb"
  note R = assms(1) [unfolded table_at_rest_def]
  have n0: "tm_next_id ?tm \<noteq> - 1" using R unat_next [of "tm_next_id ?tm"] by auto
  obtain reader tm1 where w: "TxnBegin ?tm = (reader, tm1)" by fastforce
  let ?tb = "tb\<lparr>tb_txn_mgr := tm1\<rparr>" and ?es = "effects tm1 reader ?recs"
  let ?X = "fst ` set ?es \<union> fst ` set irs"
  have "\<forall>r\<in>set ?recs. effect tm1 reader r =
      (if dr_is_base_tombstone r then Some (dr_row_id r, None) else if live r then Some (dr_row_id r, Some (dr_row r)) else None)"
    using R rest_effect [OF _ n0 w] by blast
  note E = conjunct1 [OF rest_effects [OF this]] conjunct2 [OF rest_effects [OF this]]
  have bag: "mset (map snd (filter (\<lambda>ir. fst ir = x) irs)) = (case map_of irs x of None \<Rightarrow> {#} | Some row \<Rightarrow> {#row#})" for x
    using conjunct1 [OF conjunct2 [OF conjunct2 [OF conjunct2 [OF R]]]]
  proof (induction irs)
    case (Cons ir irs)
    then have "fst ir = x \<Longrightarrow> map_of irs x = None" by (auto simp: map_of_eq_None_iff)
    with Cons show ?case by (cases ir) auto
  qed simp
  have "rows_for ?es irs x = (case row_view irs ?recs x of None \<Rightarrow> {#} | Some row \<Rightarrow> {#row#})" for x
    by (simp add: rows_for_def E row_view_def bag [unfolded mset_map mset_filter])
  moreover have "dom (row_view irs ?recs) \<subseteq> ?X"
    by (auto simp: row_view_def E dest: map_of_SomeD split: if_splits) (metis E(2) fst_conv image_eqI map_of_SomeD)
  moreover obtain rows where "MaterializeVisibleRows ord ?tb (SnapshotForScan ?tb reader) = Inr rows"
    "mset rows = (\<Sum>x\<in>?X. rows_for ?es irs x)"
    using Materialize_rows_for [of "SnapshotForScan ?tb reader" irs ord ?es ?tb ?X] R assms(2)
    by (auto simp: SnapshotForScan_def DeltaSnapshot_def)
  ultimately show ?thesis using sum_visible [of ?X "row_view irs ?recs"] by (simp add: new_reader_rows_def TableBegin_def w)
qed

section \<open>Recovery\<close>

text \<open>The allocators after they have been raised past the identifiers of the loaded segments.\<close>

definition raised :: "u64 \<Rightarrow> u64 list \<Rightarrow> u64" where
  "raised n used = fold (\<lambda>u n. bump n u) used n"

lemma raised_simps [simp]: "raised n [] = n" "raised n (us @ vs) = raised (raised n us) vs" "raised n (u # us) = raised (bump n u) us"
  by (simp_all add: raised_def)

lemma raised_bounds: "\<forall>u\<in>set us. u \<noteq> - 1 \<Longrightarrow> n \<le> raised n us \<and> (\<forall>u\<in>set us. u < raised n us)"
proof (induction us arbitrary: n)
  case (Cons u us)
  have "u < u + 1" using Cons.prems by (simp add: word_less_succ)
  then have "n \<le> bump n u" "u < bump n u" by (auto simp: bump_def intro: less_imp_le)
  moreover have "bump n u \<le> raised (bump n u) us \<and> (\<forall>u'\<in>set us. u' < raised (bump n u) us)"
    using Cons.IH [of "bump n u"] Cons.prems by simp
  ultimately show ?case by (auto intro: order_trans less_le_trans)
qed simp

lemma load_segment_ids_ok:
  assumes "holds_rows seg irs"
  shows "load_segment_ids seg tb = Inr (tb\<lparr>tb_next_row_id := raised (tb_next_row_id tb) (map fst irs),
    tb_next_segment_id := bump (tb_next_segment_id tb) (seg_id seg)\<rparr>)"
proof -
  obtain col where col: "seg_column seg kRowIdColumnIndex = Inr col" "\<forall>r<length irs. vec_idx (col_int64 col) r = Inr (fst (irs ! r))"
    using holds_rows_facts(2) [OF assms] by blast
  let ?step = "\<lambda>r tb. bind_res (vec_idx (col_int64 col) r) (\<lambda>row_id. Inr (tb\<lparr>tb_next_row_id := bump (tb_next_row_id tb) row_id\<rparr>))"
  have "fold_res ?step [0..<k] tb = Inr (tb\<lparr>tb_next_row_id := raised (tb_next_row_id tb) (map fst (take k irs))\<rparr>)" if "k \<le> length irs" for k
    using that col(2) by (induction k) (simp_all add: fold_res_append take_Suc_conv_app_nth)
  from this [of "length irs"] col(1) holds_rows_facts(1) [OF assms] show ?thesis by (simp add: load_segment_ids_def)
qed

lemma LoadBaseSegments_ok:
  assumes "base_holds segs irs"
  shows "LoadBaseSegments segs tb = Inr (tb\<lparr>tb_base_segments := segs, tb_next_row_id := raised (tb_next_row_id tb) (map fst irs),
    tb_next_segment_id := raised (tb_next_segment_id tb) (map seg_id segs)\<rparr>)"
proof -
  have "fold_res load_segment_ids ss tb = Inr (tb\<lparr>tb_next_row_id := raised (tb_next_row_id tb) (map fst (concat irss)),
      tb_next_segment_id := raised (tb_next_segment_id tb) (map seg_id ss)\<rparr>)"
    if "list_all2 holds_rows ss irss" for ss irss tb
    using that by (induction arbitrary: tb rule: list_all2_induct) (simp_all add: load_segment_ids_ok)
  with assms show ?thesis by (auto simp: base_holds_def LoadBaseSegments_def)
qed

lemma load_segments_verified:
  assumes "load_segments fs dir schema names = Inr segs"
  shows "\<forall>seg\<in>set segs. VerifyIntegrity seg = Inr None"
  using assms
proof (induction names arbitrary: segs)
  case (Cons f names)
  then obtain seg ss where "LoadFromFile fs (JoinPath dir f) schema = Inr seg" "load_segments fs dir schema names = Inr ss" "segs = seg # ss"
    by (auto split: sum.splits)
  with Cons.IH LoadFromFile_ok show ?case by auto
qed simp

lemma verify_pass: "\<forall>seg\<in>set segs. VerifyIntegrity seg = Inr None \<Longrightarrow> fold_res verify_segment segs stats = Inr stats"
  by (induction segs) (simp_all add: verify_segment_def)

text \<open>A row id determines its shard: the workers start apart, with the operations of the log in its order on each row.\<close>

lemma workers_start:
  assumes "table_at_rest irs (length ops) tb" "0 < nw"
    and "\<And>x. log_ok row_cell row_adm (filter (\<lambda>op. rec_row_id op = x) ops) (row_view irs (tb_delta tb) x)"
    and "ws = map (Pair Next) (shard_ops nw ops)"
  shows "replaying irs ws tb" "table_store.heading irs (replay_map rec_row_id row_cell ops (row_view irs (tb_delta tb))) ws tb"
proof -
  let ?w = "\<lambda>x. unat (x mod ucast nw)"
  note R = assms(1) [unfolded table_at_rest_def]
  have sh: "shard_ops nw ops ! w = filter (\<lambda>op. ?w (rec_row_id op) = w) ops" if "w < unat nw" for w
    using shard_ops_nth [OF assms(2) that] .
  have left: "left (ws ! w) = filter (\<lambda>op. ?w (rec_row_id op) = w) ops" if "w < unat nw" for w
    using that by (simp add: assms(4) sh)
  have rows: "filter (\<lambda>op. rec_row_id op = x) (left (ws ! w)) = (if w = ?w x then filter (\<lambda>op. rec_row_id op = x) ops else [])"
    if "w < unat nw" for w x
    unfolding left [OF that] by (auto simp: filter_empty_conv intro: filter_cong)
  have act: "active ws = []" by (simp add: active_def assms(4))
  have "map ids_needed ws = map (\<lambda>sh. 2 * length sh) (shard_ops nw ops)" by (simp add: assms(4) ids_needed_def)
  then have "sum_list (map ids_needed ws) = 2 * length ops"
    using shard_ops_size [OF assms(2), of ops] by (simp add: sum_list_const_mult)
  moreover have "rows_left (ws ! i) \<inter> rows_left (ws ! j) = {}" if "i < length ws" "j < length ws" "i \<noteq> j" for i j
    using that by (auto simp: assms(4) sh)
  moreover have "ended tm (fst w) = committed tm" if "w \<in> set ws" for w tm using that by (auto simp: assms(4))
  ultimately show "replaying irs ws tb" using R by (simp add: replaying_def act)
  have own: "w = ?w x" if "w < unat nw" "x \<in> rows_left (ws ! w)" for w x using that(2) unfolding left [OF that(1)] by auto
  have len: "length ws = unat nw" by (simp add: assms(4))
  have "row_view irs (tb_delta tb) x = replay_map rec_row_id row_cell ops (row_view irs (tb_delta tb)) x"
    if "\<forall>w\<in>set ws. x \<notin> rows_left w" for x
  proof -
    have "?w x < length ws" using shard_index [OF assms(2)] by (simp add: len)
    then have "x \<notin> rows_left (ws ! ?w x)" using that nth_mem by blast
    then have "filter (\<lambda>op. rec_row_id op = x) ops = []"
      using left [OF shard_index [OF assms(2)], of x] by (auto simp: filter_empty_conv)
    then show ?thesis by (simp add: replay_map_def)
  qed
  then show "table_store.heading irs (replay_map rec_row_id row_cell ops (row_view irs (tb_delta tb))) ws tb"
    using assms(3) own unfolding table_store.heading_def len by (simp add: rows replay_map_def)
qed

definition checkpoint_holds :: "files \<Rightarrow> RecoveryConfig \<Rightarrow> Schema \<Rightarrow> u64 \<Rightarrow> (u64 \<times> Row) list \<Rightarrow> bool" where
  "checkpoint_holds fs config schema lsn irs \<longleftrightarrow>
     (case LoadManifest fs (rc_checkpoint_manifest_path config) of
        Inl _ \<Rightarrow> lsn = 0 \<and> irs = []
      | Inr m \<Rightarrow> lsn = mf_last_lsn m \<and>
          (\<exists>segs. load_segments fs (rc_segment_dir config) schema (mf_segment_files m) = Inr segs \<and> base_holds segs irs))"

lemma fresh_at_rest:
  assumes "base_holds segs irs" "distinct (map fst irs)" "2 * n < 2 ^ 64 - 2"
  shows "table_at_rest irs n ((MakeTable name schema)\<lparr>tb_base_segments := segs, tb_next_row_id := x, tb_next_segment_id := y\<rparr>)"
  using assms by (simp add: table_at_rest_def MakeTable_def versions_ok_def new_TransactionManager_def tm_inv_def)

lemma claim_version_base: "claim_version tb t op = Inr (ok, tb') \<Longrightarrow> tb_base_segments tb' = tb_base_segments tb"
  by (auto simp: claim_version_def split_beta)

lemma ApplyOp_base: "ApplyOp w tb = Inr (w', tb') \<Longrightarrow> tb_base_segments tb' = tb_base_segments tb"
  by (cases "(w, tb)" rule: ApplyOp.cases)
    (auto simp: TableBegin_def TableCommit_def append_version_def Let_def dest!: claim_version_base split: prod.splits WalRecordType.splits)

lemma run_workers_base: "run_workers sched ws tb = Inr tb' \<Longrightarrow> tb_base_segments tb' = tb_base_segments tb"
proof (induction sched ws tb rule: run_workers.induct)
  case (1 sched ws tb)
  then show ?case by (subst (asm) (2) run_workers.simps) (auto simp: Let_def dest: ApplyOp_base split: option.splits)
qed

lemma replay_log_at_rest:
  assumes "table_at_rest irs (length ops) tb" "ops = replayed_ops lsn (wr_records (ReadAll ec fs (rc_wal_path config)))"
    and "\<And>x. log_ok row_cell row_adm (filter (\<lambda>op. rec_row_id op = x) ops) (row_view irs (tb_delta tb) x)"
    and "0 < rs_num_workers stats" "\<forall>seg\<in>set (tb_base_segments tb). VerifyIntegrity seg = Inr None"
  shows "\<exists>stats' tb'. replay_log sched ec fs dur config lsn stats tb = Inr (stats', tb') \<and>
    rs_error stats' = rs_error stats \<and>
    rs_checksum_verification_passed stats' = rs_checksum_verification_passed stats \<and>
    rs_operations_replayed stats' = of_nat (length ops) \<and>
    table_at_rest irs 0 tb' \<and> row_view irs (tb_delta tb') = replay_map rec_row_id row_cell ops (row_view irs (tb_delta tb))"
proof -
  let ?ws = "map (Pair Next) (shard_ops (rs_num_workers stats) ops)"
  from run_workers_replays [OF workers_start [OF assms(1,4,3) refl]]
  obtain tb' where tb': "run_workers sched ?ws tb = Inr tb'" "table_at_rest irs 0 tb'"
    "row_view irs (tb_delta tb') = replay_map rec_row_id row_cell ops (row_view irs (tb_delta tb))" by blast
  have "fold_res verify_segment (tb_base_segments tb') st = Inr st" for st
    using verify_pass assms(5) run_workers_base [OF tb'(1)] by simp
  with tb' show ?thesis by (simp add: replay_log_def Let_def assms(2) [symmetric])
qed

lemma Recover_replays:
  assumes "checkpoint_holds fs config (tb_full_schema (MakeTable name schema)) lsn irs" and "distinct (map fst irs)"
    and "ops = replayed_ops lsn (wr_records (ReadAll ec fs (rc_wal_path config)))" and "2 * length ops < 2 ^ 64 - 2"
    and "\<forall>x. log_ok row_cell row_adm (filter (\<lambda>op. rec_row_id op = x) ops) (map_of irs x)"
    and "\<forall>xs. mset (ord xs) = mset xs"
  shows "\<exists>stats tb rows. Recover sched ec fs dur config (MakeTable name schema) = Inr (stats, tb) \<and>
    rs_error stats = NoError \<and> rs_checksum_verification_passed stats \<and>
    rs_operations_replayed stats = of_nat (length ops) \<and>
    new_reader_rows ord tb = Inr rows \<and> mset rows = visible_rows (replay_map rec_row_id row_cell ops (map_of irs))"
proof -
  let ?tb = "MakeTable name schema" and ?stats = "default_RecoveryStats\<lparr>rs_num_workers := max 1 (rc_num_workers config)\<rparr>"
  obtain segs x y st where start: "Recover sched ec fs dur config ?tb = replay_log sched ec fs dur config lsn st
      (?tb\<lparr>tb_base_segments := segs, tb_next_row_id := x, tb_next_segment_id := y\<rparr>)" "base_holds segs irs"
    "\<forall>seg\<in>set segs. VerifyIntegrity seg = Inr None" "rs_error st = NoError" "rs_checksum_verification_passed st"
    "0 < rs_num_workers st"
  proof (cases "LoadManifest fs (rc_checkpoint_manifest_path config)")
    case (Inl e)
    have "?tb = ?tb\<lparr>tb_base_segments := [], tb_next_row_id := 1, tb_next_segment_id := 1\<rparr>" by (simp add: MakeTable_def)
    moreover have "base_holds [] []" by (simp add: base_holds_def)
    ultimately show ?thesis using that [of ?stats 1 1 "[]"] Inl assms(1)
      by (simp add: Recover_def checkpoint_holds_def default_RecoveryStats_def less_max_iff_disj)
  next
    case (Inr m)
    with assms(1) obtain segs where segs: "load_segments fs (rc_segment_dir config) (tb_full_schema ?tb) (mf_segment_files m) = Inr segs"
      "base_holds segs irs" "lsn = mf_last_lsn m" by (auto simp: checkpoint_holds_def)
    from LoadBaseSegments_ok [OF segs(2), of ?tb] obtain x y where
      "LoadBaseSegments segs ?tb = Inr (?tb\<lparr>tb_base_segments := segs, tb_next_row_id := x, tb_next_segment_id := y\<rparr>)" by blast
    with Inr segs load_segments_verified [OF segs(1)] show ?thesis
      using that [of "?stats\<lparr>rs_checkpoint_found := True, rs_checkpoint_lsn := mf_last_lsn m\<rparr>" y x segs]
      by (simp add: Recover_def default_RecoveryStats_def less_max_iff_disj)
  qed
  let ?tb1 = "?tb\<lparr>tb_base_segments := segs, tb_next_row_id := x, tb_next_segment_id := y\<rparr>"
  have view: "row_view irs (tb_delta ?tb1) = map_of irs" by (simp add: MakeTable_def row_view_def buried_def fun_eq_iff)
  have "table_at_rest irs (length ops) ?tb1" by (rule fresh_at_rest [OF start(2) assms(2,4)])
  then obtain stats tb where r: "replay_log sched ec fs dur config lsn st ?tb1 = Inr (stats, tb)" "rs_error stats = rs_error st"
    "rs_checksum_verification_passed stats = rs_checksum_verification_passed st" "rs_operations_replayed stats = of_nat (length ops)"
    "table_at_rest irs 0 tb" "row_view irs (tb_delta tb) = replay_map rec_row_id row_cell ops (map_of irs)"
    using replay_log_at_rest [of irs ops ?tb1 lsn ec fs config st sched dur] assms(3,5) start(3,6) unfolding view by auto
  from at_rest_rows [OF r(5), of ord] assms(6) r start show ?thesis by simp
qed

text \<open>The operations recovery has to redo: writes behind a log position whose transaction has a commit record.\<close>

definition committed_writes :: "u64 \<Rightarrow> WalRecord list \<Rightarrow> WalRecord list" where
  "committed_writes lsn recs =
     filter (\<lambda>r. lsn < rec_lsn r \<and> (rec_type r = kInsert \<or> rec_type r = kUpdate \<or> rec_type r = kDelete) \<and>
       (\<exists>c\<in>set recs. rec_type c = kCommit \<and> rec_txn_id c = rec_txn_id r)) recs"

lemma replayed_committed_writes: "replayed_ops lsn recs = committed_writes lsn recs"
  unfolding replayed_ops_def committed_writes_def committed_ids_def
  by (rule filter_cong [OF refl]) (auto simp: not_le intro: rev_image_eqI)

text \<open>
  C3: recovery refines replay. For a checkpoint that loads to rows with distinct ids and a log in which
  no committed operation inserts a row that exists, \<^verbatim>\<open>Recover\<close> on a new table succeeds for every number of
  workers and every schedule of their actions (begin, store or claim a version, raise the row counter, commit), reports no error, passes the checksum verification and counts the operations replayed; a new
  reader finds, up to order, the rows of the checkpoint after the committed operations in log order. The log has
  fewer than \<open>2 ^ 63 - 1\<close> operations to replay, so that transaction ids and timestamps do not wrap.
\<close>

theorem Recover_refines_replay:
  assumes "checkpoint_holds fs config (tb_full_schema (MakeTable name schema)) lsn irs" and "distinct (map fst irs)"
    and "ops = committed_writes lsn (wr_records (ReadAll ec fs (rc_wal_path config)))" and "2 * length ops < 2 ^ 64 - 2"
    and "\<forall>x. log_ok row_cell row_adm (filter (\<lambda>op. rec_row_id op = x) ops) (map_of irs x)"
    and "\<forall>xs. mset (ord xs) = mset xs"
  shows "\<exists>stats tb rows. Recover sched ec fs dur config (MakeTable name schema) = Inr (stats, tb) \<and>
    rs_error stats = NoError \<and> rs_checksum_verification_passed stats \<and>
    rs_operations_replayed stats = of_nat (length ops) \<and>
    new_reader_rows ord tb = Inr rows \<and> mset rows = visible_rows (replay_map rec_row_id row_cell ops (map_of irs))"
  using Recover_replays [OF assms(1,2) _ assms(4-6)] assms(3) by (simp add: replayed_committed_writes)

theorem Recover_refines_replay_witness:
  "\<exists>stats tb. Recover [1, 0, 1] False [''d/wal.log'' \<mapsto> ww_file (append_all sample_writer sample_records)] 0
      \<lparr>rc_wal_path = ''d/wal.log'', rc_checkpoint_manifest_path = ''d/checkpoint/manifest.txt'', rc_segment_dir = ''d/checkpoint'',
       rc_num_workers = 2\<rparr> (MakeTable ''db'' [\<lparr>cs_name = ''a'', cs_type = kInt64\<rparr>, \<lparr>cs_name = ''b'', cs_type = kDouble\<rparr>]) = Inr (stats, tb) \<and>
    rs_operations_replayed stats = 1 \<and> new_reader_rows rev tb = Inr [[VInt64 5, Monostate]]"
proof -
  let ?fs = "[''d/wal.log'' \<mapsto> ww_file (append_all sample_writer sample_records)]"
  let ?config = "\<lparr>rc_wal_path = ''d/wal.log'', rc_checkpoint_manifest_path = ''d/checkpoint/manifest.txt'', rc_segment_dir = ''d/checkpoint'',
       rc_num_workers = 2\<rparr>"
  let ?tb = "MakeTable ''db'' [\<lparr>cs_name = ''a'', cs_type = kInt64\<rparr>, \<lparr>cs_name = ''b'', cs_type = kDouble\<rparr>]"
  define op where "op = (sample_records ! 0)\<lparr>rec_lsn := 1\<rparr>"
  have op: "rec_row_id op = 7" "rec_type op = kInsert" "rec_row op = [VInt64 5, Monostate]"
    by (simp_all add: op_def sample_records_def)
  have "ReadAll False ?fs ''d/wal.log'' = absorb (numbered (ww_next_lsn sample_writer) sample_records) default_WalReadResult"
    by (rule ReadAll_absorb [OF sample_records_encodable]) (simp_all add: sample_content, simp add: sample_writer_def)
  then have "wr_records (ReadAll False ?fs (rc_wal_path ?config)) = [op, (sample_records ! 1)\<lparr>rec_lsn := 2\<rparr>]"
    using sample_content(2) by (simp add: absorb_def default_WalReadResult_def op_def)
      (simp add: sample_writer_def sample_records_def default_WalRecord_def stored_def)
  then have ops: "[op] = replayed_ops 0 (wr_records (ReadAll False ?fs (rc_wal_path ?config)))"
    by (simp add: replayed_ops_def committed_ids_def) (simp add: op_def sample_records_def default_WalRecord_def)
  have cp: "checkpoint_holds ?fs ?config (tb_full_schema ?tb) 0 []" by (simp add: checkpoint_holds_def LoadManifest_def)
  have "\<exists>stats tb rows. Recover [1, 0, 1] False ?fs 0 ?config ?tb = Inr (stats, tb) \<and> rs_error stats = NoError \<and>
      rs_checksum_verification_passed stats \<and> rs_operations_replayed stats = of_nat (length [op]) \<and>
      new_reader_rows rev tb = Inr rows \<and> mset rows = visible_rows (replay_map rec_row_id row_cell [op] (map_of []))"
    by (rule Recover_refines_replay [OF cp _ ops [unfolded replayed_committed_writes]]) (simp_all add: row_adm_def)
  then obtain stats tb rows where r: "Recover [1, 0, 1] False ?fs 0 ?config ?tb = Inr (stats, tb)"
    "rs_operations_replayed stats = 1" "new_reader_rows rev tb = Inr rows"
    "mset rows = visible_rows (replay_map rec_row_id row_cell [op] (map_of []))" by auto
  have "replay_map rec_row_id row_cell [op] (map_of []) = [7 \<mapsto> [VInt64 5, Monostate]]"
    by (simp add: replay_map_Cons op row_cell_def)
  with r(4) have "mset rows = {#[VInt64 5, Monostate]#}" by (simp add: visible_rows_def)
  then have "rows = [[VInt64 5, Monostate]]" by simp
  with r(1-3) show ?thesis by simp
qed

text \<open>
  C40: loading a checkpoint leaves room for new rows. Unless an identifier is the largest 64-bit value, after
  \<^verbatim>\<open>LoadBaseSegments\<close> the next row id is above every row id of the loaded segments, the next segment id
  is above every segment id, and neither counter has gone down.
\<close>

theorem LoadBaseSegments_allocators:
  assumes "base_holds segs irs" and "\<forall>ir\<in>set irs. fst ir \<noteq> - 1" and "\<forall>seg\<in>set segs. seg_id seg \<noteq> - 1"
  shows "\<exists>tb'. LoadBaseSegments segs tb = Inr tb' \<and> tb_base_segments tb' = segs \<and>
    (\<forall>ir\<in>set irs. fst ir < tb_next_row_id tb') \<and> (\<forall>seg\<in>set segs. seg_id seg < tb_next_segment_id tb') \<and>
    tb_next_row_id tb \<le> tb_next_row_id tb' \<and> tb_next_segment_id tb \<le> tb_next_segment_id tb'"
  using raised_bounds [of "map fst irs" "tb_next_row_id tb"] raised_bounds [of "map seg_id segs" "tb_next_segment_id tb"] assms(2,3)
  by (simp add: LoadBaseSegments_ok [OF assms(1)])

theorem LoadBaseSegments_allocators_witness:
  "\<exists>seg tb'. holds_rows seg [(7, [VInt64 1]), (3, [VInt64 2])] \<and> LoadBaseSegments [seg] (MakeTable ''t'' []) = Inr tb' \<and>
    7 < tb_next_row_id tb' \<and> 5 < tb_next_segment_id tb'"
proof -
  let ?irs = "[(7, [VInt64 1]), (3, [VInt64 2])] :: (u64 \<times> Row) list"
  obtain seg where seg: "holds_rows seg ?irs" "seg_id seg = 5"
    using Build_holds_rows [of "[\<lparr>cs_name = ''k'', cs_type = kInt64\<rparr>]" ?irs 5]
    by (auto simp: known_type_def row_has_schema_def value_has_type_def)
  from LoadBaseSegments_allocators [OF base_holds_single [OF seg(1)], of "MakeTable ''t'' []"] seg show ?thesis by auto
qed

end
