(* ===== verification/Database.thy ===== *)
theory Database
  imports Replay
begin

text \<open>
  The database facade: \<^verbatim>\<open>db/database.h\<close> and \<^verbatim>\<open>db/database.cpp\<close>. Opening a database runs recovery on a new table and
  opens the log behind the last record; every operation works on the table and appends its record.
  Executions of one process are a labelled step relation whose labels are the records appended.
\<close>

section \<open>The code\<close>

record Database =
  db_data_dir :: path
  db_table :: Table
  db_recovery_stats :: RecoveryStats
  db_wal_writer :: WalWriter

definition wal_path :: "path \<Rightarrow> path" where
  "wal_path data_dir = JoinPath data_dir ''wal.log''"

definition checkpoint_dir :: "path \<Rightarrow> path" where
  "checkpoint_dir data_dir = JoinPath data_dir ''checkpoint''"

definition manifest_path :: "path \<Rightarrow> path" where
  "manifest_path data_dir = JoinPath (checkpoint_dir data_dir) ''manifest.txt''"

definition recovery_config :: "path \<Rightarrow> RecoveryConfig" where
  "recovery_config data_dir =
     \<lparr>rc_wal_path = wal_path data_dir, rc_checkpoint_manifest_path = manifest_path data_dir,
      rc_segment_dir = checkpoint_dir data_dir, rc_num_workers = 1\<rparr>"

text \<open>
  What the constructor asks of the system: whether the data directory cannot be created (\<^verbatim>\<open>create_directories\<close>
  throws then), whether the log can be opened, whether \<^verbatim>\<open>file_size\<close> fails, the order in which the replay
  workers act, and
  the time recovery takes.
\<close>

record open_env =
  oe_mkdir_fails :: bool
  oe_can_open :: bool
  oe_size_ec :: bool
  oe_sched :: "nat list"
  oe_duration :: i64

definition OpenDatabase :: "open_env \<Rightarrow> files \<Rightarrow> path \<Rightarrow> Schema \<Rightarrow> WalWriterConfig \<Rightarrow> Database res" where
  "OpenDatabase env fs data_dir user_schema wal_config =
     (if oe_mkdir_fails env then Inl RuntimeError
      else
        bind_res (Recover (oe_sched env) (oe_size_ec env) fs (oe_duration env) (recovery_config data_dir)
            (MakeTable ''db'' user_schema)) (\<lambda>(stats, tb).
        bind_res (open_WalWriter (oe_can_open env) fs (wal_path data_dir)
            (wal_config\<lparr>wc_starting_lsn := rs_last_wal_lsn stats + 1\<rparr>)) (\<lambda>w.
          Inr \<lparr>db_data_dir = data_dir, db_table = tb, db_recovery_stats = stats, db_wal_writer = w\<rparr>)))"

definition DbBegin :: "Database \<Rightarrow> Transaction \<times> Database" where
  "DbBegin db =
     (let (txn, tb) = TableBegin (db_table db);
          (_, w) = AppendMark (db_wal_writer db) (txn_id txn) kBegin
      in (txn, db\<lparr>db_table := tb, db_wal_writer := w\<rparr>))"

definition DbInsert :: "Database \<Rightarrow> Transaction \<Rightarrow> Row \<Rightarrow> u64 \<times> Database" where
  "DbInsert db txn row =
     (let (row_id, tb) = TableInsert (db_table db) txn row;
          (_, w) = AppendRow (db_wal_writer db) (txn_id txn) kInsert row_id row
      in (row_id, db\<lparr>db_table := tb, db_wal_writer := w\<rparr>))"

definition DbUpdate :: "Database \<Rightarrow> Transaction \<Rightarrow> u64 \<Rightarrow> Row \<Rightarrow> (bool \<times> Database) res" where
  "DbUpdate db txn row_id new_row =
     bind_res (TableUpdate (db_table db) txn row_id new_row) (\<lambda>(ok, tb).
       if \<not> ok then Inr (False, db\<lparr>db_table := tb\<rparr>)
       else
         let (_, w) = AppendRow (db_wal_writer db) (txn_id txn) kUpdate row_id new_row
         in Inr (True, db\<lparr>db_table := tb, db_wal_writer := w\<rparr>))"

definition DbDelete :: "Database \<Rightarrow> Transaction \<Rightarrow> u64 \<Rightarrow> (bool \<times> Database) res" where
  "DbDelete db txn row_id =
     bind_res (TableDelete (db_table db) txn row_id) (\<lambda>(ok, tb).
       if \<not> ok then Inr (False, db\<lparr>db_table := tb\<rparr>)
       else
         let (_, w) = AppendRow (db_wal_writer db) (txn_id txn) kDelete row_id []
         in Inr (True, db\<lparr>db_table := tb, db_wal_writer := w\<rparr>))"

definition DbCommit :: "Database \<Rightarrow> Transaction \<Rightarrow> (Transaction \<times> Database) res" where
  "DbCommit db txn =
     (let (_, w) = AppendMark (db_wal_writer db) (txn_id txn) kCommit in
      bind_res (TableCommit (db_table db) txn) (\<lambda>(txn, tb). Inr (txn, db\<lparr>db_table := tb, db_wal_writer := w\<rparr>)))"

definition DbAbort :: "Database \<Rightarrow> Transaction \<Rightarrow> (Transaction \<times> Database) res" where
  "DbAbort db txn =
     (let (_, w) = AppendMark (db_wal_writer db) (txn_id txn) kAbort in
      bind_res (TableAbort (db_table db) txn) (\<lambda>(txn, tb). Inr (txn, db\<lparr>db_table := tb, db_wal_writer := w\<rparr>)))"

definition DbCheckpoint ::
  "((u64 \<times> Row) list \<Rightarrow> (u64 \<times> Row) list) \<Rightarrow> i64 \<Rightarrow> (path \<Rightarrow> bool) \<Rightarrow> io_env \<Rightarrow> Database \<Rightarrow> files \<Rightarrow>
   (CheckpointError option \<times> Database \<times> files) res" where
  "DbCheckpoint ord duration mkdir_fails env db fs =
     (let w = WalFlush (db_wal_writer db) in
      bind_res (WriteCheckpoint ord duration mkdir_fails env (db_table db) (checkpoint_dir (db_data_dir db))
          (manifest_path (db_data_dir db)) (last_lsn w) fs) (\<lambda>(failure, tb, fs).
        Inr (failure, db\<lparr>db_table := tb, db_wal_writer := w\<rparr>, fs)))"

section \<open>Machines that write a log\<close>

text \<open>Executions of a step relation whose labels are the records that a step appends to a log.\<close>

inductive logged_run :: "('s \<Rightarrow> WalRecord list \<Rightarrow> 's \<Rightarrow> bool) \<Rightarrow> 's \<Rightarrow> WalRecord list \<Rightarrow> 's \<Rightarrow> bool" for step where
  run_refl: "logged_run step s [] s"
| run_step: "logged_run step s log s1 \<Longrightarrow> step s1 rs s2 \<Longrightarrow> logged_run step s (log @ rs) s2"

lemma logged_run_trans:
  assumes "logged_run step s log s1" "logged_run step s1 log' s2"
  shows "logged_run step s (log @ log') s2"
  using assms(2,1)
proof (induction arbitrary: rule: logged_run.induct)
  case (run_step s log1 s1 rs s2)
  then show ?case by (metis append.assoc logged_run.run_step)
qed simp

lemma logged_run_invariant:
  assumes "logged_run step s log s'" "I s []" "\<And>log s rs s'. step s rs s' \<Longrightarrow> I s log \<Longrightarrow> I s' (log @ rs)"
  shows "I s' log"
  using assms(1,2) by (induction rule: logged_run.induct) (auto intro: assms(3))

locale log_machine =
  fixes step :: "'s \<Rightarrow> WalRecord list \<Rightarrow> 's \<Rightarrow> bool" and writer :: "'s \<Rightarrow> WalWriter"
  assumes step_appends: "step s rs s' \<Longrightarrow> writer s' = append_all (writer s) rs \<and> length rs \<le> 1"
begin

lemma run_writer: "logged_run step s log s' \<Longrightarrow> writer s' = append_all (writer s) log"
  by (induction rule: logged_run.induct) (simp_all add: append_all_append step_appends)

text \<open>Every prefix of the log of a run is the log of a run: a step appends at most one record.\<close>

lemma run_prefix:
  assumes "logged_run step s log s'"
  shows "\<exists>s1 rest. logged_run step s (take k log) s1 \<and> logged_run step s1 rest s' \<and> take k log @ rest = log"
  using assms
proof (induction rule: logged_run.induct)
  case (run_refl s)
  then show ?case using logged_run.run_refl [of step s] by fastforce
next
  case (run_step s log s1 rs s2)
  show ?case
  proof (cases "k \<le> length log")
    case True
    then obtain s0 rest where "logged_run step s (take k (log @ rs)) s0" "logged_run step s0 rest s1" "take k log @ rest = log"
      using run_step.IH by auto
    moreover from this(2) run_step(2) have "logged_run step s0 (rest @ rs) s2" by (rule logged_run.run_step)
    ultimately show ?thesis using True by (intro exI [of _ s0] exI [of _ "rest @ rs"]) simp
  next
    case False
    moreover have "length rs \<le> 1" using step_appends [OF run_step(2)] by simp
    ultimately have "take k (log @ rs) = log @ rs" by (intro take_all) simp
    then show ?thesis using logged_run.run_step [OF run_step(1,2)] logged_run.run_refl [of step s2] by (metis append_Nil2)
  qed
qed

end

section \<open>Executions of one process\<close>

abbreviation mark :: "Transaction \<Rightarrow> WalRecordType \<Rightarrow> WalRecord" where
  "mark txn t \<equiv> default_WalRecord\<lparr>rec_txn_id := txn_id txn, rec_type := t\<rparr>"

abbreviation write_of :: "Transaction \<Rightarrow> WalRecordType \<Rightarrow> u64 \<Rightarrow> Row \<Rightarrow> WalRecord" where
  "write_of txn t x row \<equiv> default_WalRecord\<lparr>rec_txn_id := txn_id txn, rec_type := t, rec_row_id := x, rec_row := row\<rparr>"

text \<open>
  Clients hold transactions that have not ended and use them in any order; the label is what the step
  appends to the log. The counters of identifiers stop short of their wrap-around.
\<close>

inductive db_step :: "Database \<times> Transaction list \<Rightarrow> WalRecord list \<Rightarrow> Database \<times> Transaction list \<Rightarrow> bool" where
  db_begin: "tm_next_id (tb_txn_mgr (db_table db)) \<noteq> - 1 \<Longrightarrow> DbBegin db = (txn, db') \<Longrightarrow>
    db_step (db, act) [mark txn kBegin] (db', txn # act)"
| db_insert: "txn \<in> set act \<Longrightarrow> tb_next_row_id (db_table db) \<noteq> - 1 \<Longrightarrow> DbInsert db txn row = (x, db') \<Longrightarrow>
    db_step (db, act) [write_of txn kInsert x row] (db', act)"
| db_update: "txn \<in> set act \<Longrightarrow> DbUpdate db txn x row = Inr (ok, db') \<Longrightarrow>
    db_step (db, act) (if ok then [write_of txn kUpdate x row] else []) (db', act)"
| db_delete: "txn \<in> set act \<Longrightarrow> DbDelete db txn x = Inr (ok, db') \<Longrightarrow>
    db_step (db, act) (if ok then [write_of txn kDelete x []] else []) (db', act)"
| db_commit: "tm_next_id (tb_txn_mgr (db_table db)) \<noteq> - 1 \<Longrightarrow> txn \<in> set act \<Longrightarrow> DbCommit db txn = Inr (txn', db') \<Longrightarrow>
    db_step (db, act) [mark txn kCommit] (db', remove1 txn act)"
| db_abort: "txn \<in> set act \<Longrightarrow> DbAbort db txn = Inr (txn', db') \<Longrightarrow>
    db_step (db, act) [mark txn kAbort] (db', remove1 txn act)"

abbreviation db_run :: "Database \<times> Transaction list \<Rightarrow> WalRecord list \<Rightarrow> Database \<times> Transaction list \<Rightarrow> bool" where
  "db_run \<equiv> logged_run db_step"

lemmas db_run_refl = run_refl [of db_step]
lemmas db_run_step = run_step [where step = db_step]

lemma db_step_writer:
  assumes "db_step s rs s'"
  shows "db_wal_writer (fst s') = append_all (db_wal_writer (fst s)) rs \<and> length rs \<le> 1"
  using assms
  by (cases rule: db_step.cases)
    (auto simp: DbBegin_def DbInsert_def DbUpdate_def DbDelete_def DbCommit_def DbAbort_def AppendMark_def AppendRow_def
      Let_def split: prod.splits if_splits)

interpretation db_log: log_machine db_step "\<lambda>s. db_wal_writer (fst s)"
  by unfold_locales (rule db_step_writer)

end
