(* ===== verification/CrashRecovery.thy ===== *)
theory CrashRecovery
  imports Database
begin

text \<open>
  Crash recovery of a database, end to end: in every execution of a process that starts on an empty
  directory, the rows a new reader finds are the committed records of the log applied in log order; hence
  a database reopened on the log that a crash leaves shows exactly the committed transactions.
\<close>

section \<open>Rows under a set of transactions\<close>

text \<open>The versions of a row that count if exactly the transactions in \<open>P\<close> have happened.\<close>

definition open_under :: "(u64 \<Rightarrow> bool) \<Rightarrow> DeltaRecord list \<Rightarrow> u64 \<Rightarrow> DeltaRecord list" where
  "open_under P recs x = filter (\<lambda>r. dr_row_id r = x \<and> P (dr_created_txn r) \<and> \<not> P (dr_deleted_txn r)) recs"

definition writes_to :: "WalRecord list \<Rightarrow> u64 \<Rightarrow> WalRecord list" where
  "writes_to log x = filter (\<lambda>r. rec_type r \<in> {kInsert, kUpdate, kDelete} \<and> rec_row_id r = x) log"

definition logged_row :: "(u64 \<Rightarrow> bool) \<Rightarrow> WalRecord list \<Rightarrow> u64 \<Rightarrow> Row option" where
  "logged_row P log x = fold row_cell (filter (\<lambda>r. P (rec_txn_id r)) (writes_to log x)) None"

text \<open>The table and the log agree on a row.\<close>

definition agree :: "(u64 \<Rightarrow> bool) \<Rightarrow> DeltaRecord list \<Rightarrow> WalRecord list \<Rightarrow> u64 \<Rightarrow> bool" where
  "agree P recs log x \<longleftrightarrow> map dr_row (open_under P recs x) = (case logged_row P log x of None \<Rightarrow> [] | Some row \<Rightarrow> [row])"

definition involved :: "DeltaRecord list \<Rightarrow> WalRecord list \<Rightarrow> u64 \<Rightarrow> u64 set" where
  "involved recs log x =
     (\<Union>r\<in>set (filter (\<lambda>r. dr_row_id r = x) recs). {dr_created_txn r, dr_deleted_txn r}) \<union> rec_txn_id ` set (writes_to log x)"

lemma open_under_append [simp]: "open_under P (xs @ ys) x = open_under P xs x @ open_under P ys x"
  by (simp add: open_under_def)

lemma writes_to_append [simp]: "writes_to (xs @ ys) x = writes_to xs x @ writes_to ys x"
  by (simp add: writes_to_def)

lemma open_under_Cons:
  "open_under P (r # rs) x =
     (if dr_row_id r = x \<and> P (dr_created_txn r) \<and> \<not> P (dr_deleted_txn r) then r # open_under P rs x else open_under P rs x)"
  by (simp add: open_under_def)

lemma writes_to_Nil [simp]: "writes_to [] x = []" "open_under P [] x = []"
  by (simp_all add: writes_to_def open_under_def)

lemma open_under_cong: "\<forall>i\<in>involved recs log x. P i = Q i \<Longrightarrow> open_under P recs x = open_under Q recs x"
  unfolding open_under_def involved_def by (rule filter_cong) auto

lemma agree_cong:
  assumes "\<forall>i\<in>involved recs log x. P i = Q i"
  shows "agree P recs log x = agree Q recs log x"
proof -
  have "filter (\<lambda>r. P (rec_txn_id r)) (writes_to log x) = filter (\<lambda>r. Q (rec_txn_id r)) (writes_to log x)"
    using assms by (intro filter_cong) (auto simp: involved_def)
  then show ?thesis using open_under_cong [OF assms] by (simp add: agree_def logged_row_def)
qed

lemma logged_row_write:
  assumes "rec_type r \<in> {kInsert, kUpdate, kDelete}"
  shows "logged_row P (log @ [r]) x =
    (if rec_row_id r = x \<and> P (rec_txn_id r) then row_cell r (logged_row P log x) else logged_row P log x)"
  using assms by (simp add: logged_row_def writes_to_def)

section \<open>The invariant\<close>

abbreviation kept :: "TransactionManager \<Rightarrow> Transaction list \<Rightarrow> u64 \<Rightarrow> bool" where
  "kept tm act i \<equiv> committed tm i \<or> i \<in> txn_id ` set act"

definition delta_inv :: "TransactionManager \<Rightarrow> u64 \<Rightarrow> DeltaRecord list \<Rightarrow> WalRecord list \<Rightarrow> bool" where
  "delta_inv tm next_row recs log \<longleftrightarrow>
     (\<forall>r\<in>set recs. \<not> dr_is_base_tombstone r \<and> dr_created_txn r \<noteq> 0 \<and> dr_row_id r < next_row) \<and>
     (\<forall>x. \<forall>i\<in>involved recs log x. i < tm_next_id tm) \<and>
     (\<forall>x. writes_to log x \<noteq> [] \<longrightarrow> x < next_row \<and> (\<forall>r\<in>set (tl (writes_to log x)). rec_type r \<noteq> kInsert))"

definition owner_inv :: "TransactionManager \<Rightarrow> Transaction list \<Rightarrow> DeltaRecord list \<Rightarrow> WalRecord list \<Rightarrow> u64 \<Rightarrow> bool" where
  "owner_inv tm act recs log x \<longleftrightarrow>
     agree (committed tm) recs log x \<and> agree (kept tm act) recs log x \<and>
     (\<forall>t\<in>involved recs log x \<inter> txn_id ` set act.
        (\<forall>r\<in>set (open_under (kept tm act) recs x). dr_created_txn r = t) \<and>
        (\<forall>u\<in>involved recs log x \<inter> txn_id ` set act. u = t))"

abbreviation logged_commit :: "WalRecord list \<Rightarrow> u64 \<Rightarrow> bool" where
  "logged_commit log i \<equiv> \<exists>r\<in>set log. rec_type r = kCommit \<and> rec_txn_id r = i"

definition db_inv :: "Database \<times> Transaction list \<Rightarrow> WalRecord list \<Rightarrow> bool" where
  "db_inv s log \<longleftrightarrow>
     (let (db, act) = s; tb = db_table db; tm = tb_txn_mgr tb in
      tm_inv (tm, act) \<and> unat (tm_next_id tm) \<le> Suc (length log) \<and>
      tb_base_segments tb = [] \<and> delta_inv tm (tb_next_row_id tb) (tb_delta tb) log \<and>
      (\<forall>x. owner_inv tm act (tb_delta tb) log x) \<and>
      (\<forall>i. committed tm i \<longleftrightarrow> (\<exists>r\<in>set log. rec_type r = kCommit \<and> rec_txn_id r = i)) \<and>
      (\<forall>r\<in>set log. stored r = r))"

lemma active_facts:
  assumes "tm_inv (tm, act)" "w \<in> set act"
  shows "\<not> committed tm (txn_id w)" "kept tm act (txn_id w)" "txn_id w \<noteq> 0" "txn_id w < tm_next_id tm"
  using assms by (auto simp: tm_inv_def GetStatus_def)

lemma zero_facts:
  assumes "tm_inv (tm, act)"
  shows "\<not> committed tm 0" "\<not> kept tm act 0"
  using assms by (auto simp: tm_inv_def GetStatus_def split: option.splits)

text \<open>What a write of an active transaction must do to keep the invariant.\<close>

lemma sole_owner: "S \<subseteq> {a} \<Longrightarrow> \<forall>r\<in>R. f r = a \<Longrightarrow> \<forall>t\<in>S. (\<forall>r\<in>R. f r = t) \<and> (\<forall>u\<in>S. u = t)"
  by auto

lemma write_owner:
  assumes "tm_inv (tm, act)" "w \<in> set act" "owner_inv tm act recs log y"
    and op: "rec_type op \<in> {kInsert, kUpdate, kDelete}" "rec_txn_id op = txn_id w" "rec_row_id op = x"
    and other: "y \<noteq> x \<Longrightarrow> filter (\<lambda>r. dr_row_id r = y) recs' = filter (\<lambda>r. dr_row_id r = y) recs"
    and com: "map dr_row (open_under (committed tm) recs' x) = map dr_row (open_under (committed tm) recs x)"
    and kep: "map dr_row (open_under (kept tm act) recs' x) =
      (case row_cell op (logged_row (kept tm act) log x) of None \<Rightarrow> [] | Some row \<Rightarrow> [row])"
    and new: "\<forall>r\<in>set (open_under (kept tm act) recs' x). dr_created_txn r = txn_id w"
    and own: "involved recs log x \<inter> txn_id ` set act \<subseteq> {txn_id w}"
    and inv: "involved recs' log x \<subseteq> involved recs log x \<union> {txn_id w, 0}"
  shows "owner_inv tm act recs' (log @ [op]) y"
proof (cases "y = x")
  case True
  note w = active_facts [OF assms(1,2)]
  define A where "A = txn_id ` set act"
  have "0 \<notin> A" using zero_facts [OF assms(1)] by (auto simp: A_def)
  moreover have "involved recs' (log @ [op]) x \<subseteq> involved recs' log x \<union> {txn_id w}"
    using op by (auto simp: involved_def writes_to_def)
  ultimately have "involved recs' (log @ [op]) x \<inter> A \<subseteq> {txn_id w}" using own inv unfolding A_def [symmetric] by blast
  note sole_owner [OF this [unfolded A_def] new]
  moreover have "agree (committed tm) recs' (log @ [op]) x"
    using assms(3) w com op by (simp add: True owner_inv_def agree_def logged_row_write)
  moreover have "agree (kept tm act) recs' (log @ [op]) x"
    using w kep op by (simp add: agree_def logged_row_write)
  ultimately show ?thesis unfolding True owner_inv_def by (intro conjI)
next
  case False
  have f: "open_under P recs' y = open_under P recs y" for P
  proof -
    have "open_under P rs y = filter (\<lambda>r. P (dr_created_txn r) \<and> \<not> P (dr_deleted_txn r)) (filter (\<lambda>r. dr_row_id r = y) rs)" for rs
      by (auto simp: open_under_def intro: filter_cong)
    from this [of recs'] this [of recs] show ?thesis unfolding other [OF False] by (simp only:)
  qed
  have wt: "writes_to (log @ [op]) y = writes_to log y" using False op by (simp add: writes_to_def [of "[op]"])
  then have "involved recs' (log @ [op]) y = involved recs log y" unfolding involved_def other [OF False] by simp
  moreover have "logged_row P (log @ [op]) y = logged_row P log y" for P unfolding logged_row_def wt ..
  ultimately show ?thesis using assms(3) unfolding owner_inv_def agree_def f by simp
qed

lemma insert_keeps:
  assumes tm: "tm_inv (tm, act)" "w \<in> set act" and inv: "\<And>y. owner_inv tm act recs log y" "delta_inv tm x recs log" and "x \<noteq> - 1"
    and recs': "recs' = DeltaInsert recs x (txn_id w) row" and op: "op = write_of w kInsert x row"
  shows "delta_inv tm (x + 1) recs' (log @ [op]) \<and> owner_inv tm act recs' (log @ [op]) y"
proof -
  note w = active_facts [OF tm] and z = zero_facts [OF tm(1)]
  have fresh: "\<forall>r\<in>set recs. dr_row_id r \<noteq> x" "writes_to log x = []" using inv(2) by (auto simp: delta_inv_def)
  then have none: "open_under P recs x = []" "involved recs log x = {}" "logged_row P log x = None" for P
    by (auto simp: open_under_def involved_def logged_row_def filter_empty_conv)
  have lt: "i < x + 1 \<longleftrightarrow> i \<le> x" for i using word_less_succ [OF assms(5)] .
  have "involved recs' (log @ [op]) y \<subseteq> involved recs log y \<union> {txn_id w, 0}" for y
    by (auto simp: involved_def writes_to_def recs' op DeltaInsert_def)
  moreover have "0 < tm_next_id tm" using tm(1) by (simp add: tm_inv_def)
  ultimately have "\<forall>i\<in>involved recs' (log @ [op]) y. i < tm_next_id tm" for y
    using inv(2) w(4) unfolding delta_inv_def by blast
  moreover have "writes_to (log @ [op]) y = (if y = x then [op] else writes_to log y)" for y
    using fresh(2) by (simp add: op) (simp add: writes_to_def)
  ultimately have "delta_inv tm (x + 1) recs' (log @ [op])"
    using inv(2) w(3) by (auto simp: delta_inv_def recs' DeltaInsert_def lt less_imp_le)
  moreover have "owner_inv tm act recs' (log @ [op]) y"
  proof (rule write_owner [OF tm inv(1)])
    show "rec_type op \<in> {kInsert, kUpdate, kDelete}" "rec_txn_id op = txn_id w" "rec_row_id op = x" by (simp_all add: op)
    show "involved recs' log x \<subseteq> involved recs log x \<union> {txn_id w, 0}"
      by (auto simp: involved_def recs' DeltaInsert_def)
  qed (use w z in \<open>simp_all add: recs' DeltaInsert_def open_under_Cons none op row_cell_def\<close>)
  ultimately show ?thesis ..
qed

text \<open>A record that a writer claims is the only version of its row that counts with the active transactions.\<close>

lemma claim_sole:
  assumes tm: "tm_inv (tm, act)" "w \<in> set act" and inv: "owner_inv tm act recs log x" "delta_inv tm next_row recs log"
    and r: "recs = older @ r # newer" "dr_row_id r = x" "judge r w tm = Claim"
  shows "dr_created_txn r = txn_id w \<or> committed tm (dr_created_txn r)" "\<not> kept tm act (dr_deleted_txn r)"
    "open_under (kept tm act) older x = []" "open_under (kept tm act) newer x = []" "open_under (kept tm act) recs x = [r]"
    "involved recs log x \<inter> txn_id ` set act \<subseteq> {txn_id w}"
proof -
  note w = active_facts [OF tm] and z = zero_facts [OF tm(1)] and c = judge_Claim [OF r(3)]
  have "dr_created_txn r \<noteq> 0" using inv(2) r(1) by (simp add: delta_inv_def)
  then show cr: "dr_created_txn r = txn_id w \<or> committed tm (dr_created_txn r)"
    using c by (auto simp: IsVisible_alt sees_def committed_by_def Let_def)
  show del: "\<not> kept tm act (dr_deleted_txn r)" using c z active_facts(1) [OF tm(1)] tm(1)
    by (auto simp: tm_inv_def GetStatus_def)
  have "map dr_row (open_under (kept tm act) recs x) = (case logged_row (kept tm act) log x of None \<Rightarrow> [] | Some row \<Rightarrow> [row])"
    using inv(1) by (simp add: owner_inv_def agree_def)
  then have "length (map dr_row (open_under (kept tm act) recs x)) \<le> 1" by (simp only:) (simp split: option.split)
  then have "length (open_under (kept tm act) recs x) \<le> 1" by simp
  moreover have ro: "open_under (kept tm act) [r] x = [r]" using cr del w r(2) by (auto simp: open_under_Cons)
  ultimately show "open_under (kept tm act) older x = []" "open_under (kept tm act) newer x = []"
    and opn: "open_under (kept tm act) recs x = [r]"
    using r(1) by (auto simp: open_under_Cons split: if_splits)
  show "involved recs log x \<inter> txn_id ` set act \<subseteq> {txn_id w}"
  proof
    fix t assume t: "t \<in> involved recs log x \<inter> txn_id ` set act"
    then have "dr_created_txn r = t" using inv(1) opn by (auto simp: owner_inv_def)
    with t cr active_facts(1) [OF tm(1)] show "t \<in> {txn_id w}" by auto
  qed
qed

lemma replace_keeps:
  assumes tm: "tm_inv (tm, act)" "w \<in> set act" and inv: "\<And>y. owner_inv tm act recs log y" "delta_inv tm next_row recs log"
    and claimed: "recs = older @ r # newer" "recsc = older @ r\<lparr>dr_deleted_txn := txn_id w\<rparr> # newer" "dr_row_id r = x" "judge r w tm = Claim"
    and op: "op = write_of w kUpdate x row \<and> recs' = DeltaInsert recsc x (txn_id w) row \<or> op = write_of w kDelete x [] \<and> recs' = recsc"
  shows "delta_inv tm next_row recs' (log @ [op]) \<and> owner_inv tm act recs' (log @ [op]) y"
proof -
  let ?r = "r\<lparr>dr_deleted_txn := txn_id w\<rparr>"
  note w = active_facts [OF tm] and z = zero_facts [OF tm(1)]
  have r: "r \<in> set recs" "dr_created_txn r \<noteq> 0" "\<not> dr_is_base_tombstone r" "x < next_row"
    using inv(2) claimed(1,3) by (auto simp: delta_inv_def)
  note cl = claim_sole [OF tm inv claimed(1,3,4)]
  note cr = cl(1) and del = cl(2) and opn = cl(3-5)
  from opn have row: "logged_row (kept tm act) log x \<noteq> None"
    using inv(1) [of x] by (auto simp: owner_inv_def agree_def split: option.splits)
  note own = cl(6)
  have recs: "recs' = older @ ?r # newer @ (if rec_type op = kUpdate then DeltaInsert [] x (txn_id w) row else [])"
    using op claimed(2) by (auto simp: DeltaInsert_def)
  have ops: "rec_type op \<in> {kInsert, kUpdate, kDelete}" "rec_type op \<noteq> kInsert" "rec_txn_id op = txn_id w" "rec_row_id op = x" using op by auto
  have inv1: "involved recs' log y \<subseteq> involved recs log y \<union> {txn_id w, 0}" for y
    unfolding recs claimed(1) by (auto simp: involved_def DeltaInsert_def)
  have "owner_inv tm act recs' (log @ [op]) y"
  proof (rule write_owner [OF tm inv(1) ops(1,3,4) _ _ _ _ own inv1])
    show "filter (\<lambda>r. dr_row_id r = y) recs' = filter (\<lambda>r. dr_row_id r = y) recs" if "y \<noteq> x"
      using that claimed(3) unfolding recs claimed(1) by (simp add: DeltaInsert_def)
    show "map dr_row (open_under (committed tm) recs' x) = map dr_row (open_under (committed tm) recs x)"
      using w z del unfolding recs claimed(1) by (simp add: open_under_Cons DeltaInsert_def)
    have k: "open_under (kept tm act) recs' x = (if rec_type op = kUpdate then DeltaInsert [] x (txn_id w) row else [])"
      unfolding recs using opn w z by (simp add: open_under_Cons DeltaInsert_def)
    show "map dr_row (open_under (kept tm act) recs' x) =
      (case row_cell op (logged_row (kept tm act) log x) of None \<Rightarrow> [] | Some row \<Rightarrow> [row])"
      unfolding k using op row by (auto simp: row_cell_def DeltaInsert_def)
    show "\<forall>r\<in>set (open_under (kept tm act) recs' x). dr_created_txn r = txn_id w"
      unfolding k by (simp add: DeltaInsert_def)
  qed
  moreover have "\<forall>i\<in>involved recs' (log @ [op]) y. i < tm_next_id tm" for y
  proof -
    have "involved recs' (log @ [op]) y \<subseteq> involved recs log y \<union> {txn_id w, 0}"
      using inv1 [of y] ops by (auto simp: involved_def writes_to_def)
    moreover have "0 < tm_next_id tm" using tm(1) by (simp add: tm_inv_def)
    ultimately show ?thesis using inv(2) w(4) unfolding delta_inv_def by blast
  qed
  moreover have "writes_to (log @ [op]) y = (if y = x then writes_to log x @ [op] else writes_to log y)" for y
    using ops by (simp add: writes_to_def)
  note wt = this
  have old: "\<forall>r\<in>set (tl (writes_to log y)). rec_type r \<noteq> kInsert" "writes_to log y \<noteq> [] \<Longrightarrow> y < next_row" for y
    using inv(2) by (cases "writes_to log y = []"; simp add: delta_inv_def)+
  have "set (tl (writes_to log x @ [op])) \<subseteq> insert op (set (tl (writes_to log x)))" by (cases "writes_to log x") auto
  then have "\<forall>y. writes_to (log @ [op]) y \<noteq> [] \<longrightarrow> y < next_row \<and> (\<forall>r\<in>set (tl (writes_to (log @ [op]) y)). rec_type r \<noteq> kInsert)"
    unfolding wt using old r(4) ops(2) by auto
  moreover have "\<forall>r\<in>set recs'. \<not> dr_is_base_tombstone r \<and> dr_created_txn r \<noteq> 0 \<and> dr_row_id r < next_row"
    using inv(2) r w(3) claimed(3) unfolding recs claimed(1) delta_inv_def by (auto simp: DeltaInsert_def)
  ultimately show ?thesis by (simp add: delta_inv_def)
qed

lemma begin_keeps:
  assumes tm: "tm_inv (tm, act)" and "tm_next_id tm \<noteq> - 1" "TxnBegin tm = (w, tm1)"
    and inv: "\<And>y. owner_inv tm act recs log y" "delta_inv tm next_row recs log" and mk: "writes_to [r] = (\<lambda>x. [])"
  shows "delta_inv tm1 next_row recs (log @ [r]) \<and> owner_inv tm1 (w # act) recs (log @ [r]) y"
proof -
  note F = fresh_writer [OF assms(1-3)]
  have log: "writes_to (log @ [r]) x = writes_to log x" "logged_row P (log @ [r]) x = logged_row P log x"
    "involved recs (log @ [r]) x = involved recs log x" "agree P recs (log @ [r]) x = agree P recs log x" for x P
    by (simp_all add: mk logged_row_def involved_def agree_def)
  have lt: "i < tm_next_id tm1 \<longleftrightarrow> i \<le> tm_next_id tm" for i using word_less_succ [OF assms(2)] F(3) by simp
  have new: "\<forall>i\<in>involved recs log x. i \<noteq> txn_id w" for x using inv(2) F(2) by (auto simp: delta_inv_def)
  have k: "\<forall>i\<in>involved recs log x. kept tm act i = kept tm1 (w # act) i" for x using new [of x] F(4) by auto
  have act: "involved recs log y \<inter> txn_id ` set (w # act) = involved recs log y \<inter> txn_id ` set act" using new [of y] by auto
  have "committed tm1 = committed tm" using F(4) by (simp add: fun_eq_iff)
  then have "owner_inv tm1 (w # act) recs (log @ [r]) y"
    using inv(1) [of y] unfolding owner_inv_def log act agree_cong [OF k] open_under_cong [OF k] by simp
  moreover have "delta_inv tm1 next_row recs (log @ [r])"
    using inv(2) unfolding delta_inv_def log lt by (auto intro: less_imp_le)
  ultimately show ?thesis by blast
qed

text \<open>The end of a transaction: it joins the committed ones or leaves those that are kept.\<close>

lemma end_keeps:
  assumes tm: "tm_inv (tm, act)" "w \<in> set act" and inv: "owner_inv tm act recs log y"
    and mk: "writes_to [r] = (\<lambda>x. [])" and act': "txn_id ` set act' = txn_id ` set act - {txn_id w}"
    and tm': "(\<forall>i. committed tm' i \<longleftrightarrow> committed tm i \<or> i = txn_id w) \<or> (\<forall>i. committed tm' i = committed tm i)"
  shows "owner_inv tm' act' recs (log @ [r]) y"
proof -
  note w = active_facts [OF tm]
  let ?I = "involved recs log y"
  have log: "involved recs (log @ [r]) y = ?I" "agree P recs (log @ [r]) y = agree P recs log y" for P
    by (simp_all add: mk logged_row_def involved_def agree_def)
  define A where "A = txn_id ` set act"
  note O = inv [unfolded owner_inv_def, folded A_def, THEN conjunct2, THEN conjunct2]
  have oa: "agree (committed tm) recs log y" "agree (kept tm act) recs log y" using inv by (simp_all add: owner_inv_def)
  have A: "txn_id w \<in> A" "\<And>i. i \<in> A \<Longrightarrow> \<not> committed tm i" using tm active_facts(1) [OF tm(1)] by (auto simp: A_def)
  have kp: "kept tm' act' i \<longleftrightarrow> committed tm' i \<or> i \<in> A \<and> i \<noteq> txn_id w" for i unfolding act' A_def by auto
  have unheld: "\<forall>i\<in>?I. committed tm' i = committed tm i" "\<forall>i\<in>?I. kept tm' act' i = kept tm act i" if "txn_id w \<notin> ?I"
  proof -
    have "committed tm' i = committed tm i \<and> kept tm' act' i = kept tm act i" if "i \<in> ?I" for i
    proof -
      have "i \<noteq> txn_id w" using that \<open>txn_id w \<notin> ?I\<close> by auto
      moreover from this have "committed tm' i = committed tm i" using tm' by auto
      ultimately show ?thesis unfolding kp A_def [symmetric] by simp
    qed
    then show "\<forall>i\<in>?I. committed tm' i = committed tm i" "\<forall>i\<in>?I. kept tm' act' i = kept tm act i" by blast+
  qed
  have ag: "agree (committed tm') recs log y \<and> agree (kept tm' act') recs log y"
  proof (cases "txn_id w \<in> ?I")
    case True
    have sole: "i = txn_id w" if "i \<in> ?I" "i \<in> A" for i using that O True A(1) by blast
    from tm' show ?thesis
    proof
      assume c: "\<forall>i. committed tm' i \<longleftrightarrow> committed tm i \<or> i = txn_id w"
      have "committed tm' i = kept tm act i" "kept tm' act' i = kept tm act i" if "i \<in> ?I" for i
        using sole [OF that] A(1) c [rule_format, of i] unfolding kp A_def [symmetric] by simp_all blast+
      then have "\<forall>i\<in>?I. committed tm' i = kept tm act i" "\<forall>i\<in>?I. kept tm' act' i = kept tm act i" by blast+
      from this [THEN agree_cong] oa show ?thesis by (simp only:)
    next
      assume c: "\<forall>i. committed tm' i = committed tm i"
      have "kept tm' act' i = committed tm i" if "i \<in> ?I" for i
        using sole [OF that] c [rule_format, of i] unfolding kp by auto
      with c have "\<forall>i\<in>?I. committed tm' i = committed tm i" "\<forall>i\<in>?I. kept tm' act' i = committed tm i" by blast+
      from this [THEN agree_cong] oa show ?thesis by (simp only:)
    qed
  next
    case False
    from unheld [OF False, THEN agree_cong] oa show ?thesis by (simp only:)
  qed
  moreover have "(\<forall>r\<in>set (open_under (kept tm' act') recs y). dr_created_txn r = t) \<and> (\<forall>u\<in>?I \<inter> txn_id ` set act'. u = t)"
    if t: "t \<in> ?I \<inter> txn_id ` set act'" for t
  proof -
    have t': "t \<in> ?I" "t \<in> A" "t \<noteq> txn_id w" using t unfolding act' A_def by auto
    with O A(1) have "txn_id w \<notin> ?I" by blast
    from open_under_cong [OF unheld(2) [OF this]] t' O show ?thesis unfolding act' A_def by auto
  qed
  ultimately show ?thesis unfolding owner_inv_def log by blast
qed

text \<open>The parts of a step that the log sees.\<close>

lemma mark_facts [simp]:
  "t \<notin> {kInsert, kUpdate, kDelete} \<Longrightarrow> writes_to [mark txn t] = (\<lambda>x. [])"
  "t \<notin> {kInsert, kUpdate, kDelete} \<Longrightarrow> stored (mark txn t) = mark txn t"
  "t = kInsert \<or> t = kUpdate \<Longrightarrow> stored (write_of txn t x row) = write_of txn t x row"
  "stored (write_of txn kDelete x []) = write_of txn kDelete x []"
  by (auto simp: writes_to_def fun_eq_iff stored_def default_WalRecord_def)

lemma unat_inc: "x \<noteq> - 1 \<Longrightarrow> unat (x + 1) = Suc (unat x)" for x :: u64
  by (metis add.commute add_eq_0_iff unatSuc)

lemma delta_inv_mark:
  assumes "delta_inv tm next_row recs log" "tm_next_id tm \<le> tm_next_id tm'" "writes_to [r] = (\<lambda>x. [])"
  shows "delta_inv tm' next_row recs (log @ [r])"
proof -
  have "writes_to (log @ [r]) x = writes_to log x" "involved recs (log @ [r]) x = involved recs log x" for x
    by (simp_all add: assms(3) involved_def)
  moreover have "\<forall>x. \<forall>i\<in>involved recs log x. i < tm_next_id tm'"
    using assms(1,2) unfolding delta_inv_def by (meson less_le_trans)
  ultimately show ?thesis using assms(1) unfolding delta_inv_def by simp
qed

lemma write_step_inv:
  assumes "db_inv (db, act) log" "db_table db' = (db_table db)\<lparr>tb_delta := recs, tb_next_row_id := x\<rparr>"
    and "delta_inv (tb_txn_mgr (db_table db)) x recs (log @ [r])" "\<And>y. owner_inv (tb_txn_mgr (db_table db)) act recs (log @ [r]) y"
    and "rec_type r \<noteq> kCommit" "stored r = r"
  shows "db_inv (db', act) (log @ [r])"
  using assms unfolding db_inv_def by (auto simp: Let_def)

lemma db_inv_table: "db_table db' = db_table db \<Longrightarrow> db_inv (db', act) log = db_inv (db, act) log"
  by (simp add: db_inv_def)

text \<open>The end of a transaction in the table.\<close>

lemma TableCommit_effect:
  assumes "TableCommit tb txn = Inr (txn', tb')" "txn \<in> set act" "tm_next_id (tb_txn_mgr tb) \<noteq> - 1"
  obtains tm1 st where "tb' = tb\<lparr>tb_txn_mgr := tm1\<rparr>" "txn_step (tb_txn_mgr tb, act) (tm1, remove1 txn act)"
    "tm_status tm1 = (tm_status (tb_txn_mgr tb))(txn_id txn \<mapsto> st)" "st_state st = kCommitted" "tm_next_id tm1 = tm_next_id (tb_txn_mgr tb) + 1"
proof -
  obtain tm1 where t: "TxnCommit (tb_txn_mgr tb) txn = Inr (txn', tm1)" "tb' = tb\<lparr>tb_txn_mgr := tm1\<rparr>"
    using assms(1) by (auto simp: TableCommit_def)
  from that [OF t(2) step_commit [OF assms(3,2) t(1)]] t(1) show ?thesis
    by (auto simp: TxnCommit_def Let_def erase_snapshot_def split: if_splits)
qed

lemma TableAbort_effect:
  assumes "TableAbort tb txn = Inr (txn', tb')" "txn \<in> set act"
  obtains tm1 st where "tb' = tb\<lparr>tb_txn_mgr := tm1\<rparr>" "txn_step (tb_txn_mgr tb, act) (tm1, remove1 txn act)"
    "tm_status tm1 = (tm_status (tb_txn_mgr tb))(txn_id txn \<mapsto> st)" "st_state st = kAborted" "tm_next_id tm1 = tm_next_id (tb_txn_mgr tb)"
proof -
  obtain tm1 where t: "TxnAbort (tb_txn_mgr tb) txn = Inr (txn', tm1)" "tb' = tb\<lparr>tb_txn_mgr := tm1\<rparr>"
    using assms(1) by (auto simp: TableAbort_def)
  from that [OF t(2) step_abort [OF assms(2) t(1)]] t(1) show ?thesis
    by (auto simp: TxnAbort_def Let_def erase_snapshot_def split: if_splits)
qed

text \<open>What a step does to the table of a database whose base is empty, and to the log.\<close>

lemma db_step_effect:
  assumes "db_step (db, act) rs (db', act')" "tb_base_segments (db_table db) = []"
  obtains
    (begun) txn tm1 where "tm_next_id (tb_txn_mgr (db_table db)) \<noteq> - 1" "TxnBegin (tb_txn_mgr (db_table db)) = (txn, tm1)"
      "db_table db' = (db_table db)\<lparr>tb_txn_mgr := tm1\<rparr>" "rs = [mark txn kBegin]" "act' = txn # act"
  | (inserted) txn x row where "txn \<in> set act" "x = tb_next_row_id (db_table db)" "x \<noteq> - 1" "rs = [write_of txn kInsert x row]"
      "act' = act" "db_table db' = (db_table db)\<lparr>tb_delta := DeltaInsert (tb_delta (db_table db)) x (txn_id txn) row, tb_next_row_id := x + 1\<rparr>"
  | (replaced) txn x row op recs1 recs2 where "txn \<in> set act" "act' = act" "rs = [op]"
      "ClaimOrInsertBaseTombstone (tb_delta (db_table db)) x txn (tb_txn_mgr (db_table db)) False = (kOk, recs1)"
      "op = write_of txn kUpdate x row \<and> recs2 = DeltaInsert recs1 x (txn_id txn) row \<or> op = write_of txn kDelete x [] \<and> recs2 = recs1"
      "db_table db' = (db_table db)\<lparr>tb_delta := recs2, tb_next_row_id := tb_next_row_id (db_table db)\<rparr>"
  | (refused) "db_table db' = db_table db" "rs = []" "act' = act"
  | (ended) txn st t tm1 where "txn \<in> set act" "act' = remove1 txn act" "rs = [mark txn t]" "t \<in> {kCommit, kAbort}"
      "txn_step (tb_txn_mgr (db_table db), act) (tm1, act')" "db_table db' = (db_table db)\<lparr>tb_txn_mgr := tm1\<rparr>"
      "tm_status tm1 = (tm_status (tb_txn_mgr (db_table db)))(txn_id txn \<mapsto> st)" "st_state st = (if t = kCommit then kCommitted else kAborted)"
      "tm_next_id tm1 = tm_next_id (tb_txn_mgr (db_table db)) \<or>
       tm_next_id tm1 = tm_next_id (tb_txn_mgr (db_table db)) + 1 \<and> tm_next_id (tb_txn_mgr (db_table db)) \<noteq> - 1"
  using assms(1)
proof (cases rule: db_step.cases)
  case (db_begin txn)
  then show ?thesis
    using begun [of txn] by (auto simp: DbBegin_def TableBegin_def Let_def split: prod.splits)
next
  case (db_insert txn row x)
  then show ?thesis
    using inserted [of txn x row] by (auto simp: DbInsert_def TableInsert_def Let_def split: prod.splits)
next
  case (db_update txn x row ok)
  obtain res recs1 where c: "ClaimOrInsertBaseTombstone (tb_delta (db_table db)) x txn (tb_txn_mgr (db_table db)) False = (res, recs1)"
    by fastforce
  note defs = DbUpdate_def TableUpdate_def RowIdExistsInBase_def Let_def
  show ?thesis
  proof (cases "res = kOk")
    case True
    then show ?thesis
      using db_update c assms(2) replaced [of txn "write_of txn kUpdate x row" x recs1 row "DeltaInsert recs1 x (txn_id txn) row"] by (auto simp: defs split: prod.splits)
  next
    case False
    then show ?thesis using db_update c claim_refused [OF c] assms(2) refused by (auto simp: defs split: prod.splits)
  qed
next
  case (db_delete txn x ok)
  obtain res recs1 where c: "ClaimOrInsertBaseTombstone (tb_delta (db_table db)) x txn (tb_txn_mgr (db_table db)) False = (res, recs1)"
    by fastforce
  note defs = DbDelete_def TableDelete_def RowIdExistsInBase_def Let_def
  show ?thesis
  proof (cases "res = kOk")
    case True
    then show ?thesis
      using db_delete c assms(2) replaced [of txn "write_of txn kDelete x []" x recs1 _ recs1] by (auto simp: defs split: prod.splits)
  next
    case False
    then show ?thesis using db_delete c claim_refused [OF c] assms(2) refused by (auto simp: defs split: prod.splits)
  qed
next
  case (db_commit txn txn')
  obtain tb where t: "TableCommit (db_table db) txn = Inr (txn', tb)" "db_table db' = tb"
    using db_commit(5) by (auto simp: DbCommit_def AppendMark_def AppendRecord_frame Let_def)
  from t(1) db_commit(4,3) show ?thesis
    by (rule TableCommit_effect) (rule ended [of txn kCommit], use db_commit t(2) in auto)
next
  case (db_abort txn txn')
  obtain tb where t: "TableAbort (db_table db) txn = Inr (txn', tb)" "db_table db' = tb"
    using db_abort(4) by (auto simp: DbAbort_def AppendMark_def AppendRecord_frame Let_def)
  from t(1) db_abort(3) show ?thesis
    by (rule TableAbort_effect) (rule ended [of txn kAbort], use db_abort t(2) in auto)
qed

text \<open>The invariant, for each kind of change to the table and the record that goes with it.\<close>

lemma begin_inv:
  assumes "db_inv (db, act) log" "tm_next_id (tb_txn_mgr (db_table db)) \<noteq> - 1" "TxnBegin (tb_txn_mgr (db_table db)) = (txn, tm1)"
    and "db_table db' = (db_table db)\<lparr>tb_txn_mgr := tm1\<rparr>"
  shows "db_inv (db', txn # act) (log @ [mark txn kBegin])"
proof -
  let ?tb = "db_table db" and ?recs = "tb_delta (db_table db)"
  note I = assms(1) [unfolded db_inv_def Let_def prod.case]
  have tm: "tm_inv (tb_txn_mgr ?tb, act)" using I by simp
  note F = fresh_writer [OF tm assms(2,3)]
  have "delta_inv tm1 (tb_next_row_id ?tb) ?recs (log @ [mark txn kBegin]) \<and> owner_inv tm1 (txn # act) ?recs (log @ [mark txn kBegin]) y" for y
    using I by (intro begin_keeps [OF tm assms(2,3)]) simp_all
  then show ?thesis unfolding db_inv_def using I F(1,3,4) unat_inc [OF assms(2)] by (auto simp: Let_def assms(4))
qed

lemma insert_inv:
  assumes "db_inv (db, act) log" "txn \<in> set act" "x = tb_next_row_id (db_table db)" "x \<noteq> - 1"
    and "db_table db' = (db_table db)\<lparr>tb_delta := DeltaInsert (tb_delta (db_table db)) x (txn_id txn) row, tb_next_row_id := x + 1\<rparr>"
  shows "db_inv (db', act) (log @ [write_of txn kInsert x row])"
proof -
  let ?tm = "tb_txn_mgr (db_table db)" and ?recs = "DeltaInsert (tb_delta (db_table db)) x (txn_id txn) row"
  note I = assms(1) [unfolded db_inv_def Let_def prod.case]
  have "tm_inv (?tm, act)" using I by simp
  then have "delta_inv ?tm (x + 1) ?recs (log @ [write_of txn kInsert x row]) \<and> owner_inv ?tm act ?recs (log @ [write_of txn kInsert x row]) y" for y
    by (rule insert_keeps [OF _ assms(2)]) (use I assms(3,4) in simp_all)
  then show ?thesis using assms(1) by (intro write_step_inv [OF _ assms(5)]) auto
qed

lemma replace_inv:
  assumes "db_inv (db, act) log" "txn \<in> set act"
    and "tb_delta (db_table db) = older @ r # newer" "recs1 = older @ r\<lparr>dr_deleted_txn := txn_id txn\<rparr> # newer"
      "dr_row_id r = x" "judge r txn (tb_txn_mgr (db_table db)) = Claim"
    and op: "op = write_of txn kUpdate x row \<and> recs2 = DeltaInsert recs1 x (txn_id txn) row \<or> op = write_of txn kDelete x [] \<and> recs2 = recs1"
    and "db_table db' = (db_table db)\<lparr>tb_delta := recs2, tb_next_row_id := tb_next_row_id (db_table db)\<rparr>"
  shows "db_inv (db', act) (log @ [op])"
proof -
  note I = assms(1) [unfolded db_inv_def Let_def prod.case]
  have "tm_inv (tb_txn_mgr (db_table db), act)" using I by simp
  then have "delta_inv (tb_txn_mgr (db_table db)) (tb_next_row_id (db_table db)) recs2 (log @ [op]) \<and>
      owner_inv (tb_txn_mgr (db_table db)) act recs2 (log @ [op]) y" for y
    by (rule replace_keeps [OF _ assms(2) _ _ assms(3-6) op]) (use I in simp_all)
  moreover have "rec_type op \<noteq> kCommit \<and> stored op = op" using op by auto
  ultimately show ?thesis using assms(1) by (intro write_step_inv [OF _ assms(8)]) simp_all
qed

lemma end_inv:
  assumes "db_inv (db, act) log" "txn \<in> set act" "t \<in> {kCommit, kAbort}"
    and step: "txn_step (tb_txn_mgr (db_table db), act) (tm1, remove1 txn act)" and tb: "db_table db' = (db_table db)\<lparr>tb_txn_mgr := tm1\<rparr>"
    and st: "tm_status tm1 = (tm_status (tb_txn_mgr (db_table db)))(txn_id txn \<mapsto> st)" "st_state st = (if t = kCommit then kCommitted else kAborted)"
    and nx: "tm_next_id tm1 = tm_next_id (tb_txn_mgr (db_table db)) \<or>
      tm_next_id tm1 = tm_next_id (tb_txn_mgr (db_table db)) + 1 \<and> tm_next_id (tb_txn_mgr (db_table db)) \<noteq> - 1"
  shows "db_inv (db', remove1 txn act) (log @ [mark txn t])"
proof -
  let ?tb = "db_table db" and ?tm = "tb_txn_mgr (db_table db)" and ?recs = "tb_delta (db_table db)"
  note I = assms(1) [unfolded db_inv_def Let_def prod.case]
  have tm: "tm_inv (?tm, act)" using I by simp
  have mk: "writes_to [mark txn t] = (\<lambda>x. [])" "stored (mark txn t) = mark txn t" using assms(3) by auto
  have c: "committed tm1 i \<longleftrightarrow> (if t = kCommit then committed ?tm i \<or> i = txn_id txn else committed ?tm i)" for i
    using active_facts(1) [OF tm assms(2)] by (simp add: GetStatus_def st)
  have "owner_inv tm1 (remove1 txn act) ?recs (log @ [mark txn t]) y" for y
    using I c remove_handle(3) [OF _ assms(2)] mk(1)
    by (intro end_keeps [OF tm assms(2)]) (auto simp: tm_inv_def)
  moreover have n: "tm_next_id ?tm \<le> tm_next_id tm1 \<and> unat (tm_next_id tm1) \<le> Suc (unat (tm_next_id ?tm))"
    using nx word_less_succ [of "tm_next_id ?tm" "tm_next_id ?tm"] unat_inc [of "tm_next_id ?tm"] by auto
  then have "delta_inv tm1 (tb_next_row_id ?tb) ?recs (log @ [mark txn t])"
    using I mk(1) by (intro delta_inv_mark [of ?tm]) simp_all
  moreover have "tm_inv (tm1, remove1 txn act)" using tm_inv_step [OF step tm] by simp
  ultimately show ?thesis unfolding db_inv_def using I n mk(2) c assms(3) by (auto simp: Let_def tb)
qed

lemma db_inv_step:
  assumes "db_step s rs s'" "db_inv s log"
  shows "db_inv s' (log @ rs)"
proof -
  obtain db act db' act' where s: "s = (db, act)" "s' = (db', act')" by fastforce
  note inv = assms(2) [unfolded s]
  have "tb_base_segments (db_table db) = []" using inv by (simp add: db_inv_def Let_def)
  from assms(1) [unfolded s] this show ?thesis
  proof (cases rule: db_step_effect)
    case (begun txn tm1)
    then show ?thesis using begin_inv [OF inv begun(1-3)] by (simp add: s)
  next
    case (inserted txn x row)
    then show ?thesis using insert_inv [OF inv inserted(1-3,6)] by (simp add: s)
  next
    case (replaced txn x row op recs1 recs2)
    from replaced(4) show ?thesis
    proof (cases rule: claim_ok_cases)
      case (claimed older r newer)
      then show ?thesis using replace_inv [OF inv replaced(1) claimed(1-4) replaced(5,6)] replaced(2,3) by (simp add: s)
    qed simp
  next
    case refused
    with inv show ?thesis by (simp add: s db_inv_table [of db' db])
  next
    case (ended txn st t tm1)
    then show ?thesis using end_inv [OF inv ended(1,4) _ ended(6-9)] by (simp add: s)
  qed
qed

lemma db_inv_run: "db_run s log s' \<Longrightarrow> db_inv s [] \<Longrightarrow> db_inv s' log"
  using logged_run_invariant [of db_step s log s' db_inv] db_inv_step by blast

lemma db_inv_log:
  assumes "db_inv (db, act) log"
  shows "committed (tb_txn_mgr (db_table db)) i \<longleftrightarrow> (\<exists>r\<in>set log. rec_type r = kCommit \<and> rec_txn_id r = i)"
    "\<forall>r\<in>set (tl (writes_to log x)). rec_type r \<noteq> kInsert"
proof -
  note I = assms [unfolded db_inv_def Let_def prod.case]
  show "committed (tb_txn_mgr (db_table db)) i \<longleftrightarrow> (\<exists>r\<in>set log. rec_type r = kCommit \<and> rec_txn_id r = i)" using I by blast
  show "\<forall>r\<in>set (tl (writes_to log x)). rec_type r \<noteq> kInsert"
    using I by (cases "writes_to log x = []") (simp_all add: delta_inv_def)
qed

section \<open>What a new reader finds\<close>

text \<open>A reader that begins in any state of an execution finds the committed part of the log.\<close>

lemma supplied_open:
  assumes "\<forall>r\<in>set recs. effect tm1 reader r =
    (if P (dr_created_txn r) \<and> \<not> P (dr_deleted_txn r) then Some (dr_row_id r, Some (dr_row r)) else None)"
  shows "supplied (effects tm1 reader recs) x =
      (if open_under P recs x = [] then None else Some (dr_row (last (open_under P recs x)))) \<and>
    (x \<in> fst ` set (effects tm1 reader recs) \<longleftrightarrow> open_under P recs x \<noteq> [])"
  using assms
proof (induction recs rule: rev_induct)
  case Nil
  show ?case by (simp add: supplied_def)
next
  case (snoc r recs)
  have "effects tm1 reader [r] = (if P (dr_created_txn r) \<and> \<not> P (dr_deleted_txn r) then [(dr_row_id r, Some (dr_row r))] else [])"
    using snoc.prems by (simp add: effects_Cons)
  with snoc show ?case by (auto simp: supplied_append open_under_Cons)
qed

lemma agreeing_reader_rows:
  assumes tm: "tm_inv (tb_txn_mgr tb, act)" and n0: "tm_next_id (tb_txn_mgr tb) \<noteq> - 1" and base0: "tb_base_segments tb = []"
    and dl: "delta_inv (tb_txn_mgr tb) next_row (tb_delta tb) log" and "\<And>x. agree (committed (tb_txn_mgr tb)) (tb_delta tb) log x"
    and ord: "\<And>xs. mset (ord xs) = mset xs"
  shows "\<exists>rows. new_reader_rows ord tb = Inr rows \<and> mset rows = visible_rows (logged_row (committed (tb_txn_mgr tb)) log)"
proof -
  let ?tb = tb and ?tm = "tb_txn_mgr tb" and ?recs = "tb_delta tb"
  let ?m = "logged_row (committed ?tm) log"
  obtain reader tm1 where w: "TxnBegin ?tm = (reader, tm1)" by fastforce
  note F = fresh_writer [OF tm n0 w]
  have fresh: "dr_created_txn r \<noteq> txn_id reader" "dr_deleted_txn r \<noteq> txn_id reader" if "r \<in> set ?recs" for r
  proof -
    have "dr_created_txn r \<in> involved ?recs log (dr_row_id r)" "dr_deleted_txn r \<in> involved ?recs log (dr_row_id r)"
      using that by (auto simp: involved_def)
    with dl have "dr_created_txn r < tm_next_id ?tm" "dr_deleted_txn r < tm_next_id ?tm" by (auto simp: delta_inv_def)
    then show "dr_created_txn r \<noteq> txn_id reader" "dr_deleted_txn r \<noteq> txn_id reader" using F(2) by auto
  qed
  have "effect tm1 reader r =
      (if committed ?tm (dr_created_txn r) \<and> \<not> committed ?tm (dr_deleted_txn r) then Some (dr_row_id r, Some (dr_row r)) else None)"
    if "r \<in> set ?recs" for r
    using that fresh [OF that] dl F(5) zero_facts(1) [OF tm]
    by (auto simp: effect_def IsVisible_alt sees_def delta_inv_def)
  note E = supplied_open [of ?recs tm1 reader "committed ?tm", OF ballI, OF this]
  have ag: "map dr_row (open_under (committed ?tm) ?recs x) = (case ?m x of None \<Rightarrow> [] | Some row \<Rightarrow> [row])" for x
    using assms(5) [of x] by (simp add: agree_def)
  let ?es = "effects tm1 reader ?recs"
  have rf: "rows_for ?es [] x = (case ?m x of None \<Rightarrow> {#} | Some row \<Rightarrow> {#row#})" for x
    using ag [of x] E [of x] by (cases "?m x") (auto simp: rows_for_def last_map [symmetric])
  have "dom ?m \<subseteq> fst ` set ?es"
  proof
    fix x assume "x \<in> dom ?m"
    then have "open_under (committed ?tm) ?recs x \<noteq> []" using ag [of x] by auto
    with E [of x] show "x \<in> fst ` set ?es" by blast
  qed
  moreover have base: "base_holds (ss_segments (SnapshotForScan (?tb\<lparr>tb_txn_mgr := tm1\<rparr>) reader)) []"
    using base0 by (simp add: SnapshotForScan_def base_holds_def)
  have "\<exists>rows. MaterializeVisibleRows ord (?tb\<lparr>tb_txn_mgr := tm1\<rparr>) (SnapshotForScan (?tb\<lparr>tb_txn_mgr := tm1\<rparr>) reader) = Inr rows \<and>
      mset rows = (\<Sum>x\<in>fst ` set ?es. rows_for ?es [] x)"
    by (rule Materialize_rows_for [OF base ord]) (simp_all add: SnapshotForScan_def DeltaSnapshot_def)
  ultimately show ?thesis using sum_visible [of "fst ` set ?es" ?m] by (simp add: new_reader_rows_def TableBegin_def w rf)
qed

lemma db_reader_rows:
  assumes "db_inv (db, act) log" "length log < 2 ^ 63" "\<And>xs. mset (ord xs) = mset xs"
  shows "\<exists>rows. new_reader_rows ord (db_table db) = Inr rows \<and>
    mset rows = visible_rows (logged_row (committed (tb_txn_mgr (db_table db))) log)"
proof -
  note I = assms(1) [unfolded db_inv_def Let_def prod.case]
  have "unat (tm_next_id (tb_txn_mgr (db_table db))) < 2 ^ 64 - 1" using I assms(2) by (simp add: le_imp_less_Suc)
  then have "tm_next_id (tb_txn_mgr (db_table db)) \<noteq> - 1" using unat_next by blast
  moreover have "owner_inv (tb_txn_mgr (db_table db)) act (tb_delta (db_table db)) log x" for x using I by blast
  ultimately show ?thesis using I assms(3) by (intro agreeing_reader_rows) (auto simp: owner_inv_def)
qed

section \<open>What recovery reads\<close>

definition strip :: "WalRecord \<Rightarrow> WalRecord" where
  "strip r = r\<lparr>rec_lsn := 0\<rparr>"

lemma filter_numbered:
  assumes "\<And>r l. Q (r\<lparr>rec_lsn := l\<rparr>) = Q r"
  shows "map strip (filter Q (numbered l log)) = map strip (filter Q log)"
  using assms by (induction log arbitrary: l) (simp_all add: strip_def)

lemma strip_simps [simp]: "row_cell (strip r) = row_cell r" "row_adm (strip r) = row_adm r"
proof -
  show "row_cell (strip r) = row_cell r"
    by (rule ext, cases "rec_type r") (simp_all add: strip_def row_cell_def split: option.split)
  show "row_adm (strip r) = row_adm r" by (rule ext) (simp add: strip_def row_adm_def)
qed

lemma fold_strip: "fold row_cell xs c = fold row_cell (map strip xs) c"
  by (induction xs arbitrary: c) simp_all

lemma log_ok_strip: "log_ok row_cell row_adm xs c = log_ok row_cell row_adm (map strip xs) c"
  by (induction xs arbitrary: c) simp_all

lemma log_ok_writes:
  assumes "\<forall>r\<in>set (tl ops). rec_type r \<noteq> kInsert"
  shows "log_ok row_cell row_adm (filter Q ops) None"
proof -
  have "log_ok row_cell row_adm rs c" if "\<forall>r\<in>set rs. rec_type r \<noteq> kInsert" for rs c
    using that by (induction rs arbitrary: c) (auto simp: row_adm_def)
  with assms show ?thesis by (cases ops) (auto simp: row_adm_def)
qed

lemma stored_numbered: "\<forall>r\<in>set rs. stored r = r \<Longrightarrow> map stored (numbered l rs) = numbered l rs"
proof (induction rs arbitrary: l)
  case (Cons r rs)
  have "stored (r\<lparr>rec_lsn := l\<rparr>) = (stored r)\<lparr>rec_lsn := l\<rparr>" by (simp add: stored_def)
  with Cons show ?case by simp
qed simp

lemma numbered_lsn:
  assumes "r \<in> set (numbered 1 log)" "length log < 2 ^ 64 - 1"
  shows "\<not> rec_lsn r \<le> 0"
proof -
  from assms(1) obtain i where i: "i < length log" "r = numbered 1 log ! i" by (auto simp: in_set_conv_nth)
  then have "rec_lsn r = of_nat (Suc i)" by (simp add: nth_numbered)
  moreover have "unat (of_nat (Suc i) :: u64) = Suc i" using i(1) assms(2) unat_of_nat [of "Suc i", where 'a = 64] by simp
  ultimately show ?thesis by (metis unat_0 word_le_0_iff nat.distinct(2))
qed

lemma committed_ids_numbered:
  "i \<in> set (committed_ids (numbered l log)) \<longleftrightarrow> (\<exists>r\<in>set log. rec_type r = kCommit \<and> rec_txn_id r = i)"
proof -
  have txn: "map rec_txn_id rs = map rec_txn_id (map strip rs)" for rs by (simp add: strip_def)
  have "map rec_txn_id (filter (\<lambda>r. rec_type r = kCommit) (numbered l log)) = map rec_txn_id (filter (\<lambda>r. rec_type r = kCommit) log)"
    by (subst (1 2) txn) (simp add: filter_numbered)
  then have "set (committed_ids (numbered l log)) = set (map rec_txn_id (filter (\<lambda>r. rec_type r = kCommit) log))"
    unfolding committed_ids_def set_remdups by (rule arg_cong)
  then show ?thesis by auto
qed

lemma replayed_numbered:
  assumes "length log < 2 ^ 64 - 1" "\<And>i. P i \<longleftrightarrow> (\<exists>r\<in>set log. rec_type r = kCommit \<and> rec_txn_id r = i)"
  shows "map strip (filter (\<lambda>r. rec_row_id r = x) (replayed_ops 0 (numbered 1 log))) =
    map strip (filter (\<lambda>r. P (rec_txn_id r)) (writes_to log x))"
proof -
  have "filter (\<lambda>r. rec_row_id r = x) (replayed_ops 0 (numbered 1 log)) =
      filter (\<lambda>r. rec_type r \<in> {kInsert, kUpdate, kDelete} \<and> rec_row_id r = x \<and> P (rec_txn_id r)) (numbered 1 log)"
    unfolding replayed_ops_def filter_filter
    by (rule filter_cong [OF refl]) (use numbered_lsn [OF _ assms(1)] in \<open>auto simp: committed_ids_numbered assms(2)\<close>)
  also have "map strip \<dots> = map strip (filter (\<lambda>r. rec_type r \<in> {kInsert, kUpdate, kDelete} \<and> rec_row_id r = x \<and> P (rec_txn_id r)) log)"
    by (rule filter_numbered) simp
  also have "filter (\<lambda>r. rec_type r \<in> {kInsert, kUpdate, kDelete} \<and> rec_row_id r = x \<and> P (rec_txn_id r)) log =
      filter (\<lambda>r. P (rec_txn_id r)) (writes_to log x)"
    by (auto simp: writes_to_def intro: filter_cong)
  finally show ?thesis .
qed

section \<open>Opening\<close>

lemma last_JoinPath: "leaf \<noteq> [] \<Longrightarrow> last (JoinPath dir leaf) = last leaf"
  by (simp add: JoinPath_def)

lemma manifest_not_wal: "manifest_path dir \<noteq> wal_path dir"
proof -
  have "last (manifest_path dir) = CHR ''t''" "last (wal_path dir) = CHR ''g''"
    by (simp_all add: manifest_path_def wal_path_def last_JoinPath)
  then show ?thesis by auto
qed

text \<open>A new database: an empty log and an empty table.\<close>

lemma open_new:
  assumes "OpenDatabase env fs dir schema cfg = Inr db" "fs (wal_path dir) = None" "fs (manifest_path dir) = None"
  shows "db_inv (db, []) [] \<and> ww_file (db_wal_writer db) = [] \<and> ww_next_lsn (db_wal_writer db) = 1 \<and>
    wc_durability (ww_config (db_wal_writer db)) = wc_durability cfg \<and>
    db_table db = MakeTable ''db'' schema \<and> db_data_dir db = dir"
proof -
  have "LoadManifest fs (manifest_path dir) = Inl NoManifest" "ReadAll ec fs (wal_path dir) = default_WalReadResult" for ec
    using assms(2,3) by (simp_all add: LoadManifest_def ReadAll_def)
  then obtain stats where r: "Recover (oe_sched env) (oe_size_ec env) fs (oe_duration env) (recovery_config dir) (MakeTable ''db'' schema) =
      Inr (stats, MakeTable ''db'' schema)" "rs_last_wal_lsn stats = 0"
    by (auto simp: Recover_def replay_log_def recovery_config_def default_WalReadResult_def replayed_ops_def shard_ops_def
        default_RecoveryStats_def MakeTable_def run_workers.simps first_busy_def busy_def)
  then have db: "db_table db = MakeTable ''db'' schema" "ww_file (db_wal_writer db) = []" "ww_next_lsn (db_wal_writer db) = 1"
    "wc_durability (ww_config (db_wal_writer db)) = wc_durability cfg" "db_data_dir db = dir"
    using assms(1,2) by (auto simp: OpenDatabase_def open_WalWriter_def split: if_splits)
  have "db_inv (db, []) []"
    by (simp add: db_inv_def db MakeTable_def new_TransactionManager_def tm_inv_def delta_inv_def owner_inv_def agree_def
        logged_row_def involved_def GetStatus_def)
  with db show ?thesis by simp
qed

text \<open>A database on the bytes that \<open>k\<close> records of an execution left, with a torn record behind them.\<close>

lemma open_log:
  assumes P: "\<And>i. P i \<longleftrightarrow> (\<exists>r\<in>set log. rec_type r = kCommit \<and> rec_txn_id r = i)"
    and ins: "\<And>x. \<forall>r\<in>set (tl (writes_to log x)). rec_type r \<noteq> kInsert" and "length log < 2 ^ 62"
    and "wr_records (ReadAll (oe_size_ec env) fs (wal_path dir)) = numbered 1 log" "fs (manifest_path dir) = None"
    and "\<not> oe_mkdir_fails env" "oe_can_open env" "\<forall>xs. mset (ord xs) = mset xs"
  shows "\<exists>db rows. OpenDatabase env fs dir schema cfg = Inr db \<and> rs_error (db_recovery_stats db) = NoError \<and>
    new_reader_rows ord (db_table db) = Inr rows \<and>
    mset rows = visible_rows (logged_row P log)"
proof -
  let ?P = P and ?recs = "numbered 1 log"
  let ?ops = "replayed_ops 0 ?recs"
  have len: "length log < 2 ^ 64 - 1" using assms(3) by simp
  note ops = replayed_numbered [OF len P]
  have row: "replay_map rec_row_id row_cell ?ops (map_of []) = logged_row ?P log"
  proof
    fix x
    show "replay_map rec_row_id row_cell ?ops (map_of []) x = logged_row ?P log x"
      unfolding replay_map_def logged_row_def map_of.simps
        fold_strip [of "filter (\<lambda>op. rec_row_id op = x) ?ops"] ops [of x] by (rule fold_strip [symmetric])
  qed
  have "log_ok row_cell row_adm (filter (\<lambda>op. rec_row_id op = x) ?ops) (map_of [] x)" for x
  proof -
    from log_ok_writes [OF ins, of "\<lambda>r. ?P (rec_txn_id r)"] show ?thesis
      unfolding map_of.simps log_ok_strip [of "filter (\<lambda>op. rec_row_id op = x) ?ops"] ops [of x]
      by (rule log_ok_strip [THEN iffD1])
  qed
  then have ok: "\<forall>x. log_ok row_cell row_adm (filter (\<lambda>op. rec_row_id op = x) ?ops) (map_of [] x)" by blast
  have cp: "checkpoint_holds fs (recovery_config dir) (tb_full_schema (MakeTable ''db'' schema)) 0 []"
    using assms(5) by (simp add: checkpoint_holds_def LoadManifest_def recovery_config_def)
  have "length ?ops \<le> length ?recs" unfolding replayed_ops_def by (rule length_filter_le)
  then have n: "2 * length ?ops < 2 ^ 64 - 2" using assms(3) by simp
  have ops': "?ops = replayed_ops 0 (wr_records (ReadAll (oe_size_ec env) fs (rc_wal_path (recovery_config dir))))"
    using assms(4) by (simp add: recovery_config_def)
  from Recover_replays [OF cp _ ops' n ok assms(8), where dur = "oe_duration env" and sched = "oe_sched env"] obtain stats tb rows where
    "Recover (oe_sched env) (oe_size_ec env) fs (oe_duration env) (recovery_config dir) (MakeTable ''db'' schema) = Inr (stats, tb)"
    "rs_error stats = NoError" "new_reader_rows ord tb = Inr rows" "mset rows = visible_rows (logged_row ?P log)"
    unfolding row by auto
  then show ?thesis using assms(6,7) by (auto simp: OpenDatabase_def open_WalWriter_def Let_def)
qed

text \<open>A commit record that the writer has synced is complete in every cut that spares the synced bytes.\<close>

lemma synced_commit:
  assumes "logged_commit log i" "ww_file w = []" "ww_next_lsn w = 1" "wc_durability (ww_config w) \<noteq> kNoSync" "ww_synced (append_all w log) \<le> n"
  shows "logged_commit (take (complete n (numbered 1 log)) log) i"
proof -
  let ?rs = "numbered 1 log"
  obtain j where j: "j < length log" "rec_type (log ! j) = kCommit" "rec_txn_id (log ! j) = i" using assms(1) by (auto simp: in_set_conv_nth)
  have "length (ww_file (append_all w (take (Suc j) log))) \<le> n" using commit_synced [of w j log] assms(4,5) j by simp
  then have "length (concat (map frame (take (Suc j) ?rs))) \<le> n" using assms(2,3) by (simp add: append_all_file take_numbered)
  then have "Suc j \<le> complete n ?rs" using j(1) by (intro complete_covers) simp_all
  then have "log ! j \<in> set (take (complete n ?rs) log)" using j(1) by (auto simp: in_set_conv_nth)
  with j show ?thesis by blast
qed

text \<open>The records that a cut of the log leaves.\<close>

lemma read_cut:
  assumes "list_all encodable log" "\<forall>r\<in>set log. stored r = r" "n \<le> length (concat (map frame (numbered 1 log)))" "n < 2 ^ 64"
    and "fs p = Some (take n (concat (map frame (numbered 1 log))))"
  shows "wr_records (ReadAll ec fs p) = numbered 1 (take (complete n (numbered 1 log)) log)"
proof -
  let ?k = "complete n (numbered 1 log)"
  have "ReadAll ec fs p = (absorb (take ?k (numbered 1 log)) default_WalReadResult)
      \<lparr>wr_truncated_tail := length (concat (map frame (take ?k (numbered 1 log)))) < n\<rparr>"
    using assms(3-5) encodable_numbered [OF assms(1)] by (intro ReadAll_cut) simp_all
  moreover have "\<forall>r\<in>set (take ?k log). stored r = r" using assms(2) in_set_takeD by fast
  note stored_numbered [OF this, of 1]
  ultimately show ?thesis by (auto simp: absorb_def default_WalReadResult_def take_numbered)
qed

section \<open>Properties\<close>

text \<open>
  C2: crash recovery, end to end. Take any execution of a process that opened a database in a directory without
  a log and a manifest, and in which any number of transactions begin, insert, update, delete, commit and abort, one
  operation after the other in any order, and nothing is compacted and no checkpoint is taken; and cut
  its log at any byte. The database reopened on it reports no error, and a new reader finds in it, up to
  order, exactly the rows that a new reader would have found at some moment of that execution. If the writer
  syncs at commits and the cut spares the synced bytes, every transaction that committed had
  committed by that moment.
\<close>

theorem reopened_database:
  assumes "OpenDatabase env fs dir schema cfg = Inr db0" and "fs (wal_path dir) = None" and "fs (manifest_path dir) = None"
    and "db_run (db0, []) log (db, act)" and "list_all encodable log" and "length (ww_file (db_wal_writer db)) < 2 ^ 64"
    and "n \<le> length (ww_file (db_wal_writer db))" and "fs' = fs(wal_path dir \<mapsto> take n (ww_file (db_wal_writer db)))"
    and "\<not> oe_mkdir_fails env'" and "oe_can_open env'"
    and "\<forall>xs. mset (ord xs) = mset xs"
  shows "\<exists>k mid act' db' rows rows'. db_run (db0, []) (take k log) (mid, act') \<and>
    OpenDatabase env' fs' dir schema cfg' = Inr db' \<and> rs_error (db_recovery_stats db') = NoError \<and>
    new_reader_rows ord (db_table mid) = Inr rows \<and> new_reader_rows ord (db_table db') = Inr rows' \<and> mset rows' = mset rows \<and>
    (wc_durability cfg \<noteq> kNoSync \<and> ww_synced (db_wal_writer db) \<le> n \<longrightarrow>
      (\<forall>i. committed (tb_txn_mgr (db_table db)) i \<longrightarrow> committed (tb_txn_mgr (db_table mid)) i))"
proof -
  let ?w = "db_wal_writer db0" and ?rs = "numbered 1 log"
  let ?k = "complete n ?rs"
  note new = open_new [OF assms(1-3)]
  have w: "db_wal_writer db = append_all ?w log" using db_log.run_writer [OF assms(4)] by simp
  have content: "ww_file (db_wal_writer db) = concat (map frame ?rs)" using new by (simp add: w append_all_file)
  have n64: "n < 2 ^ 64" using assms(6,7) by simp
  have len: "8 * length log \<le> length (ww_file (db_wal_writer db))"
  proof -
    have "8 * length rs \<le> length (concat (map frame rs))" for rs by (induction rs) simp_all
    from this [of ?rs] show ?thesis unfolding content by simp
  qed
  obtain mid act' where mid: "db_run (db0, []) (take ?k log) (mid, act')" using db_log.run_prefix [OF assms(4)] by fast
  have inv: "db_inv (mid, act') (take ?k log)" "db_inv (db, act) log"
    using db_inv_run [OF mid] db_inv_run [OF assms(4)] new by simp_all
  have "\<forall>r\<in>set log. stored r = r" using inv(2) by (simp add: db_inv_def Let_def)
  then have read: "wr_records (ReadAll ec fs' (wal_path dir)) = numbered 1 (take ?k log)" for ec
    using read_cut [OF assms(5), of n] assms(7,8) n64 by (simp add: content)
  have l62: "length (take ?k log) < 2 ^ 62" using len assms(6) by simp
  have fsm: "fs' (manifest_path dir) = None" using assms(3,8) manifest_not_wal by simp
  obtain rows where rows: "new_reader_rows ord (db_table mid) = Inr rows"
    "mset rows = visible_rows (logged_row (committed (tb_txn_mgr (db_table mid))) (take ?k log))"
    using db_reader_rows [OF inv(1), of ord] l62 assms(11) by auto
  obtain db' rows' where db': "OpenDatabase env' fs' dir schema cfg' = Inr db'" "rs_error (db_recovery_stats db') = NoError"
    "new_reader_rows ord (db_table db') = Inr rows'"
    "mset rows' = visible_rows (logged_row (committed (tb_txn_mgr (db_table mid))) (take ?k log))"
    using open_log [OF db_inv_log [OF inv(1)] l62 read fsm assms(9-11)] by blast
  have "committed (tb_txn_mgr (db_table mid)) i"
    if "wc_durability cfg \<noteq> kNoSync" "ww_synced (db_wal_writer db) \<le> n" "committed (tb_txn_mgr (db_table db)) i" for i
    using synced_commit [of log i ?w n] that new by (simp add: w db_inv_log(1) [OF inv(1)] db_inv_log(1) [OF inv(2)])
  with mid rows db' show ?thesis by metis
qed

definition sample_env :: open_env where
  "sample_env = \<lparr>oe_mkdir_fails = False, oe_can_open = True, oe_size_ec = False, oe_sched = [], oe_duration = 0\<rparr>"

definition sample_cfg :: WalWriterConfig where
  "sample_cfg = \<lparr>wc_durability = kSyncEveryCommit, wc_starting_lsn = 1\<rparr>"

text \<open>An execution of one transaction that inserts a row and commits.\<close>

definition sample_log :: "WalRecord list" where
  "sample_log =
     (let t = default_WalRecord\<lparr>rec_txn_id := 1\<rparr> in
      [t\<lparr>rec_type := kBegin\<rparr>, t\<lparr>rec_type := kInsert, rec_row_id := 1, rec_row := [VInt64 5]\<rparr>, t\<lparr>rec_type := kCommit\<rparr>])"

lemma sample_open:
  "\<exists>db. OpenDatabase sample_env Map.empty ''d'' schema sample_cfg = Inr db \<and> db_table db = MakeTable ''db'' schema"
  by (auto simp: OpenDatabase_def sample_env_def Recover_def replay_log_def recovery_config_def default_WalReadResult_def
      replayed_ops_def shard_ops_def default_RecoveryStats_def LoadManifest_def ReadAll_def open_WalWriter_def MakeTable_def
      run_workers.simps first_busy_def busy_def)

lemma sample_start:
  assumes "db_table db0 = MakeTable ''db'' schema"
  obtains t db where "db_run (db0, []) (take 2 sample_log) (db, [t])" "sample_log = take 2 sample_log @ [mark t kCommit]"
    "t = \<lparr>txn_id = 1, snapshot_ts = 0, commit_ts = 0, txn_state = kActive\<rparr>"
    "tb_txn_mgr (db_table db) = new_TransactionManager\<lparr>tm_next_id := 2, tm_active_snapshots := {#0#}, tm_active_txn_ids := {1}\<rparr>"
    "tb_delta (db_table db) = DeltaInsert [] 1 1 [VInt64 5]" "tb_base_segments (db_table db) = []"
proof -
  note defs = DbBegin_def DbInsert_def TableBegin_def TxnBegin_def TableInsert_def MakeTable_def new_TransactionManager_def Let_def
  obtain t db1 where b: "DbBegin db0 = (t, db1)" by fastforce
  have t: "t = \<lparr>txn_id = 1, snapshot_ts = 0, commit_ts = 0, txn_state = kActive\<rparr>"
    and db1: "tb_txn_mgr (db_table db1) = new_TransactionManager\<lparr>tm_next_id := 2, tm_active_snapshots := {#0#}, tm_active_txn_ids := {1}\<rparr>"
      "tb_next_row_id (db_table db1) = 1" "tb_delta (db_table db1) = []" "tb_base_segments (db_table db1) = []"
    using b by (auto simp: defs assms split: prod.splits)
  obtain x db2 where i: "DbInsert db1 t [VInt64 5] = (x, db2)" by fastforce
  have db2: "tb_txn_mgr (db_table db2) = tb_txn_mgr (db_table db1)" "x = 1"
      "tb_delta (db_table db2) = DeltaInsert [] 1 1 [VInt64 5]" "tb_base_segments (db_table db2) = []"
    using i db1(2-) t by (auto simp: DbInsert_def TableInsert_def Let_def split: prod.splits)
  have "db_run (db0, []) ([] @ [mark t kBegin]) (db1, [t])"
    by (rule db_run_step [OF db_run_refl db_begin [OF _ b]]) (simp add: assms MakeTable_def new_TransactionManager_def)
  from db_run_step [OF this db_insert [OF _ _ i]]
  have "db_run (db0, []) (take 2 sample_log) (db2, [t])" by (simp add: db1 db2(2) t sample_log_def Let_def)
  from that [OF this _ t _ db2(3,4)] db1(1) db2(1) show ?thesis by (simp add: sample_log_def Let_def t)
qed

lemma sample_run:
  assumes "db_table db0 = MakeTable ''db'' schema"
  shows "\<exists>db. db_run (db0, []) sample_log (db, []) \<and> committed (tb_txn_mgr (db_table db)) 1 \<and>
    tb_txn_mgr (db_table db) = tm_after 3 2 [(1, 2)]"
  using assms
proof (rule sample_start)
  fix t db
  assume s: "db_run (db0, []) (take 2 sample_log) (db, [t])" "sample_log = take 2 sample_log @ [mark t kCommit]"
    "t = \<lparr>txn_id = 1, snapshot_ts = 0, commit_ts = 0, txn_state = kActive\<rparr>"
    "tb_txn_mgr (db_table db) = new_TransactionManager\<lparr>tm_next_id := 2, tm_active_snapshots := {#0#}, tm_active_txn_ids := {1}\<rparr>"
    "tb_delta (db_table db) = DeltaInsert [] 1 1 [VInt64 5]" "tb_base_segments (db_table db) = []"
  obtain t' db3 where c: "DbCommit db t = Inr (t', db3)" "tb_txn_mgr (db_table db3) = tm_after 3 2 [(1, 2)]"
    by (simp add: DbCommit_def TableCommit_def AppendMark_def AppendRecord_frame TxnCommit_def erase_snapshot_def Let_def
        s(3,4) new_TransactionManager_def tm_after_def fun_eq_iff)
  have "db_step (db, [t]) [mark t kCommit] (db3, remove1 t [t])" using c(1) by (intro db_commit) (simp_all add: s(4))
  from db_run_step [OF s(1) this] have "db_run (db0, []) sample_log (db3, [])" using s(2) by simp
  then show ?thesis using c(2) by (auto simp: GetStatus_def tm_after_def)
qed

lemma sample_log_encodable: "list_all encodable sample_log"
  by (simp add: sample_log_def Let_def encodable_def default_WalRecord_def EncodeBody_def AppendValue_def value_fits_def
      WalRecordType_of_byte_def WalRecordType_to_byte_def)

theorem reopened_database_witness:
  "\<exists>fs db'. OpenDatabase sample_env fs ''d'' [\<lparr>cs_name = ''k'', cs_type = kInt64\<rparr>] sample_cfg = Inr db' \<and>
    rs_error (db_recovery_stats db') = NoError \<and> fs (wal_path ''d'') \<noteq> None"
proof -
  let ?sch = "[\<lparr>cs_name = ''k'', cs_type = kInt64\<rparr>]"
  obtain db0 where db0: "OpenDatabase sample_env Map.empty ''d'' ?sch sample_cfg = Inr db0" "db_table db0 = MakeTable ''db'' ?sch"
    using sample_open by blast
  obtain db where db: "db_run (db0, []) sample_log (db, [])" using sample_run [OF db0(2)] by blast
  have "db_wal_writer db = append_all (db_wal_writer db0) sample_log" "ww_file (db_wal_writer db0) = []" "ww_next_lsn (db_wal_writer db0) = 1"
    using db_log.run_writer [OF db] open_new [OF db0(1)] by simp_all
  then have "ww_file (db_wal_writer db) = concat (map frame (numbered 1 sample_log))" by (simp add: append_all_file)
  then have len: "length (ww_file (db_wal_writer db)) < 2 ^ 64"
    by (simp add: sample_log_def Let_def EncodeBody_def AppendValue_def default_WalRecord_def)
  have "\<forall>xs :: (u64 \<times> Row) list. mset (id xs) = mset xs" by simp
  moreover have env: "\<not> oe_mkdir_fails sample_env" "oe_can_open sample_env" by (simp_all add: sample_env_def)
  ultimately show ?thesis using reopened_database [OF db0(1) refl refl db sample_log_encodable len le_refl refl env, of id sample_cfg] by fastforce
qed

end
