(* ===== verification/RecoveryLimits.thy ===== *)
theory RecoveryLimits
  imports CrashRecovery
begin

text \<open>
  Where recovery stops being right: transaction ids restart with every process while the log goes on, and a
  checkpoint leaves out rows whose deletion was aborted. Both are executions of
  the database operations, evaluated.
\<close>

section \<open>Recovery that replays nothing\<close>

lemma replay_log_idle:
  assumes "replayed_ops lsn (wr_records (ReadAll ec fs (rc_wal_path config))) = []" "tb_base_segments tb = []"
  shows "\<exists>stats'. replay_log sched ec fs dur config lsn stats tb = Inr (stats', tb) \<and>
    rs_last_wal_lsn stats' = max (wr_last_valid_lsn (ReadAll ec fs (rc_wal_path config))) lsn"
proof -
  have "first_busy (map (Pair Next) (shard_ops nw [])) = None" for nw
    by (auto simp: first_busy_def find_None_iff busy_def shard_ops_def)
  then show ?thesis using assms(1,2) by (simp add: replay_log_def Let_def run_workers.simps)
qed

text \<open>The bytes of a log and what reading them gives.\<close>

lemma read_frames:
  assumes "list_all encodable log" "\<forall>r\<in>set log. stored r = r" "log \<noteq> []" "length (concat (map frame (numbered 1 log))) < 2 ^ 64"
    and "fs p = Some (concat (map frame (numbered 1 log)))"
  shows "wr_records (ReadAll ec fs p) = numbered 1 log \<and> wr_last_valid_lsn (ReadAll ec fs p) = of_nat (length log)"
proof -
  let ?rs = "numbered 1 log"
  let ?n = "length (concat (map frame ?rs))"
  have "ReadAll ec fs p = (absorb (take (complete ?n ?rs) ?rs) default_WalReadResult)
      \<lparr>wr_truncated_tail := length (concat (map frame (take (complete ?n ?rs) ?rs))) < ?n\<rparr>"
    using encodable_numbered [OF assms(1)] assms(4,5) by (intro ReadAll_cut) simp_all
  moreover have "length ?rs \<le> complete ?n ?rs" by (rule complete_covers) simp_all
  then have "take (complete ?n ?rs) ?rs = ?rs" by (rule take_all)
  ultimately have "ReadAll ec fs p = (absorb ?rs default_WalReadResult)\<lparr>wr_truncated_tail := False\<rparr>"
    by (simp only:) simp
  moreover have "?rs \<noteq> []" using assms(3) by (metis length_numbered length_0_conv)
  ultimately show ?thesis
    using stored_numbered [OF assms(2)] last_numbered [OF assms(3), of 1] by (simp add: absorb_def default_WalReadResult_def)
qed

abbreviation one_column :: Schema where
  "one_column \<equiv> [\<lparr>cs_name = ''k'', cs_type = kInt64\<rparr>]"

abbreviation on_disk :: "Database \<Rightarrow> files \<Rightarrow> files" where
  "on_disk db fs \<equiv> fs(wal_path ''d'' \<mapsto> ww_file (db_wal_writer db))"

section \<open>Transaction ids are used again\<close>

text \<open>
  A process inserts a row and crashes before its commit. The next process finds no row, begins a
  transaction, commits it without having written anything, and crashes. What the second and the third
  process find:
\<close>

definition reused_transaction_id :: "(Row list \<times> Row list) res" where
  "reused_transaction_id =
     bind_res (OpenDatabase sample_env Map.empty ''d'' one_column sample_cfg) (\<lambda>db0.
       let (t, db) = DbBegin db0; (x, db) = DbInsert db t [VInt64 10] in
     bind_res (OpenDatabase sample_env (on_disk db Map.empty) ''d'' one_column sample_cfg) (\<lambda>db1.
     bind_res (new_reader_rows id (db_table db1)) (\<lambda>second.
       let (t, db) = DbBegin db1 in
     bind_res (DbCommit db t) (\<lambda>(t, db).
     bind_res (OpenDatabase sample_env (on_disk db Map.empty) ''d'' one_column sample_cfg) (\<lambda>db2.
     bind_res (new_reader_rows id (db_table db2)) (\<lambda>third.
       Inr (second, third)))))))"

lemma open_idle:
  assumes "replayed_ops 0 (wr_records (ReadAll False fs (wal_path dir))) = []" "fs (manifest_path dir) = None"
  shows "\<exists>db. OpenDatabase sample_env fs dir schema sample_cfg = Inr db \<and> db_table db = MakeTable ''db'' schema \<and>
    db_data_dir db = dir \<and> ww_file (db_wal_writer db) = (case fs (wal_path dir) of None \<Rightarrow> [] | Some bs \<Rightarrow> bs) \<and>
    ww_next_lsn (db_wal_writer db) = wr_last_valid_lsn (ReadAll False fs (wal_path dir)) + 1"
proof -
  have "tb_base_segments (MakeTable ''db'' schema) = []" by (simp add: MakeTable_def)
  moreover have "replayed_ops 0 (wr_records (ReadAll False fs (rc_wal_path (recovery_config dir)))) = []"
    using assms(1) by (simp add: recovery_config_def)
  ultimately obtain stats where "Recover (oe_sched sample_env) False fs 0 (recovery_config dir) (MakeTable ''db'' schema) =
      Inr (stats, MakeTable ''db'' schema)" "rs_last_wal_lsn stats = wr_last_valid_lsn (ReadAll False fs (wal_path dir))"
    using replay_log_idle [of 0 False fs "recovery_config dir" "MakeTable ''db'' schema" "oe_sched sample_env" 0] assms(2)
    by (auto simp: Recover_def LoadManifest_def recovery_config_def)
  then show ?thesis by (simp add: OpenDatabase_def open_WalWriter_def Let_def sample_env_def)
qed

lemma open_empty_checkpoint:
  assumes "LoadManifest fs (manifest_path dir) = Inr \<lparr>mf_last_lsn = lsn, mf_segment_files = []\<rparr>"
    and "replayed_ops lsn (wr_records (ReadAll False fs (rc_wal_path (recovery_config dir)))) = []"
  shows "\<exists>db. OpenDatabase sample_env fs dir schema sample_cfg = Inr db \<and> db_table db = MakeTable ''db'' schema"
proof -
  let ?st = "default_RecoveryStats\<lparr>rs_num_workers := 1, rs_checkpoint_found := True, rs_checkpoint_lsn := lsn\<rparr>"
  have "(MakeTable ''db'' schema)\<lparr>tb_base_segments := []\<rparr> = MakeTable ''db'' schema" by (simp add: MakeTable_def)
  then have "Recover [] False fs 0 (recovery_config dir) (MakeTable ''db'' schema) =
      replay_log [] False fs 0 (recovery_config dir) lsn ?st (MakeTable ''db'' schema)"
    using assms(1) by (simp add: Recover_def recovery_config_def LoadBaseSegments_def Let_def)
  moreover have "tb_base_segments (MakeTable ''db'' schema) = []" by (simp add: MakeTable_def)
  note replay_log_idle [OF assms(2) this, of "[]" 0 ?st]
  ultimately obtain stats where
    "Recover [] False fs 0 (recovery_config dir) (MakeTable ''db'' schema) = Inr (stats, MakeTable ''db'' schema)"
    by auto
  then show ?thesis by (auto simp: OpenDatabase_def open_WalWriter_def Let_def sample_env_def)
qed

text \<open>The first transaction of a process, on a table that recovery left empty.\<close>

lemma first_begin:
  assumes "db_table db = MakeTable name schema" "DbBegin db = (t, db')"
  shows "t = \<lparr>txn_id = 1, snapshot_ts = 0, commit_ts = 0, txn_state = kActive\<rparr> \<and>
    db_table db' = (MakeTable name schema)\<lparr>tb_txn_mgr :=
      new_TransactionManager\<lparr>tm_next_id := 2, tm_active_snapshots := {#0#}, tm_active_txn_ids := {1}\<rparr>\<rparr> \<and>
    db_wal_writer db' = append_all (db_wal_writer db) [mark t kBegin] \<and> db_data_dir db' = db_data_dir db"
  using assms
  by (auto simp: DbBegin_def AppendMark_def TableBegin_def TxnBegin_def MakeTable_def new_TransactionManager_def Let_def split: prod.splits)

lemma first_commit:
  assumes "tb_txn_mgr (db_table db) =
      new_TransactionManager\<lparr>tm_next_id := 2, tm_active_snapshots := {#0#}, tm_active_txn_ids := {1}\<rparr>"
    and "t = \<lparr>txn_id = 1, snapshot_ts = 0, commit_ts = 0, txn_state = kActive\<rparr>"
  shows "\<exists>t' db'. DbCommit db t = Inr (t', db') \<and>
    db_table db' = (db_table db)\<lparr>tb_txn_mgr := tm_after 3 2 [(1, 2)]\<rparr> \<and>
    db_wal_writer db' = append_all (db_wal_writer db) [mark t kCommit] \<and> db_data_dir db' = db_data_dir db"
  using assms
  by (simp add: DbCommit_def TableCommit_def AppendMark_def AppendRecord_frame TxnCommit_def erase_snapshot_def Let_def
      new_TransactionManager_def tm_after_def fun_eq_iff)

lemma DbInsert_parts:
  assumes "DbInsert db t row = (x, db')"
  shows "x = tb_next_row_id (db_table db) \<and> tb_txn_mgr (db_table db') = tb_txn_mgr (db_table db) \<and>
    db_table db' = (db_table db)\<lparr>tb_next_row_id := x + 1, tb_delta := DeltaInsert (tb_delta (db_table db)) x (txn_id t) row\<rparr> \<and>
    db_wal_writer db' = append_all (db_wal_writer db) [write_of t kInsert x row] \<and> db_data_dir db' = db_data_dir db"
  using assms by (auto simp: DbInsert_def AppendRow_def TableInsert_def Let_def split: prod.splits)

lemma unwritten_reader: "new_reader_rows id (MakeTable name schema) = Inr []"
  by (simp add: new_reader_rows_def TableBegin_def TxnBegin_def MakeTable_def MaterializeVisibleRows_def SnapshotForScan_def
      DeltaSnapshot_def Let_def)

abbreviation txn1 :: Transaction where
  "txn1 \<equiv> \<lparr>txn_id = 1, snapshot_ts = 0, commit_ts = 0, txn_state = kActive\<rparr>"

lemma marks_encodable:
  "encodable (mark txn1 kBegin)" "encodable (mark txn1 kCommit)" "encodable (write_of txn1 kInsert 1 [VInt64 10])"
  by (simp_all add: encodable_def default_WalRecord_def EncodeBody_def AppendValue_def value_fits_def
      WalRecordType_of_byte_def WalRecordType_to_byte_def)

text \<open>
  C37: transaction ids start again at 1 in every process, but recovery looks for commit records of an id in the
  whole log: the uncommitted insertion of the first process, absent in the second, comes back in
  the third.
\<close>

theorem uncommitted_insert_comes_back: "reused_transaction_id = Inr ([], [[VInt64 10]])"
proof -
  let ?b = "mark txn1 kBegin" and ?i = "write_of txn1 kInsert 1 [VInt64 10]" and ?c = "mark txn1 kCommit"
  obtain db0 where db0: "OpenDatabase sample_env Map.empty ''d'' one_column sample_cfg = Inr db0" "db_table db0 = MakeTable ''db'' one_column"
    "ww_file (db_wal_writer db0) = []" "ww_next_lsn (db_wal_writer db0) = 1"
    using open_idle [of Map.empty "''d''" one_column] by (auto simp: ReadAll_def default_WalReadResult_def replayed_ops_def)
  obtain t db1 where b: "DbBegin db0 = (t, db1)" by fastforce
  note B = first_begin [OF db0(2) b]
  then have t: "t = txn1" by simp
  obtain x db2 where i: "DbInsert db1 t [VInt64 10] = (x, db2)" by fastforce
  have x: "x = 1" using DbInsert_parts [OF i] B by (simp add: MakeTable_def)
  have f2: "ww_file (db_wal_writer db2) = concat (map frame (numbered 1 [?b, ?i]))"
    using DbInsert_parts [OF i] B db0(3,4) x by (simp add: AppendRecord_frame Let_def)
  let ?fs1 = "on_disk db2 Map.empty"
  have r1: "wr_records (ReadAll False ?fs1 (wal_path ''d'')) = numbered 1 [?b, ?i] \<and>
      wr_last_valid_lsn (ReadAll False ?fs1 (wal_path ''d'')) = of_nat (length [?b, ?i])"
    using marks_encodable f2 by (intro read_frames) (simp_all add: EncodeBody_def AppendValue_def default_WalRecord_def stored_def)
  then have "replayed_ops 0 (wr_records (ReadAll False ?fs1 (wal_path ''d''))) = []"
    by (simp add: replayed_ops_def committed_ids_def)
  from open_idle [OF this] obtain db3 where db3: "OpenDatabase sample_env ?fs1 ''d'' one_column sample_cfg = Inr db3"
    "db_table db3 = MakeTable ''db'' one_column" "ww_file (db_wal_writer db3) = concat (map frame (numbered 1 [?b, ?i]))"
    "ww_next_lsn (db_wal_writer db3) = 3"
    using r1 f2 manifest_not_wal by auto
  obtain t4 db4 where b4: "DbBegin db3 = (t4, db4)" by fastforce
  note B4 = first_begin [OF db3(2) b4]
  obtain t5 db5 where c5: "DbCommit db4 t4 = Inr (t5, db5)" "db_wal_writer db5 = append_all (db_wal_writer db4) [mark t4 kCommit]"
    using first_commit [of db4 t4] B4 by auto
  let ?log = "[?b, ?i, ?b, ?c]"
  have f5: "ww_file (db_wal_writer db5) = concat (map frame (numbered 1 ?log))"
    using c5(2) B4 db3(3,4) by (simp add: AppendRecord_frame Let_def)
  let ?fs2 = "on_disk db5 Map.empty"
  have r2: "wr_records (ReadAll False ?fs2 (wal_path ''d'')) = numbered 1 ?log \<and>
      wr_last_valid_lsn (ReadAll False ?fs2 (wal_path ''d'')) = of_nat (length ?log)"
    using marks_encodable f5 by (intro read_frames) (simp_all add: EncodeBody_def AppendValue_def default_WalRecord_def stored_def)
  let ?op = "?i\<lparr>rec_lsn := 2\<rparr>"
  have ops: "[?op] = replayed_ops 0 (wr_records (ReadAll False ?fs2 (rc_wal_path (recovery_config ''d''))))"
    using r2 by (simp add: recovery_config_def replayed_ops_def committed_ids_def)
  have cp: "checkpoint_holds ?fs2 (recovery_config ''d'') (tb_full_schema (MakeTable ''db'' one_column)) 0 []"
    using manifest_not_wal by (simp add: checkpoint_holds_def LoadManifest_def recovery_config_def)
  have "\<exists>stats tb rows. Recover [] False ?fs2 0 (recovery_config ''d'') (MakeTable ''db'' one_column) = Inr (stats, tb) \<and> rs_error stats = NoError \<and>
      rs_checksum_verification_passed stats \<and> rs_operations_replayed stats = of_nat (length [?op]) \<and>
      new_reader_rows id tb = Inr rows \<and> mset rows = visible_rows (replay_map rec_row_id row_cell [?op] (map_of []))"
    by (rule Recover_replays [OF cp _ ops]) (simp_all add: row_adm_def)
  moreover have "visible_rows (replay_map rec_row_id row_cell [?op] (map_of [])) = {#[VInt64 10]#}"
    by (simp add: replay_map_Cons row_cell_def visible_rows_def)
  ultimately obtain db6 where db6: "OpenDatabase sample_env ?fs2 ''d'' one_column sample_cfg = Inr db6"
    "new_reader_rows id (db_table db6) = Inr [[VInt64 10]]"
    by (auto simp: OpenDatabase_def open_WalWriter_def Let_def sample_env_def)
  show ?thesis using db0(1) b i db3(1,2) b4 c5(1) db6 unwritten_reader by (simp add: reused_transaction_id_def)
qed

section \<open>A checkpoint after an aborted delete\<close>

text \<open>
  A transaction inserts a row and commits; a second one deletes the row and aborts; with no transaction left,
  the database is checkpointed; the process crashes. What a new reader finds before the crash, and after
  the database has been opened again:
\<close>

definition checkpoint_after_aborted_delete :: "(bool \<times> CheckpointError option \<times> Row list \<times> Row list) res" where
  "checkpoint_after_aborted_delete =
     bind_res (OpenDatabase sample_env Map.empty ''d'' one_column sample_cfg) (\<lambda>db0.
       let (t, db) = DbBegin db0; (x, db) = DbInsert db t [VInt64 10] in
     bind_res (DbCommit db t) (\<lambda>(t, db).
       let (u, db) = DbBegin db in
     bind_res (DbDelete db u x) (\<lambda>(deleted, db).
     bind_res (DbAbort db u) (\<lambda>(u, db).
     bind_res (DbCheckpoint id 0 (\<lambda>_. False) (\<lambda>_. Written) db Map.empty) (\<lambda>(failure, db, fs).
     bind_res (new_reader_rows id (db_table db)) (\<lambda>before.
     bind_res (OpenDatabase sample_env (on_disk db fs) ''d'' one_column sample_cfg) (\<lambda>db1.
     bind_res (new_reader_rows id (db_table db1)) (\<lambda>after.
       Inr (deleted, failure, before, after)))))))))"

abbreviation txn3 :: Transaction where
  "txn3 \<equiv> \<lparr>txn_id = 3, snapshot_ts = 2, commit_ts = 0, txn_state = kActive\<rparr>"

definition tm_aborted :: TransactionManager where
  "tm_aborted = (tm_after 4 2 [(1, 2)])
     \<lparr>tm_status := (tm_status (tm_after 4 2 [(1, 2)]))(3 \<mapsto> \<lparr>st_state = kAborted, st_commit_ts = 0\<rparr>)\<rparr>"

text \<open>The second transaction: begun after the commit, it claims the row and aborts.\<close>

lemma aborted_delete:
  assumes "db_table db = tb\<lparr>tb_txn_mgr := tm_after 3 2 [(1, 2)]\<rparr>" "tb_base_segments tb = []"
    and "tb_delta tb = [r]" "r = \<lparr>dr_row_id = 1, dr_created_txn = 1, dr_deleted_txn = 0, dr_row = row, dr_is_base_tombstone = False\<rparr>"
  shows "\<exists>db1 db2 u db3. DbBegin db = (txn3, db1) \<and> DbDelete db1 txn3 1 = Inr (True, db2) \<and> DbAbort db2 txn3 = Inr (u, db3) \<and>
    db_table db3 = tb\<lparr>tb_txn_mgr := tm_aborted, tb_delta := [r\<lparr>dr_deleted_txn := 3\<rparr>]\<rparr> \<and> db_data_dir db3 = db_data_dir db \<and>
    db_wal_writer db3 = append_all (db_wal_writer db) [mark txn3 kBegin, write_of txn3 kDelete 1 [], mark txn3 kAbort]"
proof -
  let ?tm = "(tm_after 4 2 [(1, 2)])\<lparr>tm_active_snapshots := {#2#}, tm_active_txn_ids := {3}\<rparr>"
  let ?db1 = "db\<lparr>db_table := tb\<lparr>tb_txn_mgr := ?tm\<rparr>, db_wal_writer := append_all (db_wal_writer db) [mark txn3 kBegin]\<rparr>"
  let ?db2 = "?db1\<lparr>db_table := tb\<lparr>tb_txn_mgr := ?tm, tb_delta := [r\<lparr>dr_deleted_txn := 3\<rparr>]\<rparr>,
    db_wal_writer := append_all (db_wal_writer db) [mark txn3 kBegin, write_of txn3 kDelete 1 []]\<rparr>"
  have "DbBegin db = (txn3, ?db1)"
    by (simp add: DbBegin_def TableBegin_def TxnBegin_def AppendMark_def tm_after_def assms(1) Let_def split_beta)
  moreover have "judge r txn3 ?tm = Claim"
    by (simp add: judge_def assms(4) IsVisible_def committed_by_def GetStatus_def tm_after_def Let_def)
  then have "DbDelete ?db1 txn3 1 = Inr (True, ?db2)"
    using assms(2,3) by (simp add: DbDelete_def TableDelete_def RowIdExistsInBase_def ClaimOrInsertBaseTombstone_def AppendRow_def
        Let_def split_beta) (simp add: assms(4))
  moreover have "\<exists>u. DbAbort ?db2 txn3 = Inr (u, ?db2\<lparr>db_table := tb\<lparr>tb_txn_mgr := tm_aborted, tb_delta := [r\<lparr>dr_deleted_txn := 3\<rparr>]\<rparr>,
      db_wal_writer := append_all (db_wal_writer db) [mark txn3 kBegin, write_of txn3 kDelete 1 [], mark txn3 kAbort]\<rparr>)"
    by (simp add: DbAbort_def TableAbort_def TxnAbort_def erase_snapshot_def AppendMark_def tm_aborted_def tm_after_def Let_def split_beta)
  ultimately show ?thesis by fastforce
qed

lemma marks_encodable3:
  "encodable (mark txn3 kBegin)" "encodable (write_of txn3 kDelete 1 [])" "encodable (mark txn3 kAbort)"
  by (simp_all add: encodable_def default_WalRecord_def EncodeBody_def WalRecordType_of_byte_def WalRecordType_to_byte_def)

text \<open>
  C38: a checkpoint at a quiescent point can lose a committed row. Compaction keeps a version whose deletion was
  aborted in the delta layer, which no checkpoint saves, while the manifest declares the whole log
  covered: after the checkpoint has reported success, the row is gone at the next start.
\<close>

theorem checkpoint_loses_committed_row: "checkpoint_after_aborted_delete = Inr (True, None, [[VInt64 10]], [])"
proof -
  let ?b = "mark txn1 kBegin" and ?i = "write_of txn1 kInsert 1 [VInt64 10]" and ?c = "mark txn1 kCommit"
  let ?log = "[?b, ?i, ?c, mark txn3 kBegin, write_of txn3 kDelete 1 [], mark txn3 kAbort]"
  define r where "r = \<lparr>dr_row_id = 1, dr_created_txn = 1, dr_deleted_txn = 0, dr_row = [VInt64 10], dr_is_base_tombstone = False\<rparr>"
  let ?r = "r\<lparr>dr_deleted_txn := 3\<rparr>"
  obtain db0 where db0: "OpenDatabase sample_env Map.empty ''d'' one_column sample_cfg = Inr db0" "db_table db0 = MakeTable ''db'' one_column"
    "ww_file (db_wal_writer db0) = []" "ww_next_lsn (db_wal_writer db0) = 1" and dir: "db_data_dir db0 = ''d''"
    using open_idle [of Map.empty "''d''" one_column] by (auto simp: ReadAll_def default_WalReadResult_def replayed_ops_def)
  obtain t db1 where b: "DbBegin db0 = (t, db1)" by fastforce
  note B = first_begin [OF db0(2) b]
  then have t: "t = txn1" by simp
  obtain x db2 where i: "DbInsert db1 t [VInt64 10] = (x, db2)" by fastforce
  have x: "x = 1" using DbInsert_parts [OF i] B by (simp add: MakeTable_def)
  have tb2: "tb_delta (db_table db2) = [r]" "tb_base_segments (db_table db2) = []" "db_data_dir db2 = ''d''"
    using DbInsert_parts [OF i] B x dir by (simp_all add: DeltaInsert_def MakeTable_def r_def)
  obtain t4 db3 where c: "DbCommit db2 t = Inr (t4, db3)" "db_table db3 = (db_table db2)\<lparr>tb_txn_mgr := tm_after 3 2 [(1, 2)]\<rparr>"
    "db_wal_writer db3 = append_all (db_wal_writer db2) [?c]" "db_data_dir db3 = ''d''"
    using first_commit [of db2 t] DbInsert_parts [OF i] B t tb2(3) by auto
  obtain db4 db5 u db6 where d: "DbBegin db3 = (txn3, db4)" "DbDelete db4 txn3 1 = Inr (True, db5)" "DbAbort db5 txn3 = Inr (u, db6)"
    "db_table db6 = (db_table db2)\<lparr>tb_txn_mgr := tm_aborted, tb_delta := [?r]\<rparr>" "db_data_dir db6 = ''d''"
    "db_wal_writer db6 = append_all (db_wal_writer db3) [mark txn3 kBegin, write_of txn3 kDelete 1 [], mark txn3 kAbort]"
    using aborted_delete [OF c(2) tb2(2,1) r_def] c(4) by auto
  have w: "db_wal_writer db6 = append_all (db_wal_writer db0) ?log"
    using DbInsert_parts [OF i] B x c(3) by (simp add: d(6))
  have lsn: "last_lsn (db_wal_writer db6) = 6" and f6: "ww_file (db_wal_writer db6) = concat (map frame (numbered 1 ?log))"
    using db0(3,4) by (simp_all add: w last_lsn_def AppendRecord_frame Let_def)
  have "fate tm_aborted True ?r = Retained"
    by (simp add: fate_def stable_txn_def aborted_txn_def committed_by_def GetStatus_def tm_aborted_def tm_after_def r_def
        OldestActiveSnapshot_def)
  then have "fated tm_aborted f [?r] = (if f = Retained then [?r] else [])" for f by (simp add: is_last_def)
  then obtain tb where tb: "Compact id 0 (db_table db6) = Inr tb" "tb_base_segments tb = []" "tb_delta tb = [?r]" "tb_txn_mgr tb = tm_aborted"
    using tb2(2) by (simp add: Compact_def d(4) DeltaSnapshot_def ReplaceAll_def compact_delta_fated rebuild_base_def Let_def)
  define fs where "fs = [manifest_path ''d'' \<mapsto> text_bytes (manifest_text \<lparr>mf_last_lsn = 6, mf_segment_files = []\<rparr>)]"
  let ?db7 = "db6\<lparr>db_table := tb, db_wal_writer := WalFlush (db_wal_writer db6)\<rparr>"
  have cp: "DbCheckpoint id 0 (\<lambda>_. False) (\<lambda>_. Written) db6 Map.empty = Inr (None, ?db7, fs)"
    using tb lsn by (simp add: DbCheckpoint_def WriteCheckpoint_def d(5) fs_def last_lsn_def WalFlush_def)
  have before: "new_reader_rows id tb = Inr [[VInt64 10]]"
    using tb(2-4) by (simp add: new_reader_rows_def TableBegin_def TxnBegin_def tm_aborted_def tm_after_def MaterializeVisibleRows_def
        SnapshotForScan_def DeltaSnapshot_def scan_record_def IsVisible_def committed_by_def GetStatus_def r_def Let_def)
  let ?fs = "on_disk ?db7 fs"
  have "\<And>ec. wr_records (ReadAll ec ?fs (wal_path ''d'')) = numbered 1 ?log \<and>
      wr_last_valid_lsn (ReadAll ec ?fs (wal_path ''d'')) = of_nat (length ?log)"
    using marks_encodable marks_encodable3 f6
    by (intro read_frames) (simp_all add: EncodeBody_def AppendValue_def default_WalRecord_def stored_def WalFlush_def)
  then have none: "replayed_ops 6 (wr_records (ReadAll False ?fs (rc_wal_path (recovery_config ''d'')))) = []"
    by (simp add: recovery_config_def replayed_ops_def)
  have "?fs (manifest_path ''d'') = Some (text_bytes (manifest_text \<lparr>mf_last_lsn = 6, mf_segment_files = []\<rparr>))"
    using manifest_not_wal [of "''d''"] by (simp add: fs_def)
  then have m: "LoadManifest ?fs (manifest_path ''d'') = Inr \<lparr>mf_last_lsn = 6, mf_segment_files = []\<rparr>"
    by (intro LoadManifest_text) simp_all
  obtain db8 where "OpenDatabase sample_env ?fs ''d'' one_column sample_cfg = Inr db8" "db_table db8 = MakeTable ''db'' one_column"
    using open_empty_checkpoint [OF m none] by blast
  then show ?thesis
    using db0(1) b i x c(1) d(1-3) cp before unwritten_reader by (simp add: checkpoint_after_aborted_delete_def)
qed

end
