(* ===== verification/Versions.thy ===== *)
theory Versions
  imports CrashRecovery
begin

text \<open>
  The versions of a row in the delta layer during an execution: all but the newest have been replaced or were
  written in vain, and every mark on them goes back to a record of the log. At a point with no active
  transaction, when every transaction that replaced or deleted rows has committed, compaction therefore
  empties the delta layer.
\<close>

section \<open>The invariant\<close>

definition replaced :: "TransactionManager \<Rightarrow> Transaction list \<Rightarrow> DeltaRecord \<Rightarrow> bool" where
  "replaced tm act r \<longleftrightarrow> dr_deleted_txn r \<noteq> 0 \<or> \<not> kept tm act (dr_created_txn r)"

definition traced :: "TransactionManager \<Rightarrow> Transaction list \<Rightarrow> WalRecord list \<Rightarrow> DeltaRecord \<Rightarrow> bool" where
  "traced tm act log r \<longleftrightarrow>
     (dr_created_txn r \<in> txn_id ` set act \<or> st_state (GetStatus tm (dr_created_txn r)) \<noteq> kActive) \<and>
     (\<exists>op\<in>set log. rec_type op \<in> {kInsert, kUpdate} \<and> rec_row op = dr_row r) \<and>
     (dr_deleted_txn r \<noteq> 0 \<longrightarrow> (\<exists>op\<in>set log. rec_type op \<in> {kUpdate, kDelete} \<and> rec_txn_id op = dr_deleted_txn r))"

definition version_inv :: "TransactionManager \<Rightarrow> Transaction list \<Rightarrow> DeltaRecord list \<Rightarrow> WalRecord list \<Rightarrow> bool" where
  "version_inv tm act recs log \<longleftrightarrow>
     (\<forall>x. \<forall>r\<in>set (butlast (of_row x recs)). replaced tm act r) \<and> (\<forall>r\<in>set recs. traced tm act log r) \<and> length recs \<le> length log"

lemma of_row_append [simp]: "of_row x (xs @ ys) = of_row x xs @ of_row x ys"
  by (simp add: of_row_def)

lemma of_row_Cons: "of_row x (r # rs) = (if dr_row_id r = x then r # of_row x rs else of_row x rs)"
  by (simp add: of_row_def)

lemma of_row_Nil [simp]: "of_row x [] = []"
  by (simp add: of_row_def)

lemma traced_mono: "traced tm act log r \<Longrightarrow> set log \<subseteq> set log' \<Longrightarrow> traced tm act log' r"
  unfolding traced_def by blast

lemma unopened_replaced:
  assumes "open_under (kept tm act) recs x = []" "\<not> kept tm act 0"
  shows "\<forall>r\<in>set (of_row x recs). replaced tm act r"
  using assms by (auto simp: open_under_def of_row_def filter_empty_conv replaced_def)

lemma version_inv_mono:
  assumes "version_inv tm act recs log"
    and "\<And>r. r \<in> set recs \<Longrightarrow> kept tm' act' (dr_created_txn r) \<Longrightarrow> kept tm act (dr_created_txn r)"
    and "\<And>r. r \<in> set recs \<Longrightarrow> dr_created_txn r \<in> txn_id ` set act \<or> st_state (GetStatus tm (dr_created_txn r)) \<noteq> kActive \<Longrightarrow>
      dr_created_txn r \<in> txn_id ` set act' \<or> st_state (GetStatus tm' (dr_created_txn r)) \<noteq> kActive"
  shows "version_inv tm' act' recs (log @ ops)"
proof -
  have "set (butlast (of_row x recs)) \<subseteq> set recs" for x by (auto simp: of_row_def dest: in_set_butlastD)
  then have "\<forall>x. \<forall>r\<in>set (butlast (of_row x recs)). replaced tm' act' r"
    using assms(1,2) unfolding version_inv_def replaced_def by blast
  moreover have "\<forall>r\<in>set recs. traced tm' act' (log @ ops) r"
    using assms(1,3) unfolding version_inv_def traced_def by (metis Un_iff set_append)
  ultimately show ?thesis using assms(1) by (simp add: version_inv_def)
qed

lemma version_inv_insert:
  assumes "version_inv tm act recs log" "w \<in> set act" "\<forall>r\<in>set recs. dr_row_id r = x \<longrightarrow> replaced tm act r"
    and "set log \<subseteq> set log'" "length recs < length log'" "op \<in> set log'" "rec_type op \<in> {kInsert, kUpdate}" "rec_row op = row"
  shows "version_inv tm act (DeltaInsert recs x (txn_id w) row) log'"
proof -
  have "\<forall>r\<in>set (butlast (of_row y (DeltaInsert recs x (txn_id w) row))). replaced tm act r" for y
    using assms(1,3) by (auto simp: version_inv_def DeltaInsert_def of_row_Cons) (simp add: of_row_def)
  moreover have "\<forall>r\<in>set (DeltaInsert recs x (txn_id w) row). traced tm act log' r"
    using assms(1,2,4,6-8) by (auto simp: version_inv_def traced_def DeltaInsert_def) blast+
  ultimately show ?thesis using assms(5) by (simp add: version_inv_def DeltaInsert_def)
qed

lemma version_inv_claim:
  assumes tm: "tm_inv (tm, act)" "w \<in> set act" and inv: "owner_inv tm act recs log x" "delta_inv tm next_row recs log"
    and v: "version_inv tm act recs log" and claim: "ClaimOrInsertBaseTombstone recs x w tm False = (kOk, recs')"
    and op: "rec_type op \<in> {kUpdate, kDelete}" "rec_txn_id op = txn_id w"
  shows "version_inv tm act recs' (log @ [op]) \<and> (\<forall>r\<in>set recs'. dr_row_id r = x \<longrightarrow> replaced tm act r) \<and>
    length recs' \<le> length log"
  using claim
proof (cases rule: claim_ok_cases)
  case (claimed older r newer)
  note z = zero_facts [OF tm(1)] and w = active_facts [OF tm] and c = claim_sole [OF tm inv claimed(1,3,4)]
  let ?r = "r\<lparr>dr_deleted_txn := txn_id w\<rparr>"
  have x: "\<forall>r\<in>set (of_row x recs'). replaced tm act r"
    using unopened_replaced [OF c(3) z(2)] unopened_replaced [OF c(4) z(2)] w(3)
    unfolding claimed(2) by (auto simp: of_row_Cons replaced_def)
  have "of_row y recs' = of_row y recs" if "y \<noteq> x" for y using that claimed(3) unfolding claimed(1,2) by (simp add: of_row_Cons)
  then have "\<forall>r\<in>set (butlast (of_row y recs')). replaced tm act r" for y
    using v x by (cases "y = x") (auto simp: version_inv_def dest: in_set_butlastD)
  moreover have "traced tm act (log @ [op]) ?r" using v op unfolding claimed(1) version_inv_def traced_def by auto
  then have "\<forall>r\<in>set recs'. traced tm act (log @ [op]) r"
    using v traced_mono [of tm act log _ "log @ [op]"] unfolding claimed(1,2) version_inv_def by auto
  moreover have "length recs' \<le> length log" using v unfolding claimed(1,2) version_inv_def by simp
  ultimately show ?thesis using x by (simp add: version_inv_def of_row_def)
qed simp

text \<open>Every step keeps the description of the versions, and the parts of the database that no step changes.\<close>

lemma TableUpdate_schema:
  "TableUpdate tb txn x row = Inr (ok, tb') \<Longrightarrow> tb_full_schema tb' = tb_full_schema tb \<and> tb_user_schema tb' = tb_user_schema tb"
  by (cases "RowIdExistsInBase tb x") (auto simp: TableUpdate_def Let_def split_beta split: if_splits)

lemma TableDelete_schema:
  "TableDelete tb txn x = Inr (ok, tb') \<Longrightarrow> tb_full_schema tb' = tb_full_schema tb \<and> tb_user_schema tb' = tb_user_schema tb"
  by (cases "RowIdExistsInBase tb x") (auto simp: TableDelete_def Let_def split_beta split: if_splits)

lemma db_step_const:
  assumes "db_step s rs s'"
  shows "db_data_dir (fst s') = db_data_dir (fst s) \<and> tb_full_schema (db_table (fst s')) = tb_full_schema (db_table (fst s)) \<and>
    tb_user_schema (db_table (fst s')) = tb_user_schema (db_table (fst s))"
  using assms
  by (cases rule: db_step.cases)
    (auto simp: DbBegin_def DbInsert_def DbUpdate_def DbDelete_def DbCommit_def DbAbort_def TableBegin_def TableInsert_def
      TableCommit_def TableAbort_def Let_def split: prod.splits if_splits dest!: TableUpdate_schema TableDelete_schema)

lemma db_run_const:
  "db_run s log s' \<Longrightarrow> db_data_dir (fst s') = db_data_dir (fst s) \<and> tb_full_schema (db_table (fst s')) = tb_full_schema (db_table (fst s)) \<and>
    tb_user_schema (db_table (fst s')) = tb_user_schema (db_table (fst s))"
  by (induction rule: logged_run.induct) (simp_all add: db_step_const)

abbreviation db_versions :: "Database \<times> Transaction list \<Rightarrow> WalRecord list \<Rightarrow> bool" where
  "db_versions s log \<equiv> version_inv (tb_txn_mgr (db_table (fst s))) (snd s) (tb_delta (db_table (fst s))) log"

lemma db_versions_step:
  assumes "db_step s rs s'" "db_inv s log" "db_versions s log"
  shows "db_versions s' (log @ rs)"
proof -
  obtain db act db' act' where s: "s = (db, act)" "s' = (db', act')" by fastforce
  let ?tb = "db_table db" and ?tm = "tb_txn_mgr (db_table db)" and ?recs = "tb_delta (db_table db)"
  note I = assms(2) [unfolded s db_inv_def Let_def prod.case] and V = assms(3) [unfolded s fst_conv snd_conv]
  have tm: "tm_inv (?tm, act)" and base: "tb_base_segments ?tb = []" using I by simp_all
  have d: "owner_inv ?tm act ?recs log x" "delta_inv ?tm (tb_next_row_id ?tb) ?recs log" for x using I by simp_all
  from assms(1) [unfolded s] base show ?thesis
  proof (cases rule: db_step_effect)
    case (begun txn tm1)
    have "dr_created_txn r \<noteq> txn_id txn" if "r \<in> set ?recs" for r
    proof -
      have "dr_created_txn r \<in> involved ?recs log (dr_row_id r)" using that by (auto simp: involved_def)
      with d(2) fresh_writer(2) [OF tm begun(1,2)] show ?thesis unfolding delta_inv_def by (metis less_irrefl)
    qed
    moreover have "GetStatus tm1 = GetStatus ?tm" using begun(2) by (auto simp: TxnBegin_def GetStatus_def Let_def fun_eq_iff)
    ultimately show ?thesis using V by (auto simp: s begun intro!: version_inv_mono [where tm = ?tm and act = act])
  next
    case (inserted txn x row)
    have "\<forall>r\<in>set ?recs. dr_row_id r \<noteq> x" using d(2) inserted(2) by (auto simp: delta_inv_def)
    then have "version_inv ?tm act (DeltaInsert ?recs x (txn_id txn) row) (log @ rs)"
      using V inserted(1,4) by (intro version_inv_insert [where log = log and op = "write_of txn kInsert x row"]) (auto simp: version_inv_def)
    then show ?thesis by (simp add: s inserted(5,6))
  next
    case (replaced txn x row op recs1 recs2)
    have "version_inv ?tm act recs1 (log @ [op]) \<and> (\<forall>r\<in>set recs1. dr_row_id r = x \<longrightarrow> replaced ?tm act r) \<and> length recs1 \<le> length log"
      by (rule version_inv_claim [OF tm replaced(1) d V replaced(4)]) (use replaced(5) in auto)
    then have "version_inv ?tm act recs2 (log @ [op])"
      using replaced(5) version_inv_insert [of ?tm act recs1 "log @ [op]" txn x "log @ [op]" op row] replaced(1) by auto
    then show ?thesis by (simp add: s replaced)
  next
    case refused
    with V show ?thesis by (simp add: s)
  next
    case (ended txn st t tm1)
    have "GetStatus tm1 i = (if i = txn_id txn then st else GetStatus ?tm i)" for i by (simp add: GetStatus_def ended(7))
    moreover have "txn_id ` set act' = txn_id ` set act - {txn_id txn}" "txn_id txn \<in> txn_id ` set act"
      using tm ended(1,2) remove_handle(3) [of act txn] by (simp_all add: tm_inv_def)
    ultimately have "version_inv tm1 act' ?recs (log @ rs)"
      using V ended(8) by (intro version_inv_mono [where tm = ?tm and act = act]) (simp_all split: if_splits)
    then show ?thesis by (simp add: s ended(6))
  qed
qed

lemma db_versions_run:
  "db_run s log s' \<Longrightarrow> db_inv s [] \<Longrightarrow> db_versions s [] \<Longrightarrow> db_versions s' log"
  by (induction rule: logged_run.induct) (auto intro: db_versions_step db_inv_run)

section \<open>Compaction at a quiescent point\<close>

lemma quiescent_fate:
  assumes tm: "tm_inv (tm, [])" and "delta_inv tm next_row recs log" "version_inv tm [] recs log" "r \<in> set recs"
    and upd: "\<forall>op\<in>set log. rec_type op \<in> {kUpdate, kDelete} \<longrightarrow> committed tm (rec_txn_id op)"
  shows "fate tm True r = (if committed tm (dr_created_txn r) \<and> \<not> committed tm (dr_deleted_txn r) then Promoted else Dropped)"
    and "replaced tm [] r \<Longrightarrow> fate tm False r = Dropped \<and> \<not> (committed tm (dr_created_txn r) \<and> \<not> committed tm (dr_deleted_txn r))"
proof -
  have r: "\<not> dr_is_base_tombstone r" "traced tm [] log r" using assms(2-4) by (auto simp: delta_inv_def version_inv_def)
  have st: "stable_txn tm i \<longleftrightarrow> committed tm i" for i
    using tm by (auto simp: stable_txn_def committed_by_def OldestActiveSnapshot_def tm_inv_def GetStatus_def Let_def split: option.splits)
  have cr: "aborted_txn tm (dr_created_txn r) \<longleftrightarrow> \<not> committed tm (dr_created_txn r)"
    using r(2) by (cases "st_state (GetStatus tm (dr_created_txn r))") (auto simp: traced_def aborted_txn_def)
  have del: "committed tm (dr_deleted_txn r) \<longleftrightarrow> dr_deleted_txn r \<noteq> 0"
    using r(2) upd zero_facts(1) [OF tm] by (auto simp: traced_def)
  show "fate tm True r = (if committed tm (dr_created_txn r) \<and> \<not> committed tm (dr_deleted_txn r) then Promoted else Dropped)"
    by (simp add: fate_def r(1) st cr del)
  show "fate tm False r = Dropped \<and> \<not> (committed tm (dr_created_txn r) \<and> \<not> committed tm (dr_deleted_txn r))" if "replaced tm [] r"
    using that by (auto simp: fate_def r(1) st cr del replaced_def)
qed

lemma open_under_of_row: "open_under P recs x = filter (\<lambda>r. P (dr_created_txn r) \<and> \<not> P (dr_deleted_txn r)) (of_row x recs)"
  by (auto simp: open_under_def of_row_def intro: filter_cong)

lemma quiescent_row:
  assumes "tm_inv (tm, [])" "delta_inv tm next_row recs log" "version_inv tm [] recs log"
    and "\<forall>op\<in>set log. rec_type op \<in> {kUpdate, kDelete} \<longrightarrow> committed tm (rec_txn_id op)"
    and f: "f \<noteq> Dropped"
  shows "of_row x (fated tm f recs) = (if f = Promoted then open_under (committed tm) recs x else [])"
proof (cases "of_row x recs" rule: rev_cases)
  case Nil
  then show ?thesis by (simp add: of_row_fated open_under_of_row)
next
  case (snoc rs h)
  note F = quiescent_fate [OF assms(1-3) _ assms(4)]
  have "set (of_row x recs) \<subseteq> set recs" by (auto simp: of_row_def)
  then have sub: "set rs \<subseteq> set recs" "h \<in> set recs" by (simp_all add: snoc)
  have rs: "\<forall>r\<in>set rs. replaced tm [] r" using assms(3) snoc by (metis version_inv_def butlast_snoc)
  have "\<forall>r\<in>set (rs @ [h]). dr_row_id r = x" using of_row_ids [of x recs] snoc by simp
  note fated_row [OF this, of tm f]
  moreover have "filter (\<lambda>r. fate tm False r = f) rs = []"
    using f F(2) sub(1) rs by (auto simp: filter_empty_conv)
  moreover have "filter (\<lambda>r. committed tm (dr_created_txn r) \<and> \<not> committed tm (dr_deleted_txn r)) rs = []"
    using F(2) sub(1) rs by (auto simp: filter_empty_conv)
  ultimately show ?thesis using F(1) [OF sub(2)] f by (auto simp: of_row_fated open_under_of_row snoc)
qed

lemma of_row_empty: "(\<And>x. of_row x recs = []) \<Longrightarrow> recs = []"
  by (cases recs) (auto simp: of_row_Cons split: if_splits dest: meta_spec)

lemma map_of_of_row:
  "map_of (map (\<lambda>r. (dr_row_id r, dr_row r)) recs) x = (case of_row x recs of [] \<Rightarrow> None | r # _ \<Rightarrow> Some (dr_row r))"
  by (induction recs) (auto simp: of_row_Cons)

lemma map_of_perm:
  assumes "mset xs = mset ys" "distinct (map fst ys)"
  shows "map_of xs = map_of ys \<and> distinct (map fst xs)"
proof -
  have "mset (map fst xs) = mset (map fst ys)" using assms(1) by simp
  then have d: "distinct (map fst xs)" using assms(2) by (metis mset_eq_imp_distinct_iff)
  have "map_of xs k = Some v \<longleftrightarrow> map_of ys k = Some v" for k v
    using assms d by (metis map_of_eq_Some_iff set_mset_mset)
  then have "map_of xs k = map_of ys k" for k by (metis not_None_eq)
  with d show ?thesis by blast
qed

text \<open>
  When every transaction has ended and those that replaced or deleted rows have committed, compaction leaves
  nothing in the delta layer and moves exactly the committed rows into the base.
\<close>

lemma quiescent_compaction:
  assumes "db_inv (db, []) log" "db_versions (db, []) log" "tm = tb_txn_mgr (db_table db)" "recs = tb_delta (db_table db)"
    and "\<forall>op\<in>set log. rec_type op \<in> {kUpdate, kDelete} \<longrightarrow> committed tm (rec_txn_id op)" "\<And>xs. mset (ord xs) = mset xs"
  shows "fated tm Retained recs = []" "map_of (compacted_rows ord tm recs []) = logged_row (committed tm) log"
    "distinct (map fst (compacted_rows ord tm recs []))"
proof -
  note I = assms(1) [unfolded db_inv_def Let_def prod.case, folded assms(3,4)]
  have "tm_inv (tm, [])" "delta_inv tm (tb_next_row_id (db_table db)) recs log" "version_inv tm [] recs log"
    using I assms(2-4) by simp_all
  note Q = quiescent_row [OF this assms(5)]
  show "fated tm Retained recs = []" by (rule of_row_empty) (simp add: Q)
  let ?L = "map (\<lambda>r. (dr_row_id r, dr_row r)) (fated tm Promoted recs)"
  have "map_of ?L x = logged_row (committed tm) log x" for x
  proof -
    have "owner_inv tm [] recs log x" using I by blast
    then have "map dr_row (open_under (committed tm) recs x) = (case logged_row (committed tm) log x of None \<Rightarrow> [] | Some row \<Rightarrow> [row])"
      by (simp add: owner_inv_def agree_def)
    then show ?thesis by (auto simp: map_of_of_row Q split: list.split option.splits)
  qed
  then have L: "map_of ?L = logged_row (committed tm) log" ..
  have "distinct (map fst ?L)" using fated_distinct [of Promoted tm recs] by (simp add: comp_def)
  from map_of_perm [OF assms(6) this] L
  show "map_of (compacted_rows ord tm recs []) = logged_row (committed tm) log" "distinct (map fst (compacted_rows ord tm recs []))"
    by (simp_all add: compacted_rows_def)
qed

end
