(* ===== verification/CheckpointRecovery.thy ===== *)
theory CheckpointRecovery
  imports RecoveryLimits Versions
begin

text \<open>
  Checkpoint and recovery together: a checkpoint taken between transactions holds the committed rows, and a
  database opened on it shows the rows that the process saw, whatever happens to the log.
\<close>

section \<open>The files of a database\<close>

lemma JoinPath_suffix: "\<exists>pre. JoinPath dir leaf = pre @ leaf"
  by (auto simp: JoinPath_def)

lemma segment_file_distinct:
  "JoinPath d (segment_filename i) \<noteq> wal_path dir" "JoinPath d (segment_filename i) \<noteq> manifest_path dir"
proof -
  obtain a b c where abc: "JoinPath d (segment_filename i) = a @ ''.seg''" "wal_path dir = b @ ''wal.log''"
    "manifest_path dir = c @ ''manifest.txt''"
    using JoinPath_suffix [of d "segment_filename i"] JoinPath_suffix [of dir "''wal.log''"]
      JoinPath_suffix [of "checkpoint_dir dir" "''manifest.txt''"]
    by (auto simp: segment_filename_def wal_path_def manifest_path_def)
  have "rev (JoinPath d (segment_filename i)) \<noteq> rev (wal_path dir)" unfolding abc by simp
  then show "JoinPath d (segment_filename i) \<noteq> wal_path dir" by auto
  have "rev (JoinPath d (segment_filename i)) \<noteq> rev (manifest_path dir)" unfolding abc by simp
  then show "JoinPath d (segment_filename i) \<noteq> manifest_path dir" by auto
qed

lemma load_segments_map: "load_segments fs dir schema names = map_res (\<lambda>f. LoadFromFile fs (JoinPath dir f) schema) names"
  by (induction names) simp_all

text \<open>A segment built from rows that the log can hold fits the file format.\<close>

lemma Build_savable:
  assumes "\<forall>cs\<in>set schema. known_type (cs_type cs)" "\<forall>row\<in>set rows. row_has_schema schema row \<and> (\<forall>v\<in>set row. value_fits v)"
    and "length rows + 7 < 2 ^ 32" "length schema < 2 ^ 32" "Build sid schema rows = Inr seg"
  shows "savable seg \<and> seg_schema seg = schema"
proof -
  have seg: "wf_segment seg" "segment_holds seg rows" "seg_schema seg = schema" "length (seg_columns seg) = length schema"
    using Build_ok [of schema rows sid] assms by auto
  have n: "seg_num_rows seg = length rows" using seg(2) by (simp add: segment_holds_def)
  have "fits_file (length rows) (seg_columns seg ! c)" if c: "c < length schema" for c
  proof -
    let ?vals = "map (\<lambda>row. row ! c) rows" and ?col = "seg_columns seg ! c"
    have "build_column (schema ! c) c rows = Inr ?col"
      using assms(5) c by (auto simp: Build_def map_res_eq_Inr list_all2_conv_all_nth)
    note D = build_column_dict [OF this]
    have fit: "value_fits v" if "v \<in> set ?vals" for v
    proof -
      from that obtain row where "row \<in> set rows" "v = row ! c" by auto
      moreover from this assms(2) have "length row = length schema" by (auto simp: row_has_schema_def list_all2_lengthD)
      ultimately show ?thesis using assms(2) c by auto
    qed
    have "bounds_ok (filter (\<lambda>v. v \<noteq> Monostate) ?vals) (col_min ?col) (col_max ?col)"
      using seg(2,4) c by (simp add: segment_holds_def column_holds_def)
    from bounds_ok_in [OF this] have "value_fits (col_min ?col)" "value_fits (col_max ?col)"
      using fit by (fastforce simp: value_fits_def)+
    moreover have "value_fits (VString s)" if "s \<in> set (dict_values (col_dict ?col))" for s
      using that D by (intro fit) (simp add: dict_from_def)
    ultimately show ?thesis using D assms(3) by (simp add: fits_file_def dict_from_def value_fits_def)
  qed
  then show ?thesis using seg assms(3,4) n by (auto simp: savable_def in_set_conv_nth)
qed

section \<open>Opening a checkpoint\<close>

text \<open>
  A checkpoint that succeeded is found by the next start: the rows of its segments are there, and nothing
  is replayed if the log holds no record behind its position.
\<close>

lemma checkpoint_reopens:
  assumes "DbCheckpoint ord dur mkdir_fails env db fs = Inr (None, db', fs')" and "\<forall>p. env p = Written"
    and "base_holds (tb_base_segments (db_table db')) irs" and "distinct (map fst irs)"
    and "\<forall>seg\<in>set (tb_base_segments (db_table db')). savable seg \<and> seg_schema seg = tb_full_schema (MakeTable ''db'' schema)"
    and "distinct (map seg_id (tb_base_segments (db_table db')))"
    and "fs'' = fs'(wal_path (db_data_dir db) \<mapsto> bs)"
    and "\<forall>r\<in>set (wr_records (ReadAll (oe_size_ec oe) fs'' (wal_path (db_data_dir db)))). rec_lsn r \<le> last_lsn (db_wal_writer db)"
    and "\<not> oe_mkdir_fails oe" and "oe_can_open oe" and "\<forall>xs. mset (ord' xs) = mset xs"
  shows "\<exists>db1 rows. OpenDatabase oe fs'' (db_data_dir db) schema cfg = Inr db1 \<and>
    rs_error (db_recovery_stats db1) = NoError \<and> rs_operations_replayed (db_recovery_stats db1) = 0 \<and>
    new_reader_rows ord' (db_table db1) = Inr rows \<and> mset rows = visible_rows (map_of irs)"
proof -
  let ?dir = "db_data_dir db" and ?tb = "db_table db'" and ?lsn = "last_lsn (db_wal_writer db)"
  let ?full = "tb_full_schema (MakeTable ''db'' schema)"
  from assms(1) have w: "WriteCheckpoint ord dur mkdir_fails env (db_table db) (checkpoint_dir ?dir) (manifest_path ?dir) ?lsn fs =
      Inr (None, ?tb, fs')" by (auto simp: DbCheckpoint_def Let_def last_lsn_def WalFlush_def)
  then have nm: "\<not> mkdir_fails (checkpoint_dir ?dir)" by (auto simp: WriteCheckpoint_def)
  obtain tb0 where c: "Compact ord dur (db_table db) = Inr tb0" using w nm by (cases "Compact ord dur (db_table db)") (auto simp: WriteCheckpoint_def)
  have "tb0 = ?tb" using w nm c by (auto simp: WriteCheckpoint_def split: option.splits prod.splits)
  with c have c: "Compact ord dur (db_table db) = Inr ?tb" by simp
  have mf: "\<forall>seg\<in>set (tb_base_segments ?tb). JoinPath (checkpoint_dir ?dir) (segment_filename (seg_id seg)) \<noteq> manifest_path ?dir"
    using segment_file_distinct(2) by blast
  obtain names where names: "LoadManifest fs' (manifest_path ?dir) = Inr \<lparr>mf_last_lsn = ?lsn, mf_segment_files = names\<rparr>"
    "map_res (\<lambda>f. LoadFromFile fs' (JoinPath (checkpoint_dir ?dir) f) ?full) names = Inr (tb_base_segments ?tb)"
    "names = map (segment_filename \<circ> seg_id) (tb_base_segments ?tb)"
    using WriteCheckpoint_loads [of ord dur "db_table db" ?tb mkdir_fails "checkpoint_dir ?dir" env ?full "manifest_path ?dir" ?lsn fs,
        OF c nm assms(2,5,6) mf] w by auto
  have "LoadManifest fs'' (manifest_path ?dir) = LoadManifest fs' (manifest_path ?dir)"
    using manifest_not_wal [of ?dir] by (simp add: LoadManifest_def assms(7))
  moreover have "map_res (\<lambda>f. LoadFromFile fs'' (JoinPath (checkpoint_dir ?dir) f) ?full) names =
      map_res (\<lambda>f. LoadFromFile fs' (JoinPath (checkpoint_dir ?dir) f) ?full) names"
    by (rule map_res_cong) (auto simp: names(3) assms(7) LoadFromFile_def segment_file_distinct(1))
  ultimately have cp: "checkpoint_holds fs'' (recovery_config ?dir) ?full ?lsn irs"
    using names(1,2) assms(3) by (simp add: checkpoint_holds_def recovery_config_def load_segments_map)
  have ops: "[] = replayed_ops ?lsn (wr_records (ReadAll (oe_size_ec oe) fs'' (rc_wal_path (recovery_config ?dir))))"
    using assms(8) by (simp add: replayed_ops_def recovery_config_def filter_empty_conv)
  from Recover_replays [OF cp assms(4) ops _ _ assms(11), where dur = "oe_duration oe" and sched = "oe_sched oe"] obtain stats tb rows where
    "Recover (oe_sched oe) (oe_size_ec oe) fs'' (oe_duration oe) (recovery_config ?dir) (MakeTable ''db'' schema) = Inr (stats, tb)"
    "rs_error stats = NoError" "rs_operations_replayed stats = 0" "new_reader_rows ord' tb = Inr rows" "mset rows = visible_rows (map_of irs)"
    by auto
  then show ?thesis using assms(9,10) by (simp add: OpenDatabase_def open_WalWriter_def Let_def)
qed

lemma numbered_le:
  assumes "r \<in> set (numbered 1 (take k log))" "length log < 2 ^ 64 - 1"
  shows "rec_lsn r \<le> of_nat (length log)"
proof -
  from assms(1) obtain i where i: "i < length (take k log)" "r = numbered 1 (take k log) ! i" by (auto simp: in_set_conv_nth)
  then have "rec_lsn r = of_nat (Suc i)" by (simp add: nth_numbered)
  moreover have "unat (of_nat (Suc i) :: u64) \<le> length log" "unat (of_nat (length log) :: u64) = length log"
    using i(1) assms(2) by (simp_all add: unat_of_nat del: of_nat_Suc)
  ultimately show ?thesis by (simp only: word_le_nat_alt)
qed

text \<open>The base that compaction leaves at the end of an execution can be saved.\<close>

lemma full_row_fits:
  "row_has_schema schema (snd ir) \<and> (\<forall>v\<in>set (snd ir). value_fits v) \<Longrightarrow>
   row_has_schema (\<lparr>cs_name = kRowIdColumnName, cs_type = kInt64\<rparr> # schema) (full_row ir) \<and> (\<forall>v\<in>set (full_row ir). value_fits v)"
  by (cases ir) (simp add: full_row_def row_has_schema_def value_has_type_def value_fits_def)

lemma run_compacts:
  assumes "db_inv (db, []) log" "db_versions (db, []) log" "tb = db_table db" "tm = tb_txn_mgr tb"
    and "tb_user_schema tb = schema" "tb_full_schema tb = tb_full_schema (MakeTable ''db'' schema)"
    and "\<forall>cs\<in>set schema. known_type (cs_type cs)" "length schema < 2 ^ 32 - 1" "length log + 7 < 2 ^ 32" "list_all encodable log"
    and rows: "\<forall>r\<in>set log. rec_type r \<in> {kInsert, kUpdate} \<longrightarrow> row_has_schema schema (rec_row r)"
    and upd: "\<forall>r\<in>set log. rec_type r \<in> {kUpdate, kDelete} \<longrightarrow> committed tm (rec_txn_id r)" and ord: "\<And>xs. mset (ord xs) = mset xs"
  shows "\<exists>tb' irs. Compact ord dur tb = Inr tb' \<and> base_holds (tb_base_segments tb') irs \<and> distinct (map fst irs) \<and>
    map_of irs = logged_row (committed tm) log \<and> length (tb_base_segments tb') \<le> 1 \<and>
    (\<forall>seg\<in>set (tb_base_segments tb'). savable seg \<and> seg_schema seg = tb_full_schema tb)"
proof -
  let ?irs = "compacted_rows ord tm (tb_delta tb) []"
  note I = assms(1) [unfolded db_inv_def Let_def prod.case, folded assms(3,4)]
  note Q = quiescent_compaction [OF assms(1,2) _ _ upd ord, folded assms(3), OF assms(4) refl]
  have full: "tb_full_schema tb = \<lparr>cs_name = kRowIdColumnName, cs_type = kInt64\<rparr> # schema" using assms(6) by (simp add: MakeTable_def)
  have V: "version_inv tm [] (tb_delta tb) log" using assms(2-4) by simp
  have row: "row_has_schema schema (dr_row r) \<and> (\<forall>v\<in>set (dr_row r). value_fits v)" if "r \<in> set (tb_delta tb)" for r
  proof -
    have "traced tm [] log r" using V that by (simp add: version_inv_def)
    then obtain op where "op \<in> set log" "rec_type op \<in> {kInsert, kUpdate}" "rec_row op = dr_row r"
      by (auto simp: traced_def)
    with rows assms(10) show ?thesis by (auto simp: list_all_iff encodable_def)
  qed
  have len: "length (tb_delta tb) \<le> length log" using V by (simp add: version_inv_def)
  have "typed_table tb []" using I row len full assms(5,7,9) by (simp add: typed_table_def base_holds_def)
  moreover have "tb_base_segments tb = []" using I by blast
  ultimately obtain tb' where c: "Compact ord dur tb = Inr tb'" "base_holds (tb_base_segments tb') ?irs"
    "tb_base_segments tb' = [] \<or> (\<exists>sid seg. tb_base_segments tb' = [seg] \<and> Build sid (tb_full_schema tb) (map full_row ?irs) = Inr seg)"
    using Compact_base [of tb "[]" ord dur, folded assms(4)] ord by metis
  have "set ?irs = (\<lambda>r. (dr_row_id r, dr_row r)) ` set (fated tm Promoted (tb_delta tb))" "length ?irs \<le> length (tb_delta tb)"
    using arg_cong [OF ord, of set_mset] arg_cong [OF ord, of size] fated_length [of tm "tb_delta tb"] by (simp_all add: compacted_rows_def)
  moreover from this(1) have ir: "row_has_schema schema (snd ir) \<and> (\<forall>v\<in>set (snd ir). value_fits v)" if "ir \<in> set ?irs" for ir
    using that row fated_subset [of tm Promoted "tb_delta tb"] by auto
  have fit: "\<forall>row\<in>set (map full_row ?irs). row_has_schema (tb_full_schema tb) row \<and> (\<forall>v\<in>set row. value_fits v)"
    unfolding full using full_row_fits [OF ir] by auto
  ultimately have "savable seg \<and> seg_schema seg = tb_full_schema tb" if "Build sid (tb_full_schema tb) (map full_row ?irs) = Inr seg" for sid seg
    using that assms(7-9) len by (intro Build_savable [OF _ fit]) (auto simp: full known_type_def)
  with c Q show ?thesis by (intro exI [of _ tb'] exI [of _ ?irs]) auto
qed

section \<open>Properties\<close>

text \<open>
  C4: the first checkpoint of a database, taken between transactions, is durable. Take any execution of a process
  on a new database, without earlier compactions and checkpoints, at whose end no transaction is active, in which the rows match the schema and every transaction that updated or deleted a
  row committed (others may have aborted or written nothing). If the file system does not fail, \<^verbatim>\<open>Checkpoint\<close>
  reports success, and the database reopened on its files with any part of the log reports no
  error, replays nothing, and shows a new reader the rows it would have found before the checkpoint.
\<close>

theorem checkpoint_keeps_rows:
  assumes "OpenDatabase env fs dir schema cfg = Inr db0" and "fs (wal_path dir) = None" and "fs (manifest_path dir) = None"
    and "db_run (db0, []) log (db, [])" and "list_all encodable log" and "length (ww_file (db_wal_writer db)) < 2 ^ 64"
    and "\<forall>cs\<in>set schema. known_type (cs_type cs)" and "length schema < 2 ^ 32 - 1" and "length log + 7 < 2 ^ 32"
    and "\<forall>r\<in>set log. rec_type r \<in> {kInsert, kUpdate} \<longrightarrow> row_has_schema schema (rec_row r)"
    and "\<forall>r\<in>set log. rec_type r \<in> {kUpdate, kDelete} \<longrightarrow> (\<exists>c\<in>set log. rec_type c = kCommit \<and> rec_txn_id c = rec_txn_id r)"
    and "\<not> mkdir_fails (checkpoint_dir dir)" and "\<forall>p. io p = Written" and "n \<le> length (ww_file (db_wal_writer db))"
    and "\<not> oe_mkdir_fails env'" and "oe_can_open env'"
    and "\<forall>xs. mset (ord xs) = mset xs" and "\<forall>xs. mset (ord' xs) = mset xs"
  shows "\<exists>db' fs' db1 rows rows'. DbCheckpoint ord dur mkdir_fails io db fs = Inr (None, db', fs') \<and>
    OpenDatabase env' (fs'(wal_path dir \<mapsto> take n (ww_file (db_wal_writer db)))) dir schema cfg' = Inr db1 \<and>
    rs_error (db_recovery_stats db1) = NoError \<and> rs_operations_replayed (db_recovery_stats db1) = 0 \<and>
    new_reader_rows ord' (db_table db) = Inr rows \<and> new_reader_rows ord' (db_table db1) = Inr rows' \<and> mset rows' = mset rows"
proof -
  let ?tb = "db_table db" and ?tm = "tb_txn_mgr (db_table db)" and ?w = "db_wal_writer db"
  let ?full = "tb_full_schema (MakeTable ''db'' schema)"
  note new = open_new [OF assms(1-3)]
  have inv: "db_inv (db, []) log" using db_inv_run [OF assms(4)] new by simp
  have ver: "db_versions (db, []) log"
    using db_versions_run [OF assms(4)] new by (simp add: version_inv_def MakeTable_def)
  have const: "db_data_dir db = dir" "tb_full_schema ?tb = ?full" "tb_user_schema ?tb = schema"
    using db_run_const [OF assms(4)] new by (simp_all add: MakeTable_def)
  have w: "?w = append_all (db_wal_writer db0) log" using db_log.run_writer [OF assms(4)] by simp
  then have content: "ww_file ?w = concat (map frame (numbered 1 log))" "last_lsn ?w = of_nat (length log)"
    using new by (simp_all add: append_all_file last_lsn_def)
  have com: "\<forall>r\<in>set log. rec_type r \<in> {kUpdate, kDelete} \<longrightarrow> committed ?tm (rec_txn_id r)"
    using assms(11) inv by (simp add: db_inv_def Let_def)
  obtain tb' irs where c: "Compact ord dur ?tb = Inr tb'" "base_holds (tb_base_segments tb') irs" "distinct (map fst irs)"
    "map_of irs = logged_row (committed ?tm) log" "length (tb_base_segments tb') \<le> 1"
    "\<forall>seg\<in>set (tb_base_segments tb'). savable seg \<and> seg_schema seg = ?full"
    using run_compacts [OF inv ver refl refl const(3,2) assms(7-9,5,10) com, of ord dur] assms(17) const(2) by auto
  have ids: "distinct (map seg_id (tb_base_segments tb'))" using c(5) by (cases "tb_base_segments tb'") auto
  obtain fs' where "WriteCheckpoint ord dur mkdir_fails io ?tb (checkpoint_dir dir) (manifest_path dir) (last_lsn (WalFlush ?w)) fs =
      Inr (None, tb', fs')"
    using WriteCheckpoint_loads [of ord dur ?tb tb' mkdir_fails "checkpoint_dir dir" io ?full "manifest_path dir" "last_lsn (WalFlush ?w)" fs,
        OF c(1) assms(12,13) c(6) ids] segment_file_distinct(2) by blast
  then obtain db' where ck: "DbCheckpoint ord dur mkdir_fails io db fs = Inr (None, db', fs')" "db_table db' = tb'"
    by (simp add: DbCheckpoint_def const(1) Let_def)
  let ?fs = "fs'(wal_path dir \<mapsto> take n (ww_file ?w))"
  have st: "\<forall>r\<in>set log. stored r = r" using inv by (simp add: db_inv_def Let_def)
  have "n < 2 ^ 64" using assms(6,14) by simp
  then have "wr_records (ReadAll ec ?fs (wal_path dir)) = numbered 1 (take (complete n (numbered 1 log)) log)" for ec
    using assms(14) content(1) by (intro read_cut [OF assms(5) st]) simp_all
  moreover have "rec_lsn r \<le> of_nat (length log)" if "r \<in> set (numbered 1 (take k log))" for r k
    using that assms(9) by (intro numbered_le) auto
  ultimately have lsn: "\<forall>r\<in>set (wr_records (ReadAll (oe_size_ec env') ?fs (wal_path dir))). rec_lsn r \<le> last_lsn ?w" by (simp add: content(2))
  obtain rows where rows: "new_reader_rows ord' ?tb = Inr rows" "mset rows = visible_rows (map_of irs)"
    using db_reader_rows [OF inv, of ord'] assms(9,18) c(4) by auto
  show ?thesis
    using checkpoint_reopens [OF ck(1) assms(13), of irs schema ?fs "take n (ww_file ?w)" env' ord' cfg'] ck rows c(2,3,6) ids lsn assms(15,16,18)
    by (auto simp: const(1))
qed

text \<open>A process that inserts a row, commits and takes a checkpoint; then its log is lost altogether.\<close>

theorem checkpoint_keeps_rows_witness:
  "\<exists>db db' fs' db1 rows'. DbCheckpoint id 0 (\<lambda>_. False) (\<lambda>_. Written) db Map.empty = Inr (None, db', fs') \<and>
    OpenDatabase sample_env (fs'(wal_path ''d'' \<mapsto> [])) ''d'' one_column sample_cfg = Inr db1 \<and>
    new_reader_rows id (db_table db1) = Inr rows' \<and> mset rows' = {#[VInt64 5]#}"
proof -
  obtain db0 where db0: "OpenDatabase sample_env Map.empty ''d'' one_column sample_cfg = Inr db0" "db_table db0 = MakeTable ''db'' one_column"
    using sample_open by blast
  obtain db where db: "db_run (db0, []) sample_log (db, [])" "tb_txn_mgr (db_table db) = tm_after 3 2 [(1, 2)]"
    using sample_run [OF db0(2)] by blast
  have new: "db_inv (db0, []) []" "ww_file (db_wal_writer db0) = []" "ww_next_lsn (db_wal_writer db0) = 1"
    using open_new [OF db0(1)] by simp_all
  with db_log.run_writer [OF db(1)] have "ww_file (db_wal_writer db) = concat (map frame (numbered 1 sample_log))" by (simp add: append_all_file)
  then have len: "length (ww_file (db_wal_writer db)) < 2 ^ 64"
    by (simp add: sample_log_def Let_def EncodeBody_def AppendValue_def default_WalRecord_def)
  have "logged_row (committed (tb_txn_mgr (db_table db))) sample_log = [1 \<mapsto> [VInt64 5]]"
    by (rule ext) (simp add: db(2) logged_row_def writes_to_def sample_log_def Let_def GetStatus_def tm_after_def row_cell_def default_WalRecord_def)
  moreover have "length sample_log < 2 ^ 63" by (simp add: sample_log_def Let_def)
  ultimately obtain rows where "new_reader_rows id (db_table db) = Inr rows" "mset rows = {#[VInt64 5]#}"
    using db_reader_rows [OF db_inv_run [OF db(1) new(1)], of id] by (auto simp: visible_rows_def)
  moreover have "\<exists>db' fs' db1 rows rows'. DbCheckpoint id 0 (\<lambda>_. False) (\<lambda>_. Written) db Map.empty = Inr (None, db', fs') \<and>
      OpenDatabase sample_env (fs'(wal_path ''d'' \<mapsto> take 0 (ww_file (db_wal_writer db)))) ''d'' one_column sample_cfg = Inr db1 \<and>
      rs_error (db_recovery_stats db1) = NoError \<and> rs_operations_replayed (db_recovery_stats db1) = 0 \<and>
      new_reader_rows id (db_table db) = Inr rows \<and> new_reader_rows id (db_table db1) = Inr rows' \<and> mset rows' = mset rows"
    by (rule checkpoint_keeps_rows [OF db0(1) _ _ db(1) sample_log_encodable len])
      (simp_all add: sample_log_def Let_def default_WalRecord_def known_type_def row_has_schema_def value_has_type_def sample_env_def)
  ultimately show ?thesis by (auto simp del: fun_upd_apply)
qed

end
