(* ===== verification/Interleaving.thy ===== *)
theory Interleaving
  imports Versions
begin

text \<open>
  Concurrent clients of a database: the operations of \<^verbatim>\<open>db/database.cpp\<close> taken apart into the actions that run under one
  mutex of the table, the delta layer, the transaction manager or the log. Each client works on a transaction of
  its own, one operation at a time; between the actions of an operation others may act. There are no
  actions for compaction and checkpoints, after which the table and the log need not agree any more. The operations of the facade,
  uninterrupted, are sequences of these actions.
\<close>

section \<open>The parts of an operation\<close>

text \<open>What an operation that has begun still has to do, per transaction.\<close>

datatype todo = DoStore u64 Row WalRecordType | DoAppend WalRecord | DoCommit | DoAbort

type_synonym threads = "u64 \<rightharpoonup> todo"

type_synonym conc_state = "Database \<times> Transaction list \<times> threads"

abbreviation with_table :: "Database \<Rightarrow> Table \<Rightarrow> Database" where
  "with_table db tb \<equiv> db\<lparr>db_table := tb\<rparr>"

abbreviation with_writer :: "Database \<Rightarrow> WalWriter \<Rightarrow> Database" where
  "with_writer db w \<equiv> db\<lparr>db_wal_writer := w\<rparr>"

abbreviation idle_txn :: "Transaction \<Rightarrow> Transaction list \<Rightarrow> threads \<Rightarrow> bool" where
  "idle_txn txn act todo \<equiv> txn \<in> set act \<and> todo (txn_id txn) = None"

text \<open>
  \<^verbatim>\<open>Begin\<close>, \<^verbatim>\<open>Insert\<close>, \<^verbatim>\<open>Update\<close> and \<^verbatim>\<open>Delete\<close> work on the table and then append their record; \<^verbatim>\<open>Insert\<close> draws its row id and
  \<^verbatim>\<open>Update\<close> claims the old version before the new version is stored; \<^verbatim>\<open>Commit\<close> and \<^verbatim>\<open>Abort\<close> append first. The label is what
  the action appends.
\<close>

inductive conc_step :: "conc_state \<Rightarrow> WalRecord list \<Rightarrow> conc_state \<Rightarrow> bool" where
  c_begin: "tm_next_id (tb_txn_mgr (db_table db)) \<noteq> - 1 \<Longrightarrow> TableBegin (db_table db) = (txn, tb) \<Longrightarrow>
    conc_step (db, act, todo) [] (with_table db tb, txn # act, todo(txn_id txn \<mapsto> DoAppend (mark txn kBegin)))"
| c_insert: "idle_txn txn act todo \<Longrightarrow> x = tb_next_row_id (db_table db) \<Longrightarrow> x \<noteq> - 1 \<Longrightarrow>
    conc_step (db, act, todo) []
      (with_table db ((db_table db)\<lparr>tb_next_row_id := x + 1\<rparr>), act, todo(txn_id txn \<mapsto> DoStore x row kInsert))"
| c_update: "idle_txn txn act todo \<Longrightarrow> RowIdExistsInBase (db_table db) x = Inr b \<Longrightarrow>
    ClaimOrInsertBaseTombstone (tb_delta (db_table db)) x txn (tb_txn_mgr (db_table db)) b = (kOk, recs) \<Longrightarrow>
    conc_step (db, act, todo) []
      (with_table db ((db_table db)\<lparr>tb_delta := recs\<rparr>), act, todo(txn_id txn \<mapsto> DoStore x row kUpdate))"
| c_delete: "idle_txn txn act todo \<Longrightarrow> RowIdExistsInBase (db_table db) x = Inr b \<Longrightarrow>
    ClaimOrInsertBaseTombstone (tb_delta (db_table db)) x txn (tb_txn_mgr (db_table db)) b = (kOk, recs) \<Longrightarrow>
    conc_step (db, act, todo) []
      (with_table db ((db_table db)\<lparr>tb_delta := recs\<rparr>), act, todo(txn_id txn \<mapsto> DoAppend (write_of txn kDelete x [])))"
| c_refused: "idle_txn txn act todo \<Longrightarrow> RowIdExistsInBase (db_table db) x = Inr b \<Longrightarrow>
    ClaimOrInsertBaseTombstone (tb_delta (db_table db)) x txn (tb_txn_mgr (db_table db)) b = (res, recs) \<Longrightarrow> res \<noteq> kOk \<Longrightarrow>
    conc_step (db, act, todo) [] (with_table db ((db_table db)\<lparr>tb_delta := recs\<rparr>), act, todo)"
| c_store: "txn \<in> set act \<Longrightarrow> todo (txn_id txn) = Some (DoStore x row t) \<Longrightarrow>
    conc_step (db, act, todo) []
      (with_table db ((db_table db)\<lparr>tb_delta := DeltaInsert (tb_delta (db_table db)) x (txn_id txn) row\<rparr>), act,
       todo(txn_id txn \<mapsto> DoAppend (write_of txn t x row)))"
| c_append: "txn \<in> set act \<Longrightarrow> todo (txn_id txn) = Some (DoAppend r) \<Longrightarrow> AppendRecord (db_wal_writer db) r = (lsn, w) \<Longrightarrow>
    conc_step (db, act, todo) [r] (with_writer db w, act, todo(txn_id txn := None))"
| c_commit: "idle_txn txn act todo \<Longrightarrow> AppendMark (db_wal_writer db) (txn_id txn) kCommit = (lsn, w) \<Longrightarrow>
    conc_step (db, act, todo) [mark txn kCommit] (with_writer db w, act, todo(txn_id txn \<mapsto> DoCommit))"
| c_abort: "idle_txn txn act todo \<Longrightarrow> AppendMark (db_wal_writer db) (txn_id txn) kAbort = (lsn, w) \<Longrightarrow>
    conc_step (db, act, todo) [mark txn kAbort] (with_writer db w, act, todo(txn_id txn \<mapsto> DoAbort))"
| c_committed: "tm_next_id (tb_txn_mgr (db_table db)) \<noteq> - 1 \<Longrightarrow> txn \<in> set act \<Longrightarrow> todo (txn_id txn) = Some DoCommit \<Longrightarrow>
    TableCommit (db_table db) txn = Inr (txn', tb) \<Longrightarrow>
    conc_step (db, act, todo) [] (with_table db tb, remove1 txn act, todo(txn_id txn := None))"
| c_aborted: "txn \<in> set act \<Longrightarrow> todo (txn_id txn) = Some DoAbort \<Longrightarrow> TableAbort (db_table db) txn = Inr (txn', tb) \<Longrightarrow>
    conc_step (db, act, todo) [] (with_table db tb, remove1 txn act, todo(txn_id txn := None))"

abbreviation conc_run :: "conc_state \<Rightarrow> WalRecord list \<Rightarrow> conc_state \<Rightarrow> bool" where
  "conc_run \<equiv> logged_run conc_step"

interpretation conc_log: log_machine conc_step "\<lambda>s. db_wal_writer (fst s)"
  by unfold_locales (auto elim!: conc_step.cases simp: AppendMark_def split: prod.splits)

text \<open>An operation that nobody interrupts is a sequence of its parts: the facade's operations are executions.\<close>

lemma conc_step_run: "conc_step s rs s' \<Longrightarrow> conc_run s rs s'"
  using run_step [OF run_refl, of conc_step s rs s'] by simp

lemma conc_steps: "conc_step s rs s1 \<Longrightarrow> conc_run s1 rs' s' \<Longrightarrow> conc_run s (rs @ rs') s'"
  using logged_run_trans [OF conc_step_run] .

lemma append_part:
  assumes "txn \<in> set act" "AppendRecord (db_wal_writer db) r = (lsn, w)"
  shows "conc_run (db, act, [txn_id txn \<mapsto> DoAppend r]) [r] (with_writer db w, act, Map.empty)"
proof -
  have "conc_step (db, act, [txn_id txn \<mapsto> DoAppend r]) [r] (with_writer db w, act, [txn_id txn \<mapsto> DoAppend r](txn_id txn := None))"
    using assms by (intro c_append) simp_all
  then show ?thesis by (intro conc_step_run) simp
qed

lemma store_part:
  assumes "txn \<in> set act" "AppendRecord (db_wal_writer db) (write_of txn t x row) = (lsn, w)"
  shows "conc_run (db, act, [txn_id txn \<mapsto> DoStore x row t]) [write_of txn t x row]
    (with_writer (with_table db ((db_table db)\<lparr>tb_delta := DeltaInsert (tb_delta (db_table db)) x (txn_id txn) row\<rparr>)) w, act, Map.empty)"
proof -
  let ?db = "with_table db ((db_table db)\<lparr>tb_delta := DeltaInsert (tb_delta (db_table db)) x (txn_id txn) row\<rparr>)"
  have "conc_step (db, act, [txn_id txn \<mapsto> DoStore x row t]) [] (?db, act, [txn_id txn \<mapsto> DoAppend (write_of txn t x row)])"
    using c_store [of txn act "[txn_id txn \<mapsto> DoStore x row t]" x row t db] assms(1) by simp
  from conc_steps [OF this append_part [OF assms(1), of ?db]] show ?thesis using assms(2) by simp
qed

lemma insert_parts:
  assumes "txn \<in> set act" "tb_next_row_id (db_table db) \<noteq> - 1" "DbInsert db txn row = (x, db')"
  shows "conc_run (db, act, Map.empty) [write_of txn kInsert x row] (db', act, Map.empty)"
proof -
  let ?db = "with_table db ((db_table db)\<lparr>tb_next_row_id := x + 1\<rparr>)"
  obtain lsn w where t: "x = tb_next_row_id (db_table db)" "AppendRecord (db_wal_writer db) (write_of txn kInsert x row) = (lsn, w)"
    "db' = with_writer (with_table ?db ((db_table ?db)\<lparr>tb_delta := DeltaInsert (tb_delta (db_table ?db)) x (txn_id txn) row\<rparr>)) w"
    using assms(3) by (auto simp: DbInsert_def TableInsert_def AppendRow_def Let_def split: prod.splits)
  have "conc_step (db, act, Map.empty) [] (?db, act, [txn_id txn \<mapsto> DoStore x row kInsert])"
    using assms(1,2) t(1) by (intro c_insert) simp_all
  from conc_steps [OF this store_part [OF assms(1)]] show ?thesis using t(2,3) by simp
qed

lemma update_parts:
  assumes "txn \<in> set act" "DbUpdate db txn x row = Inr (ok, db')"
  shows "conc_run (db, act, Map.empty) (if ok then [write_of txn kUpdate x row] else []) (db', act, Map.empty)"
proof -
  obtain b where b: "RowIdExistsInBase (db_table db) x = Inr b"
    using assms(2) by (cases "RowIdExistsInBase (db_table db) x") (auto simp: DbUpdate_def TableUpdate_def)
  obtain res recs where c: "ClaimOrInsertBaseTombstone (tb_delta (db_table db)) x txn (tb_txn_mgr (db_table db)) b = (res, recs)" by fastforce
  obtain lsn w where w: "AppendRecord (db_wal_writer db) (write_of txn kUpdate x row) = (lsn, w)" by fastforce
  let ?db = "with_table db ((db_table db)\<lparr>tb_delta := recs\<rparr>)"
  show ?thesis
  proof (cases "res = kOk")
    case True
    have "conc_step (db, act, Map.empty) [] (?db, act, [txn_id txn \<mapsto> DoStore x row kUpdate])"
      using assms(1) b c True by (intro c_update) simp_all
    from conc_steps [OF this store_part [OF assms(1)]] show ?thesis
      using assms(2) b c True w by (auto simp: DbUpdate_def TableUpdate_def AppendRow_def Let_def)
  next
    case False
    then show ?thesis using conc_step_run [OF c_refused [OF _ b c False]] assms b c by (auto simp: DbUpdate_def TableUpdate_def)
  qed
qed

lemma delete_parts:
  assumes "txn \<in> set act" "DbDelete db txn x = Inr (ok, db')"
  shows "conc_run (db, act, Map.empty) (if ok then [write_of txn kDelete x []] else []) (db', act, Map.empty)"
proof -
  obtain b where b: "RowIdExistsInBase (db_table db) x = Inr b"
    using assms(2) by (cases "RowIdExistsInBase (db_table db) x") (auto simp: DbDelete_def TableDelete_def)
  obtain res recs where c: "ClaimOrInsertBaseTombstone (tb_delta (db_table db)) x txn (tb_txn_mgr (db_table db)) b = (res, recs)" by fastforce
  obtain lsn w where w: "AppendRecord (db_wal_writer db) (write_of txn kDelete x []) = (lsn, w)" by fastforce
  let ?db = "with_table db ((db_table db)\<lparr>tb_delta := recs\<rparr>)"
  show ?thesis
  proof (cases "res = kOk")
    case True
    have "conc_step (db, act, Map.empty) [] (?db, act, [txn_id txn \<mapsto> DoAppend (write_of txn kDelete x [])])"
      using assms(1) b c True by (intro c_delete) simp_all
    from conc_steps [OF this append_part [OF assms(1)]] show ?thesis
      using assms(2) b c True w by (auto simp: DbDelete_def TableDelete_def AppendRow_def Let_def)
  next
    case False
    then show ?thesis using conc_step_run [OF c_refused [OF _ b c False]] assms b c by (auto simp: DbDelete_def TableDelete_def)
  qed
qed

lemma commit_parts:
  assumes "txn \<in> set act" "tm_next_id (tb_txn_mgr (db_table db)) \<noteq> - 1" "DbCommit db txn = Inr (txn', db')"
  shows "conc_run (db, act, Map.empty) [mark txn kCommit] (db', remove1 txn act, Map.empty)"
proof -
  obtain lsn w tb where t: "AppendMark (db_wal_writer db) (txn_id txn) kCommit = (lsn, w)" "TableCommit (db_table db) txn = Inr (txn', tb)"
    "db' = with_table (with_writer db w) tb"
    using assms(3) by (auto simp: DbCommit_def Let_def split: prod.splits)
  have "conc_step (with_writer db w, act, [txn_id txn \<mapsto> DoCommit]) [] (db', remove1 txn act, [txn_id txn \<mapsto> DoCommit](txn_id txn := None))"
    using assms(1,2) t(2) unfolding t(3) by (intro c_committed) simp_all
  moreover have "conc_step (db, act, Map.empty) [mark txn kCommit] (with_writer db w, act, [txn_id txn \<mapsto> DoCommit])"
    using assms(1) t(1) by (intro c_commit) simp_all
  ultimately show ?thesis using conc_steps [OF _ conc_step_run] by fastforce
qed

lemma abort_parts:
  assumes "txn \<in> set act" "DbAbort db txn = Inr (txn', db')"
  shows "conc_run (db, act, Map.empty) [mark txn kAbort] (db', remove1 txn act, Map.empty)"
proof -
  obtain lsn w tb where t: "AppendMark (db_wal_writer db) (txn_id txn) kAbort = (lsn, w)" "TableAbort (db_table db) txn = Inr (txn', tb)"
    "db' = with_table (with_writer db w) tb"
    using assms(2) by (auto simp: DbAbort_def Let_def split: prod.splits)
  have "conc_step (with_writer db w, act, [txn_id txn \<mapsto> DoAbort]) [] (db', remove1 txn act, [txn_id txn \<mapsto> DoAbort](txn_id txn := None))"
    using assms(1) t(2) unfolding t(3) by (intro c_aborted) simp_all
  moreover have "conc_step (db, act, Map.empty) [mark txn kAbort] (with_writer db w, act, [txn_id txn \<mapsto> DoAbort])"
    using assms(1) t(1) by (intro c_abort) simp_all
  ultimately show ?thesis using conc_steps [OF _ conc_step_run] by fastforce
qed

lemma begin_parts:
  assumes "tm_next_id (tb_txn_mgr (db_table db)) \<noteq> - 1" "DbBegin db = (txn, db')"
  shows "conc_run (db, act, Map.empty) [mark txn kBegin] (db', txn # act, Map.empty)"
proof -
  obtain tb lsn w where t: "TableBegin (db_table db) = (txn, tb)" "AppendRecord (db_wal_writer db) (mark txn kBegin) = (lsn, w)"
    "db' = with_writer (with_table db tb) w"
    using assms(2) by (auto simp: DbBegin_def AppendMark_def Let_def split: prod.splits)
  show ?thesis using conc_steps [OF c_begin [OF assms(1) t(1)] append_part] t(2,3) by simp
qed

lemma db_run_conc_run:
  assumes "db_run s log s'"
  shows "conc_run (fst s, snd s, Map.empty) log (fst s', snd s', Map.empty)"
  using assms
proof (induction rule: logged_run.induct)
  case (run_refl s)
  show ?case by (rule logged_run.run_refl)
next
  case (run_step s log s1 rs s2)
  have "conc_run (fst s1, snd s1, Map.empty) rs (fst s2, snd s2, Map.empty)" using run_step(2)
    by (cases rule: db_step.cases)
      (simp_all add: begin_parts insert_parts update_parts delete_parts commit_parts abort_parts del: if_split)
  with run_step.IH show ?case by (rule logged_run_trans)
qed

end
