(* ===== verification/InterleavedRecovery.thy ===== *)
theory InterleavedRecovery
  imports Interleaving RecoveryLimits
begin

text \<open>
  Crash recovery for concurrent clients. Behind every state of an interleaved execution stands the same execution with
  every operation done at once: its log and its delta layer differ from the real ones only by what the threads still owe,
  at most one record and one version on any row. The invariant of uninterrupted executions holds there.
\<close>

section \<open>What the threads still owe\<close>

fun unlogged :: "u64 \<Rightarrow> todo \<Rightarrow> WalRecord list" where
  "unlogged i (DoStore x row t) = [default_WalRecord\<lparr>rec_txn_id := i, rec_type := t, rec_row_id := x, rec_row := row\<rparr>]"
| "unlogged i (DoAppend r) = [r]"
| "unlogged i DoCommit = []"
| "unlogged i DoAbort = []"

fun unstored :: "u64 \<Rightarrow> todo \<Rightarrow> DeltaRecord list" where
  "unstored i (DoStore x row t) = DeltaInsert [] x i row"
| "unstored i td = []"

definition owed_writes :: "threads \<Rightarrow> u64 \<Rightarrow> u64 \<Rightarrow> WalRecord list" where
  "owed_writes todo i x = (case todo i of None \<Rightarrow> [] | Some td \<Rightarrow> writes_to (unlogged i td) x)"

definition owed_records :: "threads \<Rightarrow> u64 \<Rightarrow> u64 \<Rightarrow> DeltaRecord list" where
  "owed_records todo i x = (case todo i of None \<Rightarrow> [] | Some td \<Rightarrow> of_row x (unstored i td))"

lemma owed_upd [simp]:
  "owed_writes (todo(i \<mapsto> td)) j x = (if j = i then writes_to (unlogged i td) x else owed_writes todo j x)"
  "owed_writes (todo(i := None)) j x = (if j = i then [] else owed_writes todo j x)"
  "owed_records (todo(i \<mapsto> td)) j x = (if j = i then of_row x (unstored i td) else owed_records todo j x)"
  "owed_records (todo(i := None)) j x = (if j = i then [] else owed_records todo j x)"
  by (simp_all add: owed_writes_def owed_records_def)

text \<open>
  The delta layer \<open>D\<close> and the log \<open>V\<close> of the same execution with every operation done at once, against the
  real ones: on each row at most one thread owes the record it will append, and the version it will store.
\<close>

definition row_link :: "threads \<Rightarrow> DeltaRecord list \<Rightarrow> DeltaRecord list \<Rightarrow> WalRecord list \<Rightarrow> WalRecord list \<Rightarrow> u64 \<Rightarrow> bool" where
  "row_link todo recs D L V x \<longleftrightarrow>
     (\<forall>i. owed_writes todo i x \<noteq> [] \<longrightarrow>
        writes_to V x = writes_to L x @ owed_writes todo i x \<and> of_row x D = of_row x recs @ owed_records todo i x) \<and>
     ((\<forall>i. owed_writes todo i x = []) \<longrightarrow> writes_to V x = writes_to L x \<and> of_row x D = of_row x recs)"

definition owed_ok :: "Transaction list \<Rightarrow> threads \<Rightarrow> bool" where
  "owed_ok act todo \<longleftrightarrow> (\<forall>i td. todo i = Some td \<longrightarrow> i \<in> txn_id ` set act \<and>
     (\<forall>r\<in>set (unlogged i td). rec_txn_id r = i \<and> rec_type r \<noteq> kCommit \<and> stored r = r) \<and>
     (\<forall>x row t. td = DoStore x row t \<longrightarrow> t \<in> {kInsert, kUpdate}))"

definition linked :: "conc_state \<Rightarrow> WalRecord list \<Rightarrow> DeltaRecord list \<Rightarrow> WalRecord list \<Rightarrow> bool" where
  "linked s L D V \<longleftrightarrow>
     (let (db, act, todo) = s in
      db_inv (with_table db ((db_table db)\<lparr>tb_delta := D\<rparr>), act) V \<and> (\<forall>x. row_link todo (tb_delta (db_table db)) D L V x) \<and>
      owed_ok act todo \<and> (\<forall>i. logged_commit L i \<longleftrightarrow> logged_commit V i \<or> todo i = Some DoCommit) \<and> (\<forall>r\<in>set L. stored r = r))"

definition conc_inv :: "conc_state \<Rightarrow> WalRecord list \<Rightarrow> bool" where
  "conc_inv s L \<longleftrightarrow> (\<exists>D V. linked s L D V)"

lemma owed_writes_txn:
  assumes "owed_ok act todo" "r \<in> set (owed_writes todo i x)"
  shows "rec_txn_id r = i" "i \<in> txn_id ` set act"
proof -
  obtain td where td: "todo i = Some td" "r \<in> set (unlogged i td)"
    using assms(2) by (cases "todo i") (auto simp: owed_writes_def writes_to_def)
  with assms(1) show "rec_txn_id r = i" "i \<in> txn_id ` set act" unfolding owed_ok_def by blast+
qed

text \<open>Who owes a write of a row is involved in the row, hence nobody else that is active is.\<close>

lemma owed_involved:
  assumes "owed_ok act todo" "row_link todo recs D L V x" "owed_writes todo i x \<noteq> []"
  shows "i \<in> involved D V x \<inter> txn_id ` set act"
proof -
  obtain r where r: "r \<in> set (owed_writes todo i x)" using assms(3) by (meson last_in_set)
  moreover have "r \<in> set (writes_to V x)" using assms(2,3) r by (auto simp: row_link_def)
  ultimately show ?thesis using owed_writes_txn [OF assms(1) r] by (auto simp: involved_def)
qed

lemma owed_sole:
  assumes "owed_ok act todo" "row_link todo recs D L V x" "owner_inv tm act D V x" "owed_writes todo i x \<noteq> []" "owed_writes todo j x \<noteq> []"
  shows "j = i"
  using owed_involved [OF assms(1,2,4)] owed_involved [OF assms(1,2,5)] assms(3) by (simp add: owner_inv_def)

lemma of_row_split:
  assumes "of_row x D = as @ r # bs"
  shows "\<exists>older newer. D = older @ r # newer \<and> of_row x older = as \<and> of_row x newer = bs"
  using assms
proof (induction D arbitrary: as)
  case (Cons d D)
  show ?case
  proof (cases "dr_row_id d = x")
    case False
    then obtain older newer where "D = older @ r # newer" "of_row x older = as" "of_row x newer = bs" using Cons by (auto simp: of_row_Cons)
    then show ?thesis using False by (intro exI [of _ "d # older"] exI [of _ newer]) (simp add: of_row_Cons)
  next
    case True
    show ?thesis
    proof (cases as)
      case Nil
      then show ?thesis using True Cons.prems by (intro exI [of _ "[]"] exI [of _ D]) (simp add: of_row_Cons)
    next
      case (Cons a as')
      then obtain older newer where "D = older @ r # newer" "of_row x older = as'" "of_row x newer = bs" "a = d"
        using True Cons.prems Cons.IH [of as'] by (auto simp: of_row_Cons)
      then show ?thesis using True \<open>as = a # as'\<close> by (intro exI [of _ "d # older"] exI [of _ newer]) (simp add: of_row_Cons)
    qed
  qed
qed simp

section \<open>Every step keeps the link\<close>

lemma link_idle:
  assumes "row_link todo recs D L V y" "owed_writes todo i y = []" "\<And>j. owed_writes todo' j y = (if j = i then [] else owed_writes todo j y)"
    and "\<And>j. j \<noteq> i \<Longrightarrow> owed_records todo' j y = owed_records todo j y"
    and "writes_to L' y = writes_to L y" "writes_to V' y = writes_to V y" "of_row y D' = of_row y D" "of_row y recs' = of_row y recs"
  shows "row_link todo' recs' D' L' V' y"
  using assms unfolding row_link_def by (metis (full_types))

lemma link_start:
  assumes "\<And>y. row_link todo recs D L V y" "todo i = None" "\<forall>j. owed_writes todo j x = []"
    and op: "unlogged i td = [op]" "rec_row_id op = x" "rec_type op \<in> {kInsert, kUpdate, kDelete}"
    and other: "\<And>y. y \<noteq> x \<Longrightarrow> of_row y D' = of_row y D \<and> of_row y recs' = of_row y recs"
    and new: "of_row x D' = of_row x recs' @ of_row x (unstored i td)"
  shows "row_link (todo(i \<mapsto> td)) recs' D' L (V @ [op]) y"
proof (cases "y = x")
  case True
  have "writes_to [op] x = [op]" using op by (simp add: writes_to_def)
  moreover have "writes_to V x = writes_to L x" using assms(1) [of x] assms(3) by (simp add: row_link_def)
  ultimately show ?thesis using assms(3) new op(1) by (auto simp: row_link_def True)
next
  case False
  then have "writes_to [op] y = []" using op(2) by (simp add: writes_to_def)
  with False show ?thesis using op(1) other [of y] assms(2)
    by (intro link_idle [OF assms(1), where i = i]) (auto simp: owed_writes_def)
qed

lemma link_mark:
  assumes "row_link todo recs D L V y" "writes_to [r] = (\<lambda>x. [])" "owed_writes todo i y = []"
    and "todo' = todo(i := None) \<or> todo' = todo(i \<mapsto> DoAppend r) \<or> todo' = todo(i \<mapsto> DoCommit) \<or> todo' = todo(i \<mapsto> DoAbort)"
    and "L' = L \<or> L' = L @ [r]" "V' = V \<or> V' = V @ [r]"
  shows "row_link todo' recs D L' V' y"
  using assms by (intro link_idle [OF assms(1,3)]) auto

text \<open>A thread stores its version, or appends its record.\<close>

lemma link_store:
  assumes "row_link todo recs D L V y" "todo i = Some (DoStore x row t)" "t \<in> {kInsert, kUpdate}"
    and sole: "\<And>j. owed_writes todo i y \<noteq> [] \<Longrightarrow> owed_writes todo j y \<noteq> [] \<Longrightarrow> j = i"
  shows "row_link (todo(i \<mapsto> DoAppend (hd (unlogged i (DoStore x row t))))) (DeltaInsert recs x i row) D L V y"
proof -
  let ?todo = "todo(i \<mapsto> DoAppend (hd (unlogged i (DoStore x row t))))"
  have w: "owed_writes ?todo j y = owed_writes todo j y" for j using assms(2) by (simp add: owed_writes_def)
  have d: "of_row y (DeltaInsert recs x i row) = of_row y recs @ (if y = x then DeltaInsert [] x i row else [])"
    by (simp add: DeltaInsert_def of_row_Cons)
  have o: "owed_writes todo i y \<noteq> [] \<longleftrightarrow> y = x" using assms(2,3) by (auto simp: owed_writes_def writes_to_def)
  show ?thesis
  proof (cases "y = x")
    case True
    have "owed_records todo i x = DeltaInsert [] x i row" using assms(2) by (simp add: owed_records_def DeltaInsert_def of_row_Cons)
    then have "writes_to V y = writes_to L y @ owed_writes todo i y" "of_row y D = of_row y (DeltaInsert recs x i row)"
      using assms(1) o True d by (auto simp: row_link_def)
    moreover have "owed_records ?todo i y = []" by simp
    moreover have "j = i" if "owed_writes todo j y \<noteq> []" for j using sole [OF _ that] o True by simp
    ultimately show ?thesis using o True unfolding row_link_def w by (metis append_Nil2)
  next
    case False
    then have "writes_to [hd (unlogged i (DoStore x row t))] y = []" by (simp add: writes_to_def)
    with False show ?thesis using o by (intro link_idle [OF assms(1), where i = i]) (auto simp: w d)
  qed
qed

lemma link_append:
  assumes "row_link todo recs D L V y" "todo i = Some (DoAppend r)"
    and sole: "\<And>j. owed_writes todo i y \<noteq> [] \<Longrightarrow> owed_writes todo j y \<noteq> [] \<Longrightarrow> j = i"
  shows "row_link (todo(i := None)) recs D (L @ [r]) V y"
proof (cases "owed_writes todo i y = []")
  case True
  moreover from this have "writes_to [r] y = []" using assms(2) by (simp add: owed_writes_def)
  ultimately show ?thesis by (intro link_idle [OF assms(1), where i = i]) simp_all
next
  case False
  then have "writes_to V y = writes_to L y @ owed_writes todo i y" "of_row y D = of_row y recs @ owed_records todo i y"
    using assms(1) by (simp_all add: row_link_def)
  then have "writes_to V y = writes_to (L @ [r]) y" "of_row y D = of_row y recs"
    using assms(2) by (simp_all add: owed_writes_def owed_records_def)
  moreover have "owed_writes (todo(i := None)) j y = []" for j using sole [OF False, of j] by auto
  ultimately show ?thesis by (simp add: row_link_def)
qed

text \<open>The invariant, for each kind of step.\<close>

lemma owed_ok_upd:
  assumes "owed_ok act todo" "i \<in> txn_id ` set act" "\<forall>r\<in>set (unlogged i td). rec_txn_id r = i \<and> rec_type r \<noteq> kCommit \<and> stored r = r"
    and "\<And>x row t. td = DoStore x row t \<Longrightarrow> t \<in> {kInsert, kUpdate}"
  shows "owed_ok act (todo(i \<mapsto> td))"
  using assms unfolding owed_ok_def by (auto split: if_splits)

lemma owed_ok_del: "owed_ok act todo \<Longrightarrow> txn_id ` set act - {i} \<subseteq> txn_id ` set act' \<Longrightarrow> owed_ok act' (todo(i := None))"
  unfolding owed_ok_def by auto

lemma linkedD:
  assumes "linked (db, act, todo) L D V"
  shows "db_inv (with_table db ((db_table db)\<lparr>tb_delta := D\<rparr>), act) V" "\<And>x. row_link todo (tb_delta (db_table db)) D L V x"
    "owed_ok act todo" "\<And>i. logged_commit L i \<longleftrightarrow> logged_commit V i \<or> todo i = Some DoCommit" "\<forall>r\<in>set L. stored r = r"
    "tm_inv (tb_txn_mgr (db_table db), act)" "\<And>x. owner_inv (tb_txn_mgr (db_table db)) act D V x"
    "delta_inv (tb_txn_mgr (db_table db)) (tb_next_row_id (db_table db)) D V" "tb_base_segments (db_table db) = []"
proof -
  show inv: "db_inv (with_table db ((db_table db)\<lparr>tb_delta := D\<rparr>), act) V" using assms by (simp add: linked_def)
  show "\<And>x. row_link todo (tb_delta (db_table db)) D L V x" "owed_ok act todo" "\<forall>r\<in>set L. stored r = r"
    "\<And>i. logged_commit L i \<longleftrightarrow> logged_commit V i \<or> todo i = Some DoCommit"
    using assms unfolding linked_def by auto
  note I = inv [unfolded db_inv_def Let_def prod.case]
  show "tm_inv (tb_txn_mgr (db_table db), act)" "tb_base_segments (db_table db) = []"
    "delta_inv (tb_txn_mgr (db_table db)) (tb_next_row_id (db_table db)) D V" using I by simp_all
  show "\<And>x. owner_inv (tb_txn_mgr (db_table db)) act D V x" using I by simp
qed

lemma linked_sole:
  assumes "linked (db, act, todo) L D V" "owed_writes todo i y \<noteq> []" "owed_writes todo j y \<noteq> []"
  shows "j = i"
  using owed_sole [OF linkedD(3,2,7) [OF assms(1)] assms(2,3)] .

lemma linkedI:
  assumes "db_inv (with_table db ((db_table db)\<lparr>tb_delta := D\<rparr>), act) V" "\<And>x. row_link todo (tb_delta (db_table db)) D L V x"
    "owed_ok act todo" "\<And>i. logged_commit L i \<longleftrightarrow> logged_commit V i \<or> todo i = Some DoCommit" "\<forall>r\<in>set L. stored r = r"
  shows "linked (db, act, todo) L D V"
  unfolding linked_def Let_def prod.case using assms by blast

lemma table_upd_order:
  "tb\<lparr>tb_txn_mgr := tm, tb_delta := recs\<rparr> = tb\<lparr>tb_delta := recs, tb_txn_mgr := tm\<rparr>"
  "tb\<lparr>tb_next_row_id := x, tb_delta := recs\<rparr> = tb\<lparr>tb_delta := recs, tb_next_row_id := x\<rparr>"
  by (cases tb; simp)+

lemma linked_begin:
  assumes "linked (db, act, todo) L D V" "tm_next_id (tb_txn_mgr (db_table db)) \<noteq> - 1" "TableBegin (db_table db) = (txn, tb)"
  shows "linked (with_table db tb, txn # act, todo(txn_id txn \<mapsto> DoAppend (mark txn kBegin))) L D (V @ [mark txn kBegin])"
proof -
  note l = linkedD [OF assms(1)]
  obtain tm1 where t: "TxnBegin (tb_txn_mgr (db_table db)) = (txn, tm1)" "tb = (db_table db)\<lparr>tb_txn_mgr := tm1\<rparr>"
    using assms(3) by (auto simp: TableBegin_def Let_def split: prod.splits)
  have "txn_id txn \<notin> txn_id ` set act" using fresh_writer(1) [OF l(6) assms(2) t(1)] by (auto simp: tm_inv_def)
  then have none: "todo (txn_id txn) = None" using l(3) by (cases "todo (txn_id txn)") (auto simp: owed_ok_def)
  show ?thesis
  proof (rule linkedI)
    show "db_inv (with_table (with_table db tb) ((db_table (with_table db tb))\<lparr>tb_delta := D\<rparr>), txn # act) (V @ [mark txn kBegin])"
      using t assms(2) by (intro begin_inv [OF l(1)]) (simp_all add: table_upd_order)
    show "row_link (todo(txn_id txn \<mapsto> DoAppend (mark txn kBegin))) (tb_delta (db_table (with_table db tb))) D L (V @ [mark txn kBegin]) x" for x
      by (rule link_mark [where r = "mark txn kBegin" and i = "txn_id txn" and L = L and V = V and todo = todo])
        (use none in \<open>simp_all add: t(2) l(2) owed_writes_def\<close>)
    have "owed_ok (txn # act) todo" using l(3) by (auto simp: owed_ok_def)
    then show "owed_ok (txn # act) (todo(txn_id txn \<mapsto> DoAppend (mark txn kBegin)))"
      by (rule owed_ok_upd) (simp_all add: stored_def default_WalRecord_def)
    show "logged_commit L i \<longleftrightarrow> logged_commit (V @ [mark txn kBegin]) i \<or> (todo(txn_id txn \<mapsto> DoAppend (mark txn kBegin))) i = Some DoCommit" for i
      using l(4) [of i] none by auto
  qed (rule l(5))
qed

lemma linked_insert:
  assumes "linked (db, act, todo) L D V" "idle_txn txn act todo" "x = tb_next_row_id (db_table db)" "x \<noteq> - 1"
    and "op = write_of txn kInsert x row"
  shows "linked (with_table db ((db_table db)\<lparr>tb_next_row_id := x + 1\<rparr>), act, todo(txn_id txn \<mapsto> DoStore x row kInsert)) L
    (DeltaInsert D x (txn_id txn) row) (V @ [op])"
proof -
  note l = linkedD [OF assms(1)]
  have fresh: "\<forall>r\<in>set D. dr_row_id r \<noteq> x" "writes_to V x = []" using l(8) assms(3) by (auto simp: delta_inv_def)
  have none: "owed_writes todo j x = []" for j
  proof (rule ccontr)
    assume "owed_writes todo j x \<noteq> []"
    moreover from this have "writes_to V x = writes_to L x @ owed_writes todo j x" using l(2) [of x] by (simp add: row_link_def)
    ultimately show False using fresh(2) by simp
  qed
  have "of_row x D = []" using fresh(1) by (simp add: of_row_def)
  moreover from this have "of_row x (tb_delta (db_table db)) = []" using l(2) [of x] none by (simp add: row_link_def)
  ultimately have new: "of_row x (DeltaInsert D x (txn_id txn) row) = of_row x (tb_delta (db_table db)) @ of_row x (unstored (txn_id txn) (DoStore x row kInsert))"
    by (simp add: DeltaInsert_def)
  show ?thesis
  proof (rule linkedI)
    show "db_inv (with_table (with_table db ((db_table db)\<lparr>tb_next_row_id := x + 1\<rparr>))
        ((db_table (with_table db ((db_table db)\<lparr>tb_next_row_id := x + 1\<rparr>)))\<lparr>tb_delta := DeltaInsert D x (txn_id txn) row\<rparr>), act) (V @ [op])"
      using assms(2-4) unfolding assms(5) by (intro insert_inv [OF l(1)]) (simp_all add: table_upd_order)
    show "row_link (todo(txn_id txn \<mapsto> DoStore x row kInsert)) (tb_delta (db_table (with_table db ((db_table db)\<lparr>tb_next_row_id := x + 1\<rparr>))))
        (DeltaInsert D x (txn_id txn) row) L (V @ [op]) y" for y
      using assms(2) none new by (intro link_start [OF l(2), where x = x]) (simp_all add: assms(5) DeltaInsert_def of_row_Cons)
    show "owed_ok act (todo(txn_id txn \<mapsto> DoStore x row kInsert))"
      using assms(2) by (intro owed_ok_upd [OF l(3)]) (auto simp: stored_def default_WalRecord_def)
    show "logged_commit L i \<longleftrightarrow> logged_commit (V @ [op]) i \<or> (todo(txn_id txn \<mapsto> DoStore x row kInsert)) i = Some DoCommit" for i
      using l(4) [of i] assms(2,5) by auto
  qed (rule l(5))
qed

lemma linked_replace:
  assumes "linked (db, act, todo) L D V" "idle_txn txn act todo" "RowIdExistsInBase (db_table db) x = Inr b"
    and "ClaimOrInsertBaseTombstone (tb_delta (db_table db)) x txn (tb_txn_mgr (db_table db)) b = (kOk, recs)"
    and td: "op = write_of txn kUpdate x row \<and> td = DoStore x row kUpdate \<or> op = write_of txn kDelete x [] \<and> td = DoAppend op"
  shows "\<exists>D'. linked (with_table db ((db_table db)\<lparr>tb_delta := recs\<rparr>), act, todo(txn_id txn \<mapsto> td)) L D' (V @ [op])"
proof -
  note l = linkedD [OF assms(1)]
  let ?recs = "tb_delta (db_table db)" and ?tm = "tb_txn_mgr (db_table db)"
  have "\<not> b" using assms(3) l(9) by (simp add: RowIdExistsInBase_def)
  from assms(4) show ?thesis
  proof (cases rule: claim_ok_cases)
    case (claimed os r ns)
    let ?r = "r\<lparr>dr_deleted_txn := txn_id txn\<rparr>"
    have pre: "\<exists>ps. of_row x D = of_row x os @ r # of_row x ns @ ps \<and> ((\<forall>j. owed_writes todo j x = []) \<longrightarrow> ps = [])"
      using l(2) [of x] claimed(1,3) by (cases "\<forall>j. owed_writes todo j x = []") (auto simp: row_link_def of_row_Cons)
    then obtain ps where ps: "of_row x D = of_row x os @ r # of_row x ns @ ps" "(\<forall>j. owed_writes todo j x = []) \<longrightarrow> ps = []" by blast
    then obtain older newer where d: "D = older @ r # newer" "of_row x older = of_row x os" "of_row x newer = of_row x ns @ ps"
      using of_row_split by blast
    have "owed_writes todo j x = []" for j
    proof (rule ccontr)
      assume o: "owed_writes todo j x \<noteq> []"
      from owed_involved [OF l(3,2) o] claim_sole(6) [OF l(6) _ l(7,8) d(1) claimed(3,4)] assms(2) have "j = txn_id txn" by blast
      then show False using o assms(2) by (simp add: owed_writes_def)
    qed
    then have none: "\<forall>j. owed_writes todo j x = []" "ps = []" using ps(2) by blast+
    define D1 where "D1 = older @ ?r # newer"
    define D2 where "D2 = D1 @ unstored (txn_id txn) td"
    have D2: "op = write_of txn kUpdate x row \<and> D2 = DeltaInsert D1 x (txn_id txn) row \<or> op = write_of txn kDelete x [] \<and> D2 = D1"
      using td by (auto simp: D2_def DeltaInsert_def)
    have u: "of_row y (unstored (txn_id txn) td) = []" if "y \<noteq> x" for y using td that by (auto simp: DeltaInsert_def of_row_Cons)
    have op: "unlogged (txn_id txn) td = [op]" "rec_row_id op = x" "rec_type op \<in> {kInsert, kUpdate, kDelete}" using td by auto
    have "linked (with_table db ((db_table db)\<lparr>tb_delta := recs\<rparr>), act, todo(txn_id txn \<mapsto> td)) L D2 (V @ [op])"
    proof (rule linkedI)
      show "db_inv (with_table (with_table db ((db_table db)\<lparr>tb_delta := recs\<rparr>))
          ((db_table (with_table db ((db_table db)\<lparr>tb_delta := recs\<rparr>)))\<lparr>tb_delta := D2\<rparr>), act) (V @ [op])"
        using assms(2) d(1) claimed(3,4) D1_def by (intro replace_inv [OF l(1) _ _ _ _ _ D2]) simp_all
      have "row_link (todo(txn_id txn \<mapsto> td)) recs D2 L (V @ [op]) y" for y
        using assms(2) none(1) by (intro link_start [OF l(2) _ _ op])
          (simp_all add: d claimed(1-3) D1_def D2_def of_row_Cons u none(2))
      then show "row_link (todo(txn_id txn \<mapsto> td)) (tb_delta (db_table (with_table db ((db_table db)\<lparr>tb_delta := recs\<rparr>)))) D2 L (V @ [op]) y" for y
        by simp
      show "owed_ok act (todo(txn_id txn \<mapsto> td))"
        using assms(2) td by (intro owed_ok_upd [OF l(3)]) auto
      show "logged_commit L i \<longleftrightarrow> logged_commit (V @ [op]) i \<or> (todo(txn_id txn \<mapsto> td)) i = Some DoCommit" for i
        using l(4) [of i] assms(2) td by auto
    qed (rule l(5))
    then show ?thesis by blast
  next
    case tombstone
    with \<open>\<not> b\<close> show ?thesis by simp
  qed
qed

lemma linked_store:
  assumes "linked (db, act, todo) L D V" "txn \<in> set act" "todo (txn_id txn) = Some (DoStore x row t)"
  shows "linked (with_table db ((db_table db)\<lparr>tb_delta := DeltaInsert (tb_delta (db_table db)) x (txn_id txn) row\<rparr>), act,
    todo(txn_id txn \<mapsto> DoAppend (write_of txn t x row))) L D V"
proof -
  note l = linkedD [OF assms(1)]
  have t: "t \<in> {kInsert, kUpdate}" using l(3) assms(3) by (auto simp: owed_ok_def)
  have "row_link (todo(txn_id txn \<mapsto> DoAppend (hd (unlogged (txn_id txn) (DoStore x row t)))))
      (DeltaInsert (tb_delta (db_table db)) x (txn_id txn) row) D L V y" for y
    by (rule link_store [OF l(2) assms(3) t linked_sole [OF assms(1)]])
  then show ?thesis using l(1,4,5) assms(2,3) t
    by (intro linkedI owed_ok_upd [OF l(3)]) auto
qed

lemma linked_append:
  assumes "linked (db, act, todo) L D V" "txn \<in> set act" "todo (txn_id txn) = Some (DoAppend r)"
  shows "linked (with_writer db w, act, todo(txn_id txn := None)) (L @ [r]) D V"
proof -
  note l = linkedD [OF assms(1)]
  have r: "rec_type r \<noteq> kCommit" "stored r = r" using l(3) assms(3) by (auto simp: owed_ok_def)
  have "row_link (todo(txn_id txn := None)) (tb_delta (db_table db)) D (L @ [r]) V y" for y
    by (rule link_append [OF l(2) assms(3) linked_sole [OF assms(1)]])
  moreover have "db_inv (with_table (with_writer db w) ((db_table db)\<lparr>tb_delta := D\<rparr>), act) V" using l(1) by (simp add: db_inv_def)
  ultimately show ?thesis using l(4,5) r assms(3)
    by (intro linkedI owed_ok_del [OF l(3)]) auto
qed

lemma linked_mark:
  assumes "linked (db, act, todo) L D V" "idle_txn txn act todo" "t = kCommit \<and> td = DoCommit \<or> t = kAbort \<and> td = DoAbort"
  shows "linked (with_writer db w, act, todo(txn_id txn \<mapsto> td)) (L @ [mark txn t]) D V"
proof -
  note l = linkedD [OF assms(1)]
  have "row_link (todo(txn_id txn \<mapsto> td)) (tb_delta (db_table db)) D (L @ [mark txn t]) V y" for y
    using assms(2,3) by (intro link_mark [OF l(2), where i = "txn_id txn" and r = "mark txn t"]) (auto simp: owed_writes_def)
  moreover have "db_inv (with_table (with_writer db w) ((db_table db)\<lparr>tb_delta := D\<rparr>), act) V" using l(1) by (simp add: db_inv_def)
  moreover have "stored (mark txn t) = mark txn t" using assms(3) by auto
  moreover have "logged_commit (L @ [mark txn t]) i \<longleftrightarrow> logged_commit V i \<or> (todo(txn_id txn \<mapsto> td)) i = Some DoCommit" for i
    using l(4) [of i] assms(2,3) by auto
  ultimately show ?thesis using l(5) assms(2,3)
    by (intro linkedI owed_ok_upd [OF l(3)]) auto
qed

lemma linked_end:
  assumes "linked (db, act, todo) L D V" "txn \<in> set act" "t = kCommit \<and> td = DoCommit \<or> t = kAbort \<and> td = DoAbort" "todo (txn_id txn) = Some td"
    and step: "txn_step (tb_txn_mgr (db_table db), act) (tm1, remove1 txn act)" and tb: "tb = (db_table db)\<lparr>tb_txn_mgr := tm1\<rparr>"
    and st: "tm_status tm1 = (tm_status (tb_txn_mgr (db_table db)))(txn_id txn \<mapsto> st)" "st_state st = (if t = kCommit then kCommitted else kAborted)"
    and nx: "tm_next_id tm1 = tm_next_id (tb_txn_mgr (db_table db)) \<or>
      tm_next_id tm1 = tm_next_id (tb_txn_mgr (db_table db)) + 1 \<and> tm_next_id (tb_txn_mgr (db_table db)) \<noteq> - 1"
  shows "linked (with_table db tb, remove1 txn act, todo(txn_id txn := None)) L D (V @ [mark txn t])"
proof (rule linkedI)
  note l = linkedD [OF assms(1)]
  show "db_inv (with_table (with_table db tb) ((db_table (with_table db tb))\<lparr>tb_delta := D\<rparr>), remove1 txn act) (V @ [mark txn t])"
    using assms(2,3) step st nx by (intro end_inv [OF l(1)]) (auto simp: tb table_upd_order)
  have "row_link (todo(txn_id txn := None)) (tb_delta (db_table db)) D L (V @ [mark txn t]) y" for y
    using assms(3,4) by (intro link_mark [OF l(2), where i = "txn_id txn" and r = "mark txn t"]) (auto simp: owed_writes_def)
  then show "row_link (todo(txn_id txn := None)) (tb_delta (db_table (with_table db tb))) D L (V @ [mark txn t]) y" for y by (simp add: tb)
  have "txn_id ` set (remove1 txn act) = txn_id ` set act - {txn_id txn}"
    using l(6) assms(2) by (intro remove_handle(3)) (simp_all add: tm_inv_def)
  then show "owed_ok (remove1 txn act) (todo(txn_id txn := None))" by (intro owed_ok_del [OF l(3)]) simp
  show "logged_commit L i \<longleftrightarrow> logged_commit (V @ [mark txn t]) i \<or> (todo(txn_id txn := None)) i = Some DoCommit" for i
    using l(4) [of i] assms(3,4) by auto
  show "\<forall>r\<in>set L. stored r = r" by (rule l(5))
qed

lemma conc_inv_step:
  assumes "conc_step s rs s'" "conc_inv s L"
  shows "conc_inv s' (L @ rs)"
proof -
  from assms(2) obtain D V where l: "linked s L D V" by (auto simp: conc_inv_def)
  from assms(1) show ?thesis
  proof (cases rule: conc_step.cases)
    case (c_begin db txn tb act todo)
    show ?thesis using linked_begin [OF l [unfolded c_begin(1)] c_begin(4,5)] by (auto simp: c_begin(2,3) conc_inv_def)
  next
    case (c_insert txn act todo x db row)
    show ?thesis using linked_insert [OF l [unfolded c_insert(1)] c_insert(4-6) refl] by (auto simp: c_insert(2,3) conc_inv_def)
  next
    case (c_update txn act todo db x b recs row)
    show ?thesis using linked_replace [OF l [unfolded c_update(1)] c_update(4-6), of "write_of txn kUpdate x row" row "DoStore x row kUpdate"] by (auto simp: c_update(2,3) conc_inv_def)
  next
    case (c_delete txn act todo db x b recs)
    show ?thesis using linked_replace [OF l [unfolded c_delete(1)] c_delete(4-6), of "write_of txn kDelete x []" "[]" "DoAppend (write_of txn kDelete x [])"] by (auto simp: c_delete(2,3) conc_inv_def)
  next
    case (c_refused txn act todo db x b res recs)
    have "(db_table db)\<lparr>tb_delta := recs\<rparr> = db_table db" using claim_refused [OF c_refused(6,7)] by (cases "db_table db") simp
    then show ?thesis using assms(2) by (simp add: c_refused(1-3))
  next
    case (c_store txn act todo x row t db)
    show ?thesis using linked_store [OF l [unfolded c_store(1)] c_store(4,5)] by (auto simp: c_store(2,3) conc_inv_def)
  next
    case (c_append txn act todo r db lsn w)
    show ?thesis using linked_append [OF l [unfolded c_append(1)] c_append(4,5)] by (auto simp: c_append(2,3) conc_inv_def)
  next
    case (c_commit txn act todo db lsn w)
    show ?thesis using linked_mark [OF l [unfolded c_commit(1)] c_commit(4), of kCommit] by (auto simp: c_commit(2,3) conc_inv_def)
  next
    case (c_abort txn act todo db lsn w)
    show ?thesis using linked_mark [OF l [unfolded c_abort(1)] c_abort(4), of kAbort] by (auto simp: c_abort(2,3) conc_inv_def)
  next
    case (c_committed db txn act todo txn' tb)
    from c_committed(7,5,4) show ?thesis
    proof (cases rule: TableCommit_effect)
      case (1 tm1 st)
      show ?thesis using linked_end [OF l [unfolded c_committed(1)] c_committed(5) _ c_committed(6) 1(2,1,3), of kCommit] 1(4,5) c_committed(4)
        by (auto simp: c_committed(2,3) conc_inv_def)
    qed
  next
    case (c_aborted txn act todo db txn' tb)
    from c_aborted(6,4) show ?thesis
    proof (cases rule: TableAbort_effect)
      case (1 tm1 st)
      show ?thesis using linked_end [OF l [unfolded c_aborted(1)] c_aborted(4) _ c_aborted(5) 1(2,1,3), of kAbort] 1(4,5)
        by (auto simp: c_aborted(2,3) conc_inv_def)
    qed
  qed
qed

lemma conc_inv_run: "conc_run s log s' \<Longrightarrow> conc_inv s [] \<Longrightarrow> conc_inv s' log"
  using logged_run_invariant [of conc_step s log s' conc_inv] conc_inv_step by blast

lemma conc_inv_start: "db_inv (db, []) [] \<Longrightarrow> conc_inv (db, [], Map.empty) []"
proof -
  assume i: "db_inv (db, []) []"
  moreover have "(db_table db)\<lparr>tb_delta := tb_delta (db_table db)\<rparr> = db_table db" by (cases "db_table db") simp
  ultimately have "linked (db, [], Map.empty) [] (tb_delta (db_table db)) []"
    by (intro linkedI) (simp_all add: row_link_def owed_writes_def owed_ok_def)
  then show ?thesis by (auto simp: conc_inv_def)
qed

section \<open>What a new reader finds\<close>

lemma unstored_created: "r \<in> set (unstored i td) \<Longrightarrow> dr_created_txn r = i"
  by (cases td) (auto simp: DeltaInsert_def)

lemma owed_uncommitted:
  assumes "linked (db, act, todo) L D V" "owed_writes todo i x \<noteq> []"
  shows "\<not> committed (tb_txn_mgr (db_table db)) i" "i \<noteq> 0" "\<forall>r\<in>set (owed_records todo i x). dr_created_txn r = i" "todo i \<noteq> Some DoCommit"
proof -
  note l = linkedD [OF assms(1)]
  have "i \<in> txn_id ` set act" using owed_involved [OF l(3,2) assms(2)] by simp
  then show "\<not> committed (tb_txn_mgr (db_table db)) i" "i \<noteq> 0" using active_facts(1,3) [OF l(6)] by auto
  show "\<forall>r\<in>set (owed_records todo i x). dr_created_txn r = i"
    using unstored_created by (auto simp: owed_records_def of_row_def split: option.splits)
  show "todo i \<noteq> Some DoCommit" using assms(2) by (auto simp: owed_writes_def)
qed

lemma linked_row:
  assumes "linked (db, act, todo) L D V"
  obtains ps ws where "of_row x D = of_row x (tb_delta (db_table db)) @ ps" "writes_to V x = writes_to L x @ ws"
    "\<forall>r\<in>set ps. \<not> committed (tb_txn_mgr (db_table db)) (dr_created_txn r)" "\<forall>r\<in>set ws. \<not> logged_commit L (rec_txn_id r)"
proof -
  note l = linkedD [OF assms]
  show ?thesis
  proof (cases "\<exists>i. owed_writes todo i x \<noteq> []")
    case True
    then obtain i where i: "owed_writes todo i x \<noteq> []" by blast
    note u = owed_uncommitted [OF assms i]
    have "\<not> logged_commit L i" using l(4) [of i] u(1,4) db_inv_log(1) [OF l(1), of i] by simp
    then have "\<forall>r\<in>set (owed_writes todo i x). \<not> logged_commit L (rec_txn_id r)" using owed_writes_txn(1) [OF l(3)] by blast
    moreover have "of_row x D = of_row x (tb_delta (db_table db)) @ owed_records todo i x" "writes_to V x = writes_to L x @ owed_writes todo i x"
      using l(2) [of x] i by (simp_all add: row_link_def)
    ultimately show ?thesis using that [of "owed_records todo i x" "owed_writes todo i x"] u(1,3) by auto
  next
    case False
    then show ?thesis using that [of "[]" "[]"] l(2) [of x] by (simp add: row_link_def)
  qed
qed

lemma linked_recs: "linked (db, act, todo) L D V \<Longrightarrow> set (tb_delta (db_table db)) \<subseteq> set D"
proof
  fix r assume l: "linked (db, act, todo) L D V" and r: "r \<in> set (tb_delta (db_table db))"
  then have "r \<in> set (of_row (dr_row_id r) (tb_delta (db_table db)))" by (simp add: of_row_def)
  with linked_row [OF l, of "dr_row_id r"] have "r \<in> set (of_row (dr_row_id r) D)" by (metis Un_iff set_append)
  then show "r \<in> set D" by (simp add: of_row_def)
qed

lemma linked_reader_rows:
  assumes "linked (db, act, todo) L D V" "\<forall>i. todo i \<noteq> Some DoCommit" "tm_next_id (tb_txn_mgr (db_table db)) \<noteq> - 1" "\<And>xs. mset (ord xs) = mset xs"
  shows "\<exists>rows. new_reader_rows ord (db_table db) = Inr rows \<and> mset rows = visible_rows (logged_row (logged_commit L) L)"
proof -
  let ?tm = "tb_txn_mgr (db_table db)" and ?recs = "tb_delta (db_table db)"
  note l = linkedD [OF assms(1)]
  have com: "committed ?tm = logged_commit L" using db_inv_log(1) [OF l(1)] l(4) assms(2) by (simp add: fun_eq_iff)
  have "agree (committed ?tm) ?recs V x \<and> logged_row (committed ?tm) V x = logged_row (logged_commit L) L x" for x
  proof -
    obtain ps ws where p: "of_row x D = of_row x ?recs @ ps" "writes_to V x = writes_to L x @ ws"
      "\<forall>r\<in>set ps. \<not> committed ?tm (dr_created_txn r)" "\<forall>r\<in>set ws. \<not> logged_commit L (rec_txn_id r)" using linked_row [OF assms(1)] .
    have "open_under (committed ?tm) D x = open_under (committed ?tm) ?recs x" using p(1,3) by (auto simp: open_under_of_row filter_empty_conv)
    moreover have "agree (committed ?tm) D V x" using l(7) [of x] by (simp add: owner_inv_def)
    moreover have "filter (\<lambda>r. logged_commit L (rec_txn_id r)) ws = []" using p(4) by (auto simp: filter_empty_conv)
    ultimately show ?thesis by (simp add: agree_def logged_row_def com p(2))
  qed
  note row = this
  have sub: "involved ?recs V x \<subseteq> involved D V x" for x using linked_recs [OF assms(1)] by (auto simp: involved_def)
  have "delta_inv ?tm (tb_next_row_id (db_table db)) ?recs V"
    using l(8) sub linked_recs [OF assms(1)] unfolding delta_inv_def by blast
  from agreeing_reader_rows [OF l(6) assms(3) l(9) this _ assms(4)] row
  have "\<exists>rows. new_reader_rows ord (db_table db) = Inr rows \<and> mset rows = visible_rows (logged_row (committed ?tm) V)" by blast
  moreover have "logged_row (committed ?tm) V = logged_row (logged_commit L) L" using row by (intro ext) blast
  ultimately show ?thesis by simp
qed

section \<open>Commits that have been logged\<close>

lemma TableCommit_total:
  assumes "tm_inv (tb_txn_mgr tb, act)" "txn \<in> set act"
  shows "\<exists>txn' tb'. TableCommit tb txn = Inr (txn', tb')"
  using assms by (auto simp: TableCommit_def TxnCommit_def erase_snapshot_def Let_def tm_inv_def)

lemma finite_committing: "owed_ok act todo \<Longrightarrow> finite {i. todo i = Some DoCommit}"
  by (rule finite_subset [of _ "txn_id ` set act"]) (auto simp: owed_ok_def)

lemma finish_commits:
  assumes "conc_inv (db, act, todo) L" "unat (tm_next_id (tb_txn_mgr (db_table db))) + card {i. todo i = Some DoCommit} < 2 ^ 64 - 1"
  shows "\<exists>db' act' todo'. conc_run (db, act, todo) [] (db', act', todo') \<and> (\<forall>i. todo' i \<noteq> Some DoCommit) \<and>
    unat (tm_next_id (tb_txn_mgr (db_table db'))) < 2 ^ 64 - 1"
  using assms
proof (induction "card {i. todo i = Some DoCommit}" arbitrary: db act todo)
  case 0
  obtain D V where l: "linked (db, act, todo) L D V" using 0(2) by (auto simp: conc_inv_def)
  have "{i. todo i = Some DoCommit} = {}" using 0(1) finite_committing [OF linkedD(3) [OF l]] by auto
  then show ?case using 0(3) run_refl [of conc_step "(db, act, todo)"] by (intro exI [of _ db] exI [of _ act] exI [of _ todo]) auto
next
  case (Suc n)
  obtain D V where l: "linked (db, act, todo) L D V" using Suc(3) by (auto simp: conc_inv_def)
  let ?C = "{i. todo i = Some DoCommit}"
  note fin = finite_committing [OF linkedD(3) [OF l]]
  obtain i where i: "todo i = Some DoCommit" using Suc(2) fin by (metis (mono_tags) Collect_empty_eq card.empty nat.distinct(2))
  then have "i \<in> txn_id ` set act" using linkedD(3) [OF l] unfolding owed_ok_def by blast
  then obtain txn where txn: "txn \<in> set act" "i = txn_id txn" by blast
  obtain txn' tb where tb: "TableCommit (db_table db) txn = Inr (txn', tb)" using TableCommit_total [OF linkedD(6) [OF l] txn(1)] by blast
  have nx: "tm_next_id (tb_txn_mgr (db_table db)) \<noteq> - 1" using Suc(4) unat_next by (metis add_lessD1)
  let ?todo = "todo(txn_id txn := None)"
  have step: "conc_step (db, act, todo) [] (with_table db tb, remove1 txn act, ?todo)"
    using nx txn(1) i tb unfolding txn(2) by (rule c_committed)
  have "{j. ?todo j = Some DoCommit} = ?C - {i}" using txn(2) by auto
  then have c: "card {j. ?todo j = Some DoCommit} = n" using Suc(2) fin i by simp
  have "unat (tm_next_id (tb_txn_mgr tb)) = Suc (unat (tm_next_id (tb_txn_mgr (db_table db))))"
    using tb txn(1) nx by (rule TableCommit_effect) (simp add: unat_inc [OF nx])
  moreover have "conc_inv (with_table db tb, remove1 txn act, ?todo) L" using conc_inv_step [OF step Suc(3)] by simp
  ultimately obtain db' act' todo' where r: "conc_run (with_table db tb, remove1 txn act, ?todo) [] (db', act', todo')"
    "\<forall>i. todo' i \<noteq> Some DoCommit" "unat (tm_next_id (tb_txn_mgr (db_table db'))) < 2 ^ 64 - 1"
    using Suc(1) [of ?todo "with_table db tb" "remove1 txn act"] c Suc(2,4) by auto
  then show ?case using conc_steps [OF step r(1)] by auto
qed

lemma conc_step_next:
  assumes "conc_step s rs s'"
  shows "unat (tm_next_id (tb_txn_mgr (db_table (fst s)))) \<le> unat (tm_next_id (tb_txn_mgr (db_table (fst s'))))"
  using assms
proof (cases rule: conc_step.cases)
  case (c_begin db txn tb act todo)
  then show ?thesis using unat_inc [OF c_begin(4)] by (auto simp: TableBegin_def TxnBegin_def Let_def)
next
  case (c_committed db txn act todo txn' tb)
  from c_committed(7,5,4) show ?thesis by (rule TableCommit_effect) (simp add: c_committed(1,3) unat_inc [OF c_committed(4)])
next
  case (c_aborted txn act todo db txn' tb)
  from c_aborted(6,4) show ?thesis by (rule TableAbort_effect) (simp add: c_aborted(1,3))
qed simp_all

lemma conc_run_next:
  "conc_run s rs s' \<Longrightarrow> unat (tm_next_id (tb_txn_mgr (db_table (fst s)))) \<le> unat (tm_next_id (tb_txn_mgr (db_table (fst s'))))"
  by (induction rule: logged_run.induct) (auto dest: conc_step_next)

lemma logged_commits:
  "conc_inv (db, act, todo) L \<Longrightarrow> committed (tb_txn_mgr (db_table db)) i \<or> todo i = Some DoCommit \<longleftrightarrow> logged_commit L i"
proof -
  assume "conc_inv (db, act, todo) L"
  then obtain D V where l: "linked (db, act, todo) L D V" by (auto simp: conc_inv_def)
  show ?thesis using linkedD(4) [OF l, of i] db_inv_log(1) [OF linkedD(1) [OF l], of i] by simp
qed

lemma committing_logged: "conc_inv (db, act, todo) L \<Longrightarrow> card {i. todo i = Some DoCommit} \<le> length L"
proof -
  assume "conc_inv (db, act, todo) L"
  then have "logged_commit L i" if "todo i = Some DoCommit" for i using logged_commits that by blast
  then have "{i. todo i = Some DoCommit} \<subseteq> set (map rec_txn_id L)" by fastforce
  from card_mono [OF _ this] have "card {i. todo i = Some DoCommit} \<le> card (set (map rec_txn_id L))" by simp
  also have "\<dots> \<le> length L" using card_length [of "map rec_txn_id L"] by simp
  finally show ?thesis .
qed

lemma linked_inserts:
  assumes "linked (db, act, todo) L D V"
  shows "\<forall>r\<in>set (tl (writes_to L x)). rec_type r \<noteq> kInsert"
proof -
  obtain ws where "writes_to V x = writes_to L x @ ws" using linked_row [OF assms] by metis
  then have "set (tl (writes_to L x)) \<subseteq> set (tl (writes_to V x))" by (cases "writes_to L x") auto
  with db_inv_log(2) [OF linkedD(1) [OF assms], of x] show ?thesis by blast
qed

text \<open>At every moment of an execution the commits logged so far can be finished; new readers then find what the log says.\<close>

lemma finished_moment:
  assumes "conc_run s L mid" "conc_inv s []" "conc_run mid rest (db, act, todo)"
    and "unat (tm_next_id (tb_txn_mgr (db_table db))) + length L < 2 ^ 64 - 1" and "\<forall>xs. mset (ord xs) = mset xs"
  obtains db1 act1 todo1 rows where "conc_run mid [] (db1, act1, todo1)" "\<forall>i. todo1 i \<noteq> Some DoCommit" "conc_inv (db1, act1, todo1) L"
    "new_reader_rows ord (db_table db1) = Inr rows" "mset rows = visible_rows (logged_row (logged_commit L) L)"
    "\<forall>i. committed (tb_txn_mgr (db_table db1)) i \<longleftrightarrow> logged_commit L i"
proof -
  obtain db2 act2 todo2 where m: "mid = (db2, act2, todo2)" by (cases mid)
  have inv: "conc_inv (db2, act2, todo2) L" using conc_inv_run [OF assms(1,2)] by (simp add: m)
  have "unat (tm_next_id (tb_txn_mgr (db_table db2))) + card {i. todo2 i = Some DoCommit} < 2 ^ 64 - 1"
    using conc_run_next [OF assms(3)] committing_logged [OF inv] assms(4) by (simp add: m)
  from finish_commits [OF inv this] obtain db1 act1 todo1 where f: "conc_run mid [] (db1, act1, todo1)"
    "\<forall>i. todo1 i \<noteq> Some DoCommit" "unat (tm_next_id (tb_txn_mgr (db_table db1))) < 2 ^ 64 - 1" by (auto simp: m)
  have inv1: "conc_inv (db1, act1, todo1) L" using conc_inv_run [OF logged_run_trans [OF assms(1) f(1)] assms(2)] by simp
  then obtain D V where l: "linked (db1, act1, todo1) L D V" by (auto simp: conc_inv_def)
  have "tm_next_id (tb_txn_mgr (db_table db1)) \<noteq> - 1" using f(3) unat_next by blast
  from linked_reader_rows [OF l f(2) this] assms(5) obtain rows where rows: "new_reader_rows ord (db_table db1) = Inr rows"
    "mset rows = visible_rows (logged_row (logged_commit L) L)" by blast
  have "committed (tb_txn_mgr (db_table db1)) i \<longleftrightarrow> logged_commit L i" for i
    using linkedD(4) [OF l, of i] db_inv_log(1) [OF linkedD(1) [OF l], of i] f(2) by simp
  then have "\<forall>i. committed (tb_txn_mgr (db_table db1)) i \<longleftrightarrow> logged_commit L i" ..
  then show ?thesis by (rule that [OF f(1,2) inv1 rows])
qed

section \<open>Properties\<close>

text \<open>
  C1: crash recovery under concurrency. Take any interleaving of the actions of concurrent clients that begin
  transactions, insert, update, delete, commit and abort on a new database, without compactions and checkpoints,
  and cut its log at any byte. There is a moment of the execution such that, once the transactions whose commit is
  in the log by then have finished committing, a new reader finds exactly the rows, up to order, that a new
  reader finds in the database reopened on the cut log, which reports no error. If the writer syncs at commits
  and the cut spares the synced bytes, these include every transaction that committed, and every one whose
  commit had only been logged.
\<close>

theorem interleaved_database_reopens:
  assumes "OpenDatabase env fs dir schema cfg = Inr db0" and "fs (wal_path dir) = None" and "fs (manifest_path dir) = None"
    and "conc_run (db0, [], Map.empty) log (db, act, todo)" and "list_all encodable log"
    and "length (ww_file (db_wal_writer db)) < 2 ^ 64" and "unat (tm_next_id (tb_txn_mgr (db_table db))) + length log < 2 ^ 64 - 1"
    and "n \<le> length (ww_file (db_wal_writer db))" and "fs' = fs(wal_path dir \<mapsto> take n (ww_file (db_wal_writer db)))"
    and "\<not> oe_mkdir_fails env'" and "oe_can_open env'"
    and "\<forall>xs. mset (ord xs) = mset xs"
  shows "\<exists>k mid db1 act1 todo1 db' rows rows'. conc_run (db0, [], Map.empty) (take k log) mid \<and>
    conc_run mid [] (db1, act1, todo1) \<and> (\<forall>i. todo1 i \<noteq> Some DoCommit) \<and>
    OpenDatabase env' fs' dir schema cfg' = Inr db' \<and> rs_error (db_recovery_stats db') = NoError \<and>
    new_reader_rows ord (db_table db1) = Inr rows \<and> new_reader_rows ord (db_table db') = Inr rows' \<and> mset rows' = mset rows \<and>
    (wc_durability cfg \<noteq> kNoSync \<and> ww_synced (db_wal_writer db) \<le> n \<longrightarrow>
      (\<forall>i. committed (tb_txn_mgr (db_table db)) i \<or> todo i = Some DoCommit \<longrightarrow> committed (tb_txn_mgr (db_table db1)) i))"
proof -
  let ?w = "db_wal_writer db0" and ?rs = "numbered 1 log"
  let ?k = "complete n ?rs"
  let ?L = "take ?k log"
  note new = open_new [OF assms(1-3)]
  have w: "db_wal_writer db = append_all ?w log" using conc_log.run_writer [OF assms(4)] by simp
  have content: "ww_file (db_wal_writer db) = concat (map frame ?rs)" using new by (simp add: w append_all_file)
  have n64: "n < 2 ^ 64" using assms(6,8) by simp
  have start: "conc_inv (db0, [], Map.empty) []" using new conc_inv_start by simp
  obtain mid rest where mid: "conc_run (db0, [], Map.empty) ?L mid" "conc_run mid rest (db, act, todo)"
    using conc_log.run_prefix [OF assms(4), of ?k] by blast
  have inv: "conc_inv (db, act, todo) log" using conc_inv_run [OF assms(4) start] by simp
  have next_L: "unat (tm_next_id (tb_txn_mgr (db_table db))) + length ?L < 2 ^ 64 - 1" using assms(7) by simp
  obtain db1 act1 todo1 rows where f: "conc_run mid [] (db1, act1, todo1)" "\<forall>i. todo1 i \<noteq> Some DoCommit" "conc_inv (db1, act1, todo1) ?L"
    and rows: "new_reader_rows ord (db_table db1) = Inr rows" "mset rows = visible_rows (logged_row (logged_commit ?L) ?L)"
    and com1: "\<forall>i. committed (tb_txn_mgr (db_table db1)) i \<longleftrightarrow> logged_commit ?L i"
    by (rule finished_moment [OF mid(1) start mid(2) next_L assms(12)])
  have com: "committed (tb_txn_mgr (db_table db)) i \<or> todo i = Some DoCommit \<longleftrightarrow> logged_commit log i" for i
    using inv logged_commits by blast
  have st: "\<forall>r\<in>set log. stored r = r" using inv by (auto simp: conc_inv_def dest: linkedD(5))
  have read: "wr_records (ReadAll ec fs' (wal_path dir)) = numbered 1 ?L" for ec
    using read_cut [OF assms(5) st, of n] assms(8,9) n64 by (simp add: content)
  have ins: "\<forall>r\<in>set (tl (writes_to ?L x)). rec_type r \<noteq> kInsert" for x
    using f(3) linked_inserts by (auto simp: conc_inv_def)
  have l62: "length ?L < 2 ^ 62"
  proof -
    have "8 * length rs \<le> length (concat (map frame rs))" for rs by (induction rs) simp_all
    from this [of ?rs] assms(6) show ?thesis by (simp add: content)
  qed
  have fsm: "fs' (manifest_path dir) = None" using assms(3,9) manifest_not_wal by simp
  obtain db' rows' where db': "OpenDatabase env' fs' dir schema cfg' = Inr db'" "rs_error (db_recovery_stats db') = NoError"
    "new_reader_rows ord (db_table db') = Inr rows'" "mset rows' = visible_rows (logged_row (logged_commit ?L) ?L)"
    using open_log [OF refl ins l62 read fsm assms(10-12)] by blast
  have "logged_commit ?L i" if dur: "wc_durability cfg \<noteq> kNoSync" "ww_synced (db_wal_writer db) \<le> n" and i: "logged_commit log i" for i
    using synced_commit [OF i, of ?w n] dur new by (simp add: w)
  then have "wc_durability cfg \<noteq> kNoSync \<and> ww_synced (db_wal_writer db) \<le> n \<longrightarrow>
      (\<forall>i. committed (tb_txn_mgr (db_table db)) i \<or> todo i = Some DoCommit \<longrightarrow> committed (tb_txn_mgr (db_table db1)) i)"
    using com1 unfolding com by blast
  with mid(1) f(1,2) rows db' show ?thesis
    by (intro exI [of _ ?k] exI [of _ mid] exI [of _ db1] exI [of _ act1] exI [of _ todo1] exI [of _ db'] exI [of _ rows] exI [of _ rows']) simp
qed

text \<open>A process that crashes after a commit has been logged and before the table knows about it.\<close>

lemma sample_half_commit:
  assumes "db_table db0 = MakeTable ''db'' schema"
  obtains db t where "conc_run (db0, [], Map.empty) sample_log (db, [t], [1 \<mapsto> DoCommit])" "unat (tm_next_id (tb_txn_mgr (db_table db))) = 2"
    "\<not> committed (tb_txn_mgr (db_table db)) 1" "txn_id t = 1"
  using assms
proof (rule sample_start)
  fix t db
  assume s: "db_run (db0, []) (take 2 sample_log) (db, [t])" "sample_log = take 2 sample_log @ [mark t kCommit]"
    "t = \<lparr>txn_id = 1, snapshot_ts = 0, commit_ts = 0, txn_state = kActive\<rparr>"
    "tb_txn_mgr (db_table db) = new_TransactionManager\<lparr>tm_next_id := 2, tm_active_snapshots := {#0#}, tm_active_txn_ids := {1}\<rparr>"
    "tb_delta (db_table db) = DeltaInsert [] 1 1 [VInt64 5]" "tb_base_segments (db_table db) = []"
  obtain lsn w where "AppendMark (db_wal_writer db) (txn_id t) kCommit = (lsn, w)" by fastforce
  then have "conc_step (db, [t], Map.empty) [mark t kCommit] (with_writer db w, [t], [txn_id t \<mapsto> DoCommit])" by (intro c_commit) simp_all
  from run_step [where step = conc_step, OF db_run_conc_run [OF s(1), simplified] this] s(2,3)
  have "conc_run (db0, [], Map.empty) sample_log (with_writer db w, [t], [1 \<mapsto> DoCommit])" by simp
  then show ?thesis by (rule that) (simp_all add: s(3,4) GetStatus_def new_TransactionManager_def)
qed

theorem interleaved_database_reopens_witness:
  "\<exists>fs (db :: Database) (db1 :: Database) db' rows rows'. \<not> committed (tb_txn_mgr (db_table db)) 1 \<and> committed (tb_txn_mgr (db_table db1)) 1 \<and>
    fs (wal_path ''d'') = Some (ww_file (db_wal_writer db)) \<and> OpenDatabase sample_env fs ''d'' one_column sample_cfg = Inr db' \<and>
    new_reader_rows id (db_table db1) = Inr rows \<and> new_reader_rows id (db_table db') = Inr rows' \<and> mset rows' = mset rows"
proof -
  obtain db0 where db0: "OpenDatabase sample_env Map.empty ''d'' one_column sample_cfg = Inr db0" "db_table db0 = MakeTable ''db'' one_column"
    using sample_open by blast
  obtain db t where db: "conc_run (db0, [], Map.empty) sample_log (db, [t], [1 \<mapsto> DoCommit])" "unat (tm_next_id (tb_txn_mgr (db_table db))) = 2"
    "\<not> committed (tb_txn_mgr (db_table db)) 1" using sample_half_commit [OF db0(2)] by blast
  have w: "db_wal_writer db = append_all (db_wal_writer db0) sample_log" "ww_file (db_wal_writer db0) = []" "ww_next_lsn (db_wal_writer db0) = 1"
    using conc_log.run_writer [OF db(1)] open_new [OF db0(1)] by simp_all
  then have "ww_file (db_wal_writer db) = concat (map frame (numbered 1 sample_log))" by (simp add: append_all_file)
  then have len: "length (ww_file (db_wal_writer db)) < 2 ^ 64"
    by (simp add: sample_log_def Let_def EncodeBody_def AppendValue_def default_WalRecord_def)
  have nx: "unat (tm_next_id (tb_txn_mgr (db_table db))) + length sample_log < 2 ^ 64 - 1" by (simp add: db(2) sample_log_def Let_def)
  have "ww_synced (db_wal_writer db0) \<le> length (ww_file (db_wal_writer db0))"
    using db0(1) by (auto simp: OpenDatabase_def open_WalWriter_def Let_def split: if_splits)
  from append_all_synced [OF this] have syn: "ww_synced (db_wal_writer db) \<le> length (ww_file (db_wal_writer db))" by (simp add: w(1))
  have "\<forall>xs :: (u64 \<times> Row) list. mset (id xs) = mset xs" by simp
  note perm = this
  have none: "Map.empty (wal_path ''d'') = None" "Map.empty (manifest_path ''d'') = None" by simp_all
  have env: "\<not> oe_mkdir_fails sample_env" "oe_can_open sample_env" by (simp_all add: sample_env_def)
  let ?fs = "[wal_path ''d'' \<mapsto> take (length (ww_file (db_wal_writer db))) (ww_file (db_wal_writer db))]"
  from interleaved_database_reopens [OF db0(1) none db(1) sample_log_encodable len nx le_refl refl env perm, of sample_cfg]
  obtain db1 :: Database and db' rows rows' where r: "OpenDatabase sample_env ?fs ''d'' one_column sample_cfg = Inr db'"
    "new_reader_rows id (db_table db1) = Inr rows" "new_reader_rows id (db_table db') = Inr rows'" "mset rows' = mset rows"
    "wc_durability sample_cfg \<noteq> kNoSync \<and> ww_synced (db_wal_writer db) \<le> length (ww_file (db_wal_writer db)) \<longrightarrow>
      (\<forall>i. committed (tb_txn_mgr (db_table db)) i \<or> [1 \<mapsto> DoCommit] i = Some DoCommit \<longrightarrow> committed (tb_txn_mgr (db_table db1)) i)"
    by blast
  have "committed (tb_txn_mgr (db_table db1)) 1" using r(5) syn by (simp add: sample_cfg_def)
  moreover have "?fs (wal_path ''d'') = Some (ww_file (db_wal_writer db))" by simp
  ultimately show ?thesis using r(1-4) db(3) by blast
qed

text \<open>
  C5: writers exclude each other. In every interleaving of the actions of concurrent clients that begin
  transactions, insert, update, delete, commit and abort on a new database, without compactions and checkpoints, two records
  of the log that write the same row and belong to transactions that are both still active belong to the
  same transaction.
\<close>

theorem active_writers_exclude:
  assumes "OpenDatabase env fs dir schema cfg = Inr db0" and "fs (wal_path dir) = None" and "fs (manifest_path dir) = None"
    and "conc_run (db0, [], Map.empty) log (db, act, todo)"
    and "r \<in> set log" and "r' \<in> set log" and "rec_type r \<in> {kInsert, kUpdate, kDelete}" and "rec_type r' \<in> {kInsert, kUpdate, kDelete}"
    and "rec_row_id r = rec_row_id r'" and "rec_txn_id r \<in> txn_id ` set act" and "rec_txn_id r' \<in> txn_id ` set act"
  shows "rec_txn_id r = rec_txn_id r'"
proof -
  have "conc_inv (db0, [], Map.empty) []" using open_new [OF assms(1-3)] conc_inv_start by simp
  from conc_inv_run [OF assms(4) this] obtain D V where l: "linked (db, act, todo) log D V" by (auto simp: conc_inv_def)
  have "{r, r'} \<subseteq> set (writes_to log (rec_row_id r))" using assms(5-9) by (auto simp: writes_to_def)
  moreover obtain ws where "writes_to V (rec_row_id r) = writes_to log (rec_row_id r) @ ws" using linked_row [OF l] by metis
  ultimately have "{rec_txn_id r, rec_txn_id r'} \<subseteq> involved D V (rec_row_id r)" by (auto simp: involved_def)
  with linkedD(7) [OF l, of "rec_row_id r"] assms(10,11) show ?thesis by (simp add: owner_inv_def)
qed

text \<open>A transaction that inserts a row, deletes it again, and is still active.\<close>

lemma sample_two_writes:
  assumes "db_table db0 = MakeTable ''db'' schema"
  obtains db t where "conc_run (db0, [], Map.empty) (take 2 sample_log @ [write_of t kDelete 1 []]) (db, [t], Map.empty)" "txn_id t = 1"
  using assms
proof (rule sample_start)
  fix t db
  assume s: "db_run (db0, []) (take 2 sample_log) (db, [t])" "t = \<lparr>txn_id = 1, snapshot_ts = 0, commit_ts = 0, txn_state = kActive\<rparr>"
    "tb_delta (db_table db) = DeltaInsert [] 1 1 [VInt64 5]" "tb_base_segments (db_table db) = []"
  obtain lsn w where "AppendRow (db_wal_writer db) 1 kDelete 1 [] = (lsn, w)" by fastforce
  with s obtain db' where "DbDelete db t 1 = Inr (True, db')"
    by (auto simp: DbDelete_def TableDelete_def RowIdExistsInBase_def ClaimOrInsertBaseTombstone_def DeltaInsert_def judge_def
        IsVisible_def Let_def split: prod.splits)
  from logged_run_trans [OF db_run_conc_run [OF s(1), simplified] delete_parts [OF _ this, of "[t]", simplified]]
  show ?thesis by (rule that) (simp add: s(2))
qed

theorem active_writers_exclude_witness:
  "\<exists>db0 db t r r'. conc_run (db0, [], Map.empty) (take 2 sample_log @ [write_of t kDelete 1 []]) (db, [t], Map.empty) \<and>
    r = sample_log ! 1 \<and> r' = write_of t kDelete 1 [] \<and> r \<noteq> r' \<and> rec_row_id r = rec_row_id r' \<and> rec_txn_id r = rec_txn_id r'"
proof -
  obtain db0 where db0: "OpenDatabase sample_env Map.empty ''d'' one_column sample_cfg = Inr db0" "db_table db0 = MakeTable ''db'' one_column"
    using sample_open by blast
  obtain db t where db: "conc_run (db0, [], Map.empty) (take 2 sample_log @ [write_of t kDelete 1 []]) (db, [t], Map.empty)" "txn_id t = 1"
    using sample_two_writes [OF db0(2)] by blast
  let ?r = "sample_log ! 1" and ?r' = "write_of t kDelete 1 []"
  have r: "rec_type ?r = kInsert" "rec_row_id ?r = 1" "rec_txn_id ?r = 1" "?r \<in> set (take 2 sample_log)"
    by (simp_all add: sample_log_def Let_def)
  have "rec_txn_id ?r = rec_txn_id ?r'"
    by (rule active_writers_exclude [OF db0(1) _ _ db(1)]) (simp_all add: r [simplified] db(2))
  moreover have "rec_type ?r \<noteq> rec_type ?r'" by (simp add: r [simplified])
  then have "?r \<noteq> ?r'" by metis
  moreover have "rec_row_id ?r = rec_row_id ?r'" by (simp add: r [simplified])
  ultimately show ?thesis using db(1) by blast
qed

end
