(* ===== verification/Spec2Isabelle.thy ===== *)
theory Spec2Isabelle
  imports SegmentFile Wal Exec Compactor CheckpointRecovery InterleavedRecovery
begin

text \<open>
  A verification of CoreDB, an embedded column store in C++ with multi-version concurrency, a write-ahead
  log, checkpoints and three query engines. Paths below are relative to \<^verbatim>\<open>src/include/coredb\<close> and \<^verbatim>\<open>src/src\<close>.

  \<^bold>\<open>The program.\<close> A table (\<^verbatim>\<open>table/\<close>) keeps its rows in immutable columnar base segments (\<^verbatim>\<open>storage/\<close>) and in a
  delta layer of row versions (\<^verbatim>\<open>mvcc/\<close>) whose visibility follows snapshot isolation. Compaction folds settled
  versions into a new base segment, on demand or in a background thread (\<^verbatim>\<open>compaction/\<close>). The database
  (\<^verbatim>\<open>db/\<close>) logs every operation (\<^verbatim>\<open>wal/\<close>), writes checkpoints, and recovers from both when it is opened
  (\<^verbatim>\<open>recovery/\<close>). Queries sum one column under a predicate on another, row by row, in batches through SIMD
  kernels (\<^verbatim>\<open>simd/\<close>), or through code generated with LLVM (\<^verbatim>\<open>exec/\<close>, \<^verbatim>\<open>jit/\<close>).

  \<^bold>\<open>Conventions\<close> (\<open>CoreDB_Prelude\<close>, \<open>FileIO\<close>, \<open>Text\<close>). Fixed-width integers are words and wrap as the code does;
  doubles are their IEEE-754 bit patterns. An operation that can throw returns \<open>'a res\<close>, with the exception
  on the left; undefined behaviour (an index out of range, signed overflow, erasing an end iterator) is one of
  the exceptions, so a theorem that an operation returns excludes it. Functions that report errors by
  value have error datatypes of their own. Files are a map from paths to bytes; what the operating system
  answers (a failed open, a short write, a crash that keeps a prefix) is an argument. A mutex-protected method
  is one atomic step; the iteration order of an unordered container is an argument that the theorems constrain
  to be a permutation, and the schedule of the recovery threads is an argument without any constraint. A loop that
  does not terminate has the value \<open>None\<close> or, inside \<open>'a res\<close>, the exception \<open>NonTermination\<close>.

  \<^bold>\<open>Theories and sources.\<close>
  \<^item> \<open>Crc32c\<close>, \<open>Bitmap\<close> (\<^verbatim>\<open>util/crc32c\<close>, \<^verbatim>\<open>util/bitmap.h\<close>): the table-driven checksum equals the bit-serial polynomial
    division and detects every error burst of four bytes; validity bits behave as an array.
  \<^item> \<open>Types\<close>, \<open>Dictionary\<close>, \<open>Segment\<close>, \<open>SegmentFile\<close> (\<^verbatim>\<open>storage/\<close>): values and comparison, string interning, building a
    segment, cell access, zone-map pruning, checksums, the file format. Shown: cells and files read back,
    pruning is sound up to the precision of double, truncated and damaged files are rejected.
  \<^item> \<open>Wal\<close> (\<^verbatim>\<open>wal/\<close>): record encoding, the writer with its durability modes, the reader with its damage flags.
    Shown: logs read back; a torn or damaged log yields the records before the damage; synced commits
    survive a crash.
  \<^item> \<open>Transactions\<close>, \<open>Delta\<close>, \<open>Table\<close>, \<open>Compaction\<close>, \<open>Compactor\<close> (\<^verbatim>\<open>mvcc/\<close>, \<^verbatim>\<open>table/\<close>, \<^verbatim>\<open>compaction/\<close>): the transaction manager as a
    step relation with its invariant and watermark; row versions, claims and conflicts; every table operation;
    compaction as a fate for each version; the background thread. Shown: readers see an unchanging snapshot
    whatever others do, compaction does not change what readers see under a stated proviso, stopping the
    thread terminates.
  \<^item> \<open>Checkpoint\<close>, \<open>Recovery\<close>, \<open>Database\<close> (\<^verbatim>\<open>recovery/\<close>, \<^verbatim>\<open>db/\<close>): the manifest as text, \<^verbatim>\<open>WriteCheckpoint\<close>, \<^verbatim>\<open>Recover\<close> with its
    worker threads, and the database operations. \<open>ApplyOp\<close> is one action of a worker: begin, store or claim a version,
    raise the row counter, commit. \<open>run_workers\<close> interleaves the workers' actions as a schedule says and terminates.
  \<^item> \<open>Replay\<close>: the interface of a store on which workers act step by step (a locale: after
    every action the operations that are left lead to the same content), its replay lemmas, and the table as an
    instance; recovery refines a fold of the committed operations over a map from row ids to rows, for every
    schedule of the workers' actions.
  \<^item> \<open>CrashRecovery\<close>: executions of a process as a labelled step relation (begin, insert, update, delete, commit, abort); an invariant ties the table to the log;
    from it, a database reopened after a crash at any byte of the log shows the committed transactions.
  \<^item> \<open>Versions\<close>: a second invariant of executions on the versions of a row; at a point without active transactions, when
    every transaction that replaced or deleted rows has committed, compaction empties the delta layer.
  \<^item> \<open>CheckpointRecovery\<close>, \<open>RecoveryLimits\<close>: a first checkpoint at such a point keeps the rows even if the log is lost; two
    executions after which recovery shows a row that was never committed, or loses one that was.
  \<^item> \<open>Interleaving\<close>, \<open>InterleavedRecovery\<close>: the database operations taken apart into the actions that run under one mutex,
    with what each client still has to do (store a version, append its record, commit or abort in the table).
    The uninterrupted operations are special executions. Shown, for every interleaving of clients: a database
    reopened after a crash shows the transactions whose commit was logged, although the table may not
    have known of it yet, and no two active transactions write the same row. The invariant relates the
    table and the log to those in which every pending operation is complete.
  \<^item> \<open>CpuFeatures\<close>, \<open>Kernels\<close>, \<open>Jit\<close>, \<open>Exec\<close> (\<^verbatim>\<open>util/cpu_features\<close>, \<^verbatim>\<open>simd/\<close>, \<^verbatim>\<open>jit/\<close>, \<^verbatim>\<open>exec/\<close>): tier detection; the four kernel
    tiers on lists of lanes; the IR that the compiler builds, with a type checker and an interpreter; the three
    engines. Shown: all tiers and engines agree where the magnitudes of the values summed up stay below \<open>2 ^ 63\<close> in total, the generated function is
    well typed, terminates and computes the filtered sum, and the engine answers the query on
    segments built from non-null data within the precision of double, and counts null cells as 0.

  \<^bold>\<open>Interfaces.\<close> The locales are the contracts clients rely on: \<open>bit_vector\<close> behind the validity bitmap, \<open>codec\<close> and its
  extension \<open>stream_codec\<close> for the fields of the two binary formats, \<open>checksum\<close> with its damage detection, \<open>interner\<close>
  for the dictionary, \<open>three_way\<close> for value comparison, \<open>kernel_tier\<close> for the tiers of the vector kernels,
  \<open>replay_store\<close> for recovery and \<open>log_machine\<close> for step relations whose labels are what they append to the log. Each is interpreted on the model's own operations.

  \<^bold>\<open>Bounds and fuel.\<close> The interpreter of the generated code takes fuel; \<open>2 * n + 3\<close> block executions are shown to
  suffice for \<open>n\<close> rows. The batch loop of the vectorised engine is a partial function because a batch size of
  zero does diverge; it is shown to return for every other size. Rebuilding a dictionary is one because its 32-bit
  counter never reaches \<open>2 ^ 32\<close> values; below that it is shown to return. Identifiers are 64 bits wide; executions
  stop short of their wrap-around, and recovery of a log assumes fewer than \<open>2 ^ 62\<close> operations, which a file of
  fewer than \<open>2 ^ 64\<close> bytes implies.

  \<^bold>\<open>Not modelled.\<close> LLVM itself (the verifier, the optimiser, code generation) is a parameter with its documented
  behaviour as hypotheses; the initialisation of targets and the registration of passes only call it. In
  interleavings of clients a transaction runs one operation at a time, and a claim reads the states of other
  transactions in one action, which for a recovery worker includes the look-up in the base that nobody
  changes meanwhile. The step relations of clients have no action for compaction and checkpoints: the results on
  executions hold where none has happened, and \<open>Compaction\<close> and \<open>RecoveryLimits\<close> show two defects for which they would
  fail otherwise; one compaction or one checkpoint after an execution is covered by \<open>Compaction\<close>, \<open>Versions\<close> and
  \<open>CheckpointRecovery\<close>. Results of \<^verbatim>\<open>fwrite\<close>, \<^verbatim>\<open>fflush\<close> and \<^verbatim>\<open>fsync\<close>, which the code ignores, are taken
  to be successful. Clocks are inputs. Benchmarks and tests are outside the development.
\<close>

end
